(* ===== verification/Adb_Prelude.thy ===== *)
theory Adb_Prelude
  imports Main "HOL-Library.Word"
begin

text \<open>
  Shared vocabulary of the development: machine integers, byte strings, little-endian
  words, the slice and string operations of the Rust core library that the sources call,
  and the generic lemmas about them.  A \<open>usize\<close> is a natural number bounded by
  \<open>usize_max\<close> (the 64-bit targets), a \<open>&str\<close> is its UTF-8 bytes, and a byte literal
  \<open>b"..."\<close> is \<open>lit ''...''\<close>.
\<close>

unbundle bit_operations_syntax

type_synonym u8 = "8 word"
type_synonym u16 = "16 word"
type_synonym u32 = "32 word"
type_synonym u64 = "64 word"
type_synonym bytes = "u8 list"
type_synonym usize = nat

named_theorems le_simps \<open>little-endian encoding and decoding\<close>
named_theorems slice_simps \<open>reads of slices at fixed offsets\<close>

section \<open>Machine integers\<close>

definition usize_max :: usize where
  "usize_max = 2 ^ 64 - 1"

definition saturating_add :: "usize \<Rightarrow> usize \<Rightarrow> usize" where
  "saturating_add a b = min usize_max (a + b)"

definition checked_add :: "usize \<Rightarrow> usize \<Rightarrow> usize option" where
  "checked_add a b = (if a + b \<le> usize_max then Some (a + b) else None)"

text \<open>Two's-complement wrap-around of a signed 64-bit result.\<close>

definition i64_wrap :: "int \<Rightarrow> int" where
  "i64_wrap x = (x + 2 ^ 63) mod 2 ^ 64 - 2 ^ 63"

lemma i64_wrap_id [simp]: "- (2 ^ 63) \<le> x \<Longrightarrow> x < 2 ^ 63 \<Longrightarrow> i64_wrap x = x"
  by (simp add: i64_wrap_def)

lemma i64_wrap_range: "- (2 ^ 63) \<le> i64_wrap x \<and> i64_wrap x < 2 ^ 63"
proof -
  have "0 \<le> (x + 2 ^ 63) mod 2 ^ 64" "(x + 2 ^ 63) mod 2 ^ 64 < 2 ^ 64" by simp_all
  then show ?thesis unfolding i64_wrap_def by simp
qed

lemma saturating_add_le: "saturating_add a b \<le> a + b"
  by (simp add: saturating_add_def)

lemma saturating_add_exact [simp]: "a + b \<le> usize_max \<Longrightarrow> saturating_add a b = a + b"
  by (simp add: saturating_add_def)

lemma checked_add_Some [simp]: "checked_add a b = Some c \<longleftrightarrow> c = a + b \<and> a + b \<le> usize_max"
  by (auto simp: checked_add_def)

lemma unat_u32_lt: "unat (w :: u32) < 2 ^ 32"
  using unsigned_less [of w] by simp

lemma unat_u32_le_usize [simp]: "unat (w :: u32) \<le> usize_max"
  using unat_u32_lt [of w] by (simp add: usize_max_def)

section \<open>Byte strings\<close>

definition lit :: "string \<Rightarrow> bytes" where
  "lit s = map of_char s"

lemma length_lit [simp]: "length (lit s) = length s"
  by (simp add: lit_def)

lemma lit_simps [simp]: "lit [] = []" "lit (c # s) = of_char c # lit s"
  by (simp_all add: lit_def)

section \<open>Little-endian words\<close>

primrec to_le :: "nat \<Rightarrow> 'a::len word \<Rightarrow> bytes" where
  "to_le 0 w = []"
| "to_le (Suc n) w = ucast w # to_le n (drop_bit 8 w)"

primrec from_le :: "bytes \<Rightarrow> 'a::len word" where
  "from_le [] = 0"
| "from_le (b # bs) = ucast b OR push_bit 8 (from_le bs)"

abbreviation u32_to_le :: "u32 \<Rightarrow> bytes" where
  "u32_to_le \<equiv> to_le 4"

text \<open>\<open>u32_at buf off\<close> is \<open>u32::from_le_bytes(buf[off..off + 4])\<close>; callers check the length first.\<close>

definition u32_at :: "bytes \<Rightarrow> usize \<Rightarrow> u32" where
  "u32_at buf off = from_le (take 4 (drop off buf))"

definition u64_at :: "bytes \<Rightarrow> usize \<Rightarrow> u64" where
  "u64_at buf off = from_le (take 8 (drop off buf))"

lemma length_to_le [simp]: "length (to_le n w) = n"
  by (induction n arbitrary: w) auto

lemma from_le_to_le: "from_le (to_le n w) = (take_bit (8 * n) w :: 'a::len word)"
proof (induction n arbitrary: w)
  case (Suc n)
  have "ucast (ucast w :: u8) OR push_bit 8 (take_bit (8 * n) (drop_bit 8 w)) = take_bit (8 * Suc n) w"
    by (rule bit_word_eqI) (auto simp: bit_simps not_less le_Suc_ex)
  with Suc show ?case by simp
qed simp

lemma nth_to_le: "i < n \<Longrightarrow> to_le n w ! i = ucast (drop_bit (8 * i) w)"
proof (induction n arbitrary: w i)
  case (Suc n)
  show ?case
  proof (cases i)
    case (Suc j)
    then show ?thesis using Suc.IH [of j "drop_bit 8 w"] Suc.prems by (simp add: drop_bit_drop_bit add.commute)
  qed simp
qed simp

lemma bit_from_le:
  "bit (from_le xs :: 'a::len word) n \<longleftrightarrow> n < LENGTH('a) \<and> n div 8 < length xs \<and> bit (xs ! (n div 8)) (n mod 8)"
proof (induction xs arbitrary: n)
  case (Cons x xs)
  show ?case
  proof (cases "n < 8")
    case True
    then show ?thesis by (auto simp: bit_simps)
  next
    case False
    then have n: "n div 8 = Suc ((n - 8) div 8)" "n mod 8 = (n - 8) mod 8" by (simp_all add: le_div_geq le_mod_geq)
    have ub: "\<not> bit x n" using False bit_imp_le_length [of x n] by auto
    then show ?thesis using False by (auto simp: bit_simps Cons n)
  qed
qed simp

lemma to_le_from_le:
  assumes "8 * length xs \<le> LENGTH('a)"
  shows "to_le (length xs) (from_le xs :: 'a::len word) = xs"
proof (rule nth_equalityI)
  fix i assume "i < length (to_le (length xs) (from_le xs :: 'a word))"
  then have i: "i < length xs" by simp
  show "to_le (length xs) (from_le xs :: 'a word) ! i = xs ! i"
  proof (rule bit_word_eqI)
    fix n assume "n < LENGTH(8)"
    then have n: "n < 8" by simp
    then have "8 * i + n < LENGTH('a)" using i assms by simp
    moreover have "(8 * i + n) div 8 = i" "(8 * i + n) mod 8 = n" using n by simp_all
    ultimately show "bit (to_le (length xs) (from_le xs :: 'a word) ! i) n = bit (xs ! i) n"
      using i n by (simp add: nth_to_le bit_simps bit_from_le)
  qed
qed simp

lemma u32_round_trip [simp, le_simps]: "from_le (to_le 4 w) = (w :: u32)"
proof -
  have "take_bit 32 w = w" by (rule bit_word_eqI) (simp add: bit_simps)
  then show ?thesis by (simp add: from_le_to_le)
qed

lemma u64_round_trip [simp, le_simps]: "from_le (to_le 8 w) = (w :: u64)"
proof -
  have "take_bit 64 w = w" by (rule bit_word_eqI) (simp add: bit_simps)
  then show ?thesis by (simp add: from_le_to_le)
qed

lemma to_le_4: "to_le 4 w = [ucast w, ucast (drop_bit 8 w), ucast (drop_bit 16 w), ucast (drop_bit 24 w)]"
  by (simp add: numeral_eq_Suc)

lemma u32_at_app [slice_simps]: "length xs = off \<Longrightarrow> u32_at (xs @ to_le 4 w @ ys) off = w"
  by (simp add: u32_at_def)

lemma u32_to_le_at:
  "off + 4 \<le> length buf \<Longrightarrow> u32_to_le (u32_at buf off) = take 4 (drop off buf)"
  using to_le_from_le [of "take 4 (drop off buf)", where 'a = 32] by (simp add: u32_at_def)

text \<open>Two ways of cutting one list in two.\<close>

lemma cut_short:
  assumes "xs @ ys = zs @ ws" and "length xs < length zs"
  shows "xs = take (length xs) zs" and "ys \<noteq> []"
proof -
  have "take (length xs) (xs @ ys) = take (length xs) (zs @ ws)" using assms(1) by simp
  then show "xs = take (length xs) zs" using assms(2) by simp
  show "ys \<noteq> []" using assms arg_cong [OF assms(1), of length] by auto
qed

lemma cut_long:
  assumes "xs @ ys = zs @ ws" and "length zs \<le> length xs"
  shows "xs = zs @ drop (length zs) xs" and "drop (length zs) xs @ ys = ws"
proof -
  have "take (length zs) (xs @ ys) = take (length zs) (zs @ ws)" using assms(1) by simp
  then have "take (length zs) xs = zs" using assms(2) by simp
  then show "xs = zs @ drop (length zs) xs" by (metis append_take_drop_id)
  have "drop (length zs) (xs @ ys) = drop (length zs) (zs @ ws)" using assms(1) by simp
  then show "drop (length zs) xs @ ys = ws" using assms(2) by simp
qed

end
