(* ===== verification/Adb_Types.thy ===== *)
theory Adb_Types
  imports Adb_Prelude
begin

text \<open>
  The data the whole library shares: protocol commands, feature names, and the error
  types every operation fails with (\<open>base/protocol/command.rs\<close>,
  \<open>base/protocol/features.rs\<close>, \<open>error.rs\<close>, \<open>sync/error.rs\<close>, \<open>base/protobuf.rs\<close>).
\<close>

section \<open>Commands\<close>

datatype command = Sync | Connect | Open | Ready | Close | Write | Auth | StartTls

definition CMD_SYNC :: u32 where "CMD_SYNC = from_le (lit ''SYNC'')"
definition CMD_CNXN :: u32 where "CMD_CNXN = from_le (lit ''CNXN'')"
definition CMD_AUTH :: u32 where "CMD_AUTH = from_le (lit ''AUTH'')"
definition CMD_OPEN :: u32 where "CMD_OPEN = from_le (lit ''OPEN'')"
definition CMD_OKAY :: u32 where "CMD_OKAY = from_le (lit ''OKAY'')"
definition CMD_CLSE :: u32 where "CMD_CLSE = from_le (lit ''CLSE'')"
definition CMD_WRTE :: u32 where "CMD_WRTE = from_le (lit ''WRTE'')"
definition CMD_STLS :: u32 where "CMD_STLS = from_le (lit ''STLS'')"

lemmas cmd_defs = CMD_SYNC_def CMD_CNXN_def CMD_AUTH_def CMD_OPEN_def CMD_OKAY_def
  CMD_CLSE_def CMD_WRTE_def CMD_STLS_def

section \<open>Features\<close>

datatype feature = Abb | AbbExec | Apex | AppInfo | Cmd | DelayedAck | DevicetrackerProtoFormat
  | Devraw | FixedPushMkdir | FixedPushSymlinkTimestamp | LsV2 | OpenscreenMdns | RemountShell
  | SendrecvV2 | SendrecvV2Brotli | SendrecvV2DryRunSend | SendrecvV2Lz4 | SendrecvV2Zstd
  | ShellV2 | StatV2 | TrackApp

text \<open>The table the \<open>features!\<close> macro expands into \<open>wire_name\<close> and \<open>TryFrom<&str>\<close>.\<close>

definition feature_table :: "(feature \<times> string) list" where
  "feature_table = [
     (Abb, ''abb''), (AbbExec, ''abb_exec''), (Apex, ''apex''), (AppInfo, ''app_info''),
     (Cmd, ''cmd''), (DelayedAck, ''delayed_ack''),
     (DevicetrackerProtoFormat, ''devicetracker_proto_format''), (Devraw, ''devraw''),
     (FixedPushMkdir, ''fixed_push_mkdir''),
     (FixedPushSymlinkTimestamp, ''fixed_push_symlink_timestamp''), (LsV2, ''ls_v2''),
     (OpenscreenMdns, ''openscreen_mdns''), (RemountShell, ''remount_shell''),
     (SendrecvV2, ''sendrecv_v2''), (SendrecvV2Brotli, ''sendrecv_v2_brotli''),
     (SendrecvV2DryRunSend, ''sendrecv_v2_dry_run_send''), (SendrecvV2Lz4, ''sendrecv_v2_lz4''),
     (SendrecvV2Zstd, ''sendrecv_v2_zstd''), (ShellV2, ''shell_v2''), (StatV2, ''stat_v2''),
     (TrackApp, ''track_app'')]"

section \<open>Errors\<close>

datatype protocol_error =
    InvalidCommand u32
  | InvalidMagic
  | InvalidChecksum
  | PayloadTooLarge
  | UnexpectedCommand command
  | ShortReadyPayload
  | InvalidAuthToken usize
  | ShortExitPayload
  | UnexpectedShellFrame u8
  | InvalidDestination
  | UnknownFeature
  | InvalidBannerUtf8
  | InvalidBannerPrefix
  | InvalidBannerKeyValue
  | TooManyBannerProperties
  | TlsRequired
  | DataAfterStls

datatype auth_error = Rejected | SignFailed string | KeyNotTrusted | TlsKeyNotTrusted
  | TlsClosedBeforeConnect

datatype sync_error = SyncFailed bytes | UnexpectedId bytes | RemoteErrno u32 | InvalidFlags u32
  | InvalidPath

datatype reverse_error = ReverseFailed bytes | UnexpectedReply

datatype decode_error = InvalidLengthPrefix | InvalidProtobuf | InvalidUtf8

datatype logcat_error = InvalidHeader | Exited u8 bytes | ClosedWithoutExit | TruncatedEntry

datatype 'e error =
    Io 'e
  | Protocol protocol_error
  | AuthFailed auth_error
  | SyncFailure sync_error
  | Reverse reverse_error
  | ChannelClosed
  | NoFreeChannels
  | UnexpectedEof
  | ReceiveBufferFull
  | ChannelRxOverflow
  | Logcat logcat_error
  | Decode decode_error
  | MissingFeature feature
  | Desynchronized
  | Disconnected

section \<open>Command codes\<close>

fun command_code :: "command \<Rightarrow> u32" where
  "command_code Sync = CMD_SYNC"
| "command_code Connect = CMD_CNXN"
| "command_code Open = CMD_OPEN"
| "command_code Ready = CMD_OKAY"
| "command_code Close = CMD_CLSE"
| "command_code Write = CMD_WRTE"
| "command_code Auth = CMD_AUTH"
| "command_code StartTls = CMD_STLS"

definition magic :: "command \<Rightarrow> u32" where
  "magic c = command_code c XOR 0xFFFFFFFF"

definition command_try_from :: "u32 \<Rightarrow> protocol_error + command" where
  "command_try_from v =
     (if v = CMD_SYNC then Inr Sync
      else if v = CMD_CNXN then Inr Connect
      else if v = CMD_OPEN then Inr Open
      else if v = CMD_OKAY then Inr Ready
      else if v = CMD_CLSE then Inr Close
      else if v = CMD_WRTE then Inr Write
      else if v = CMD_AUTH then Inr Auth
      else if v = CMD_STLS then Inr StartTls
      else Inl (InvalidCommand v))"

datatype auth_kind = Token | Signature | PublicKey

fun auth_kind_code :: "auth_kind \<Rightarrow> u32" where
  "auth_kind_code Token = 1"
| "auth_kind_code Signature = 2"
| "auth_kind_code PublicKey = 3"

definition auth_kind_try_from :: "u32 \<Rightarrow> u32 + auth_kind" where
  "auth_kind_try_from v =
     (if v = 1 then Inr Token else if v = 2 then Inr Signature else if v = 3 then Inr PublicKey
      else Inl v)"

definition wire_name :: "feature \<Rightarrow> bytes" where
  "wire_name f = lit (the (map_of feature_table f))"

definition feature_try_from :: "bytes \<Rightarrow> protocol_error + feature" where
  "feature_try_from text =
     (case find (\<lambda>(f, name). lit name = text) feature_table of
        Some (f, _) \<Rightarrow> Inr f
      | None \<Rightarrow> Inl UnknownFeature)"

section \<open>Lemmas\<close>

lemma command_try_from_code [simp]: "command_try_from (command_code c) = Inr c"
  by (cases c) (simp_all add: command_try_from_def cmd_defs)

lemma command_try_from_Inr: "command_try_from v = Inr c \<Longrightarrow> command_code c = v"
  by (auto simp: command_try_from_def split: if_splits)

lemma command_try_from_Inl: "command_try_from v = Inl e \<Longrightarrow> e = InvalidCommand v"
  by (auto simp: command_try_from_def split: if_splits)

lemma command_code_inject [simp]: "command_code a = command_code b \<longleftrightarrow> a = b"
  using command_try_from_code by (metis sum.inject(2))

lemma auth_kind_round_trip [simp]: "auth_kind_try_from (auth_kind_code k) = Inr k"
  by (cases k) (simp_all add: auth_kind_try_from_def)

lemma feature_table_dom: "f \<in> set (map fst feature_table)"
  by (cases f) (simp_all add: feature_table_def)

lemma feature_try_from_wire_name [simp]: "feature_try_from (wire_name f) = Inr f"
  by (cases f) (simp_all add: feature_try_from_def wire_name_def feature_table_def)

lemma feature_try_from_Inr: "feature_try_from t = Inr f \<Longrightarrow> wire_name f = t"
  unfolding feature_try_from_def feature_table_def wire_name_def
  by (auto split: if_splits)

lemma wire_name_inject [simp]: "wire_name f = wire_name g \<longleftrightarrow> f = g"
  using feature_try_from_wire_name by (metis sum.inject(2))

end
