(* ===== verification/Byte_Text.thy ===== *)
theory Byte_Text
  imports Adb_Types
begin

text \<open>
  Text as bytes: what the sources use of \<open>core::slice\<close> and \<open>core::str\<close> -- \<open>position\<close>,
  \<open>split\<close>, \<open>split_once\<close>, \<open>windows\<close> and \<open>from_utf8\<close>.  A substring that the code relates back
  to its base string by pointer arithmetic (\<open>range_of\<close>) carries its offset.
\<close>

section \<open>Bytes the formats use\<close>

abbreviation COMMA :: u8 where "COMMA \<equiv> 44"
abbreviation COLON :: u8 where "COLON \<equiv> 58"
abbreviation SEMICOLON :: u8 where "SEMICOLON \<equiv> 59"
abbreviation EQUALS :: u8 where "EQUALS \<equiv> 61"

section \<open>Searching and splitting\<close>

fun position :: "('a \<Rightarrow> bool) \<Rightarrow> 'a list \<Rightarrow> usize option" where
  "position P [] = None"
| "position P (x # xs) = (if P x then Some 0 else map_option Suc (position P xs))"

fun split_on :: "('a \<Rightarrow> bool) \<Rightarrow> 'a list \<Rightarrow> 'a list list" where
  "split_on P [] = [[]]"
| "split_on P (x # xs) =
     (if P x then [] # split_on P xs
      else case split_on P xs of y # ys \<Rightarrow> (x # y) # ys | [] \<Rightarrow> [[x]])"

text \<open>\<open>windows(needle.len()).position(|w| w == needle)\<close>, for a needle that is not empty.\<close>

fun find_window :: "'a list \<Rightarrow> 'a list \<Rightarrow> usize option" where
  "find_window needle [] = None"
| "find_window needle (x # xs) =
     (if take (length needle) (x # xs) = needle then Some 0 else map_option Suc (find_window needle xs))"

type_synonym substr = "usize \<times> bytes"

fun split_once :: "u8 \<Rightarrow> substr \<Rightarrow> (substr \<times> substr) option" where
  "split_once c (i, xs) = (case position (\<lambda>b. b = c) xs of
      None \<Rightarrow> None
    | Some k \<Rightarrow> Some ((i, take k xs), (i + k + 1, drop (k + 1) xs)))"

fun with_offsets :: "usize \<Rightarrow> bytes list \<Rightarrow> substr list" where
  "with_offsets i [] = []"
| "with_offsets i (x # xs) = (i, x) # with_offsets (i + length x + 1) xs"

fun sub_split :: "u8 \<Rightarrow> substr \<Rightarrow> substr list" where
  "sub_split c (i, xs) = with_offsets i (split_on (\<lambda>b. b = c) xs)"

lemma position_Some:
  "position P xs = Some k \<Longrightarrow> k < length xs \<and> P (xs ! k) \<and> (\<forall>x \<in> set (take k xs). \<not> P x)"
  by (induction xs arbitrary: k) (auto split: if_splits)

lemma position_None: "position P xs = None \<longleftrightarrow> (\<forall>x \<in> set xs. \<not> P x)"
  by (induction xs) auto

lemma position_append: "\<forall>x \<in> set xs. \<not> P x \<Longrightarrow> P y \<Longrightarrow> position P (xs @ y # ys) = Some (length xs)"
  by (induction xs) auto

lemma position_byte [simp]: "c \<notin> set xs \<Longrightarrow> position (\<lambda>b. b = c) (xs @ c # ys) = Some (length xs)"
  by (rule position_append) auto

lemma position_lt: "position P xs = Some k \<Longrightarrow> k < length xs"
  using position_Some by blast

lemma split_on_nonempty [simp]: "split_on P xs \<noteq> []"
  by (cases "(P, xs)" rule: split_on.cases) (auto split: list.splits)

lemma split_on_piece: "\<forall>x \<in> set xs. \<not> P x \<Longrightarrow> split_on P xs = [xs]"
  by (induction xs) auto

lemma split_on_append:
  "\<forall>x \<in> set xs. \<not> P x \<Longrightarrow> P y \<Longrightarrow> split_on P (xs @ y # ys) = xs # split_on P ys"
  by (induction xs) auto

lemma split_on_pieces: "ys \<in> set (split_on P xs) \<Longrightarrow> x \<in> set ys \<Longrightarrow> \<not> P x"
proof (induction xs arbitrary: ys)
  case (Cons a xs)
  obtain z zs where "split_on P xs = z # zs" by (cases "split_on P xs") auto
  then show ?case using Cons.IH [of z] Cons.IH [of ys] Cons.prems by (auto split: if_splits)
qed simp

text \<open>Joining with a separator undoes splitting.\<close>

fun join :: "'a \<Rightarrow> 'a list list \<Rightarrow> 'a list" where
  "join s [] = []"
| "join s [x] = x"
| "join s (x # y # zs) = x @ s # join s (y # zs)"

lemma split_on_join:
  "zs \<noteq> [] \<Longrightarrow> \<forall>z \<in> set zs. \<forall>x \<in> set z. \<not> P x \<Longrightarrow> P s \<Longrightarrow> split_on P (join s zs) = zs"
  by (induction s zs rule: join.induct) (auto simp: split_on_piece split_on_append)

lemma join_split_on: "join s (split_on (\<lambda>b. b = s) xs) = xs"
proof (induction xs)
  case (Cons a xs)
  obtain y ys where "split_on (\<lambda>b. b = s) xs = y # ys" by (cases "split_on (\<lambda>b. b = s) xs") auto
  then show ?case using Cons by (cases ys) auto
qed simp

section \<open>UTF-8\<close>

definition continuation :: "u8 \<Rightarrow> bool" where
  "continuation b \<longleftrightarrow> 0x80 \<le> b \<and> b \<le> 0xBF"

primrec take_continuations :: "nat \<Rightarrow> bytes \<Rightarrow> bytes option" where
  "take_continuations 0 r = Some r"
| "take_continuations (Suc n) r =
     (case r of c # r' \<Rightarrow> if continuation c then take_continuations n r' else None | [] \<Rightarrow> None)"

text \<open>How many bytes follow the first byte of a character, if it can be one.\<close>

definition utf8_more :: "u8 \<Rightarrow> nat option" where
  "utf8_more b =
     (if b < 0x80 then Some 0
      else if 0xC2 \<le> b \<and> b \<le> 0xDF then Some 1
      else if 0xE0 \<le> b \<and> b \<le> 0xEF then Some 2
      else if 0xF0 \<le> b \<and> b \<le> 0xF4 then Some 3
      else None)"

text \<open>The second byte excludes overlong forms, surrogates and code points past the last.\<close>

definition utf8_second :: "u8 \<Rightarrow> bytes \<Rightarrow> bool" where
  "utf8_second b r = (case r of
      [] \<Rightarrow> True
    | c # _ \<Rightarrow>
        if b = 0xE0 then 0xA0 \<le> c
        else if b = 0xED then c \<le> 0x9F
        else if b = 0xF0 then 0x90 \<le> c
        else if b = 0xF4 then c \<le> 0x8F
        else True)"

text \<open>One character, as \<open>core::str::from_utf8\<close> accepts it: the bytes after it.\<close>

definition utf8_char :: "bytes \<Rightarrow> bytes option" where
  "utf8_char bs = (case bs of
      [] \<Rightarrow> None
    | b # r \<Rightarrow>
        (case utf8_more b of
           None \<Rightarrow> None
         | Some n \<Rightarrow> if utf8_second b r then take_continuations n r else None))"

lemma take_continuations_shorter: "take_continuations n r = Some r' \<Longrightarrow> length r' \<le> length r"
proof (induction n arbitrary: r)
  case (Suc n)
  then obtain c r1 where "r = c # r1" "take_continuations n r1 = Some r'"
    by (auto split: list.splits if_splits)
  then show ?case using Suc.IH [of r1] by simp
qed simp

lemma utf8_char_shorter: "utf8_char bs = Some r \<Longrightarrow> length r < length bs"
  by (auto simp: utf8_char_def less_Suc_eq_le split: list.splits option.splits if_splits
      dest: take_continuations_shorter)

function utf8 :: "bytes \<Rightarrow> bool" where
  "utf8 bs = (if bs = [] then True else case utf8_char bs of Some r \<Rightarrow> utf8 r | None \<Rightarrow> False)"
  by pat_completeness auto
termination by (relation "measure length") (auto dest: utf8_char_shorter)

declare utf8.simps [simp del]

lemma utf8_Nil [simp]: "utf8 []"
  by (simp add: utf8.simps)

text \<open>Bytes of a character beyond its first are never ASCII, so an ASCII byte ends one.\<close>

lemma take_continuations_ascii:
  assumes "c < 0x80"
  shows "take_continuations n (xs @ c # ys) =
    (if n = 0 then Some (xs @ c # ys) else map_option (\<lambda>r. r @ c # ys) (take_continuations n xs))"
proof (induction n arbitrary: xs)
  case (Suc n)
  have "\<not> continuation c" using assms by (simp add: continuation_def not_le)
  then show ?case using Suc [of "tl xs"] by (cases xs) auto
qed simp

lemma utf8_char_ascii:
  assumes "c < 0x80" and "xs \<noteq> []"
  shows "utf8_char (xs @ c # ys) = map_option (\<lambda>r. r @ c # ys) (utf8_char xs)"
proof -
  obtain b r where xs: "xs = b # r" using assms(2) by (cases xs) auto
  show ?thesis
  proof (cases "utf8_more b")
    case (Some n)
    show ?thesis
    proof (cases r)
      case Nil
      then show ?thesis
        using Some take_continuations_ascii [OF assms(1), of n "[]" ys]
        by (cases n) (auto simp: utf8_char_def xs utf8_second_def utf8_more_def split: if_splits)
    next
      case (Cons d r')
      then have "utf8_second b (r @ c # ys) = utf8_second b r" by (simp add: utf8_second_def)
      then show ?thesis
        using Some take_continuations_ascii [OF assms(1), of n r ys]
        by (cases n) (auto simp: utf8_char_def xs)
    qed
  qed (simp add: utf8_char_def xs)
qed

lemma utf8_ascii:
  assumes "c < 0x80"
  shows "utf8 (xs @ c # ys) \<longleftrightarrow> utf8 xs \<and> utf8 ys"
proof (induction "length xs" arbitrary: xs rule: less_induct)
  case less
  show ?case
  proof (cases "xs = []")
    case True
    then show ?thesis using assms 
      by (auto simp: utf8.simps [of "c # ys"] utf8_char_def utf8_more_def utf8_second_def split: list.splits)
  next
    case False
    then show ?thesis
      using less utf8_char_ascii [OF assms False, of ys] utf8_char_shorter [of xs]
      by (auto simp: utf8.simps [of xs] utf8.simps [of "xs @ c # ys"] split: option.splits)
  qed
qed

lemma utf8_all_ascii: "\<forall>b \<in> set xs. b < 0x80 \<Longrightarrow> utf8 xs"
  by (induction xs) (auto simp: utf8.simps [of "_ # _"] utf8_char_def utf8_more_def utf8_second_def split: list.splits)

section \<open>Substrings\<close>

text \<open>A substring lies where it says in the base string, and is text.\<close>

definition inside :: "bytes \<Rightarrow> substr \<Rightarrow> bool" where
  "inside base s \<longleftrightarrow> (\<exists>pre post. base = pre @ snd s @ post \<and> length pre = fst s) \<and> utf8 (snd s)"

lemma inside_split_once:
  assumes "inside base s" and "c < 0x80" and "split_once c s = Some (a, b)"
  shows "inside base a" and "inside base b" and "snd s = snd a @ c # snd b"
proof -
  obtain i xs where s: "s = (i, xs)" by force
  obtain k where k: "position (\<lambda>b. b = c) xs = Some k" and a: "a = (i, take k xs)"
    and b: "b = (i + k + 1, drop (k + 1) xs)"
    using assms(3) by (auto simp: s split: option.splits)
  have kl: "k < length xs" "xs ! k = c" using position_Some [OF k] by auto
  then have xs: "xs = take k xs @ c # drop (k + 1) xs" by (metis Suc_eq_plus1 id_take_nth_drop)
  then show "snd s = snd a @ c # snd b" by (simp add: s a b)
  have u: "utf8 (take k xs)" "utf8 (drop (k + 1) xs)"
    using assms(1,2) utf8_ascii [of c "take k xs" "drop (k + 1) xs"] xs by (auto simp: inside_def s)
  obtain pre post where p: "base = pre @ xs @ post" "length pre = i" using assms(1) by (auto simp: inside_def s)
  have "base = pre @ take k xs @ (c # drop (k + 1) xs @ post)" using p(1) xs by (metis append.assoc append_Cons)
  then show "inside base a" using u p(2) by (auto simp: inside_def a)
  have "base = (pre @ take k xs @ [c]) @ drop (k + 1) xs @ post" using p(1) xs by (metis append.assoc append_Cons append_Nil)
  moreover have "length (pre @ take k xs @ [c]) = i + k + 1" using p(2) kl by simp
  ultimately show "inside base b" using u(2) unfolding inside_def b fst_conv snd_conv by blast
qed

lemma inside_split:
  assumes "inside base s" and "c < 0x80"
  shows "\<forall>p \<in> set (sub_split c s). inside base p"
proof -
  have all: "\<forall>p \<in> set (with_offsets i pieces). inside base p"
    if "inside base (i, join c pieces)" "pieces \<noteq> []" for i pieces
    using that
  proof (induction i pieces rule: with_offsets.induct)
    case (2 i x xs)
    show ?case
    proof (cases xs)
      case Nil
      then show ?thesis using 2 by simp
    next
      case (Cons y ys)
      obtain pre post where p: "base = pre @ (x @ c # join c xs) @ post" "length pre = i"
        using 2(2) Cons by (auto simp: inside_def)
      have u: "utf8 x" "utf8 (join c xs)" using 2(2) Cons utf8_ascii [OF assms(2)] by (auto simp: inside_def)
      have "inside base (i, x)"
        using p u unfolding inside_def by (intro conjI exI [of _ pre] exI [of _ "c # join c xs @ post"]) auto
      moreover have "inside base (i + length x + 1, join c xs)"
        using p u unfolding inside_def by (intro conjI exI [of _ "pre @ x @ [c]"] exI [of _ post]) auto
      ultimately show ?thesis using 2(1) Cons by auto
    qed
  qed simp
  obtain i xs where s: "s = (i, xs)" by force
  show ?thesis using all [of i "split_on (\<lambda>b. b = c) xs"] assms(1) by (simp add: s join_split_on)
qed

end
