(* ===== verification/Device_Banner.thy ===== *)
theory Device_Banner
  imports Byte_Text
begin

text \<open>
  The identity banners of the two peers: the host's (\<open>base/connection/banner.rs\<close>), the scan
  for a feature name (\<open>has_feature\<close> of \<open>base/protocol/features.rs\<close>) and the parsed device
  banner (\<open>base/device_banner.rs\<close>), whose fields are ranges into the bytes it was parsed from.
\<close>

section \<open>Feature lists\<close>

definition DEFAULT_HOST_FEATURES :: "feature list" where
  "DEFAULT_HOST_FEATURES = [ShellV2, Cmd, Abb, AbbExec, DelayedAck, TrackApp, AppInfo, StatV2, LsV2, SendrecvV2]"

definition DELAYED_ACK :: bytes where "DELAYED_ACK = lit ''delayed_ack''"

definition has_feature :: "bytes \<Rightarrow> bytes \<Rightarrow> bool" where
  "has_feature banner f =
     (let needle = lit ''features='' in
      case find_window needle banner of
        None \<Rightarrow> False
      | Some pos \<Rightarrow> f \<in> set (split_on (\<lambda>b. b = COMMA \<or> b = SEMICOLON) (drop (pos + length needle) banner)))"

section \<open>The host's banner\<close>

datatype host_banner = Features "feature list" | Raw bytes

definition host_banner_default :: host_banner where
  "host_banner_default = Features DEFAULT_HOST_FEATURES"

primrec push_features :: "nat \<Rightarrow> feature list \<Rightarrow> bytes \<Rightarrow> bytes" where
  "push_features i [] banner = banner"
| "push_features i (f # fs) banner =
     push_features (i + 1) fs ((if i > 0 then banner @ [COMMA] else banner) @ wire_name f)"

fun to_bytes :: "host_banner \<Rightarrow> bytes" where
  "to_bytes (Features fs) = push_features 0 fs (lit ''host::features='')"
| "to_bytes (Raw raw) = raw"

section \<open>The device's banner\<close>

type_synonym range = "usize \<times> usize"

definition range_of :: "substr \<Rightarrow> range" where
  "range_of s = (fst s, fst s + length (snd s))"

record device_banner =
  b_raw :: bytes
  b_state :: range
  b_serial :: range
  b_properties :: "(range \<times> range) list"
  b_features :: "feature list"

fun add_feature :: "bytes \<Rightarrow> feature list \<Rightarrow> feature list" where
  "add_feature f fs = (case feature_try_from f of
      Inr feature \<Rightarrow> if feature \<in> set fs then fs else fs @ [feature]
    | Inl _ \<Rightarrow> fs)"

fun banner_parts ::
  "usize \<Rightarrow> substr list \<Rightarrow> (range \<times> range) list \<Rightarrow> feature list
    \<Rightarrow> protocol_error + (range \<times> range) list \<times> feature list" where
  "banner_parts max_properties [] properties features = Inr (properties, features)"
| "banner_parts max_properties (part # parts) properties features =
     (if snd part = [] then banner_parts max_properties parts properties features
      else case split_once EQUALS part of
        None \<Rightarrow> Inl InvalidBannerKeyValue
      | Some (key, v) \<Rightarrow>
          if snd key = lit ''features'' then
            banner_parts max_properties parts properties
              (fold add_feature (split_on (\<lambda>b. b = COMMA) (snd v)) features)
          else if length properties = max_properties then Inl TooManyBannerProperties
          else banner_parts max_properties parts (properties @ [(range_of key, range_of v)]) features)"

definition from_bytes :: "bytes \<Rightarrow> usize \<Rightarrow> protocol_error + device_banner" where
  "from_bytes raw max_properties =
     (if \<not> utf8 raw then Inl InvalidBannerUtf8
      else case split_once COLON (0, raw) of
        None \<Rightarrow> Inl InvalidBannerPrefix
      | Some (state, rest) \<Rightarrow>
          (case split_once COLON rest of
             None \<Rightarrow> Inl InvalidBannerPrefix
           | Some (serial, payload) \<Rightarrow>
               (case banner_parts max_properties (sub_split SEMICOLON payload) [] [] of
                  Inl e \<Rightarrow> Inl e
                | Inr (properties, features) \<Rightarrow>
                    Inr \<lparr>b_raw = raw, b_state = range_of state, b_serial = range_of serial,
                         b_properties = properties, b_features = features\<rparr>)))"

text \<open>
  \<open>str_at\<close> slices the bytes and validates them again, panicking on a range out of bounds or
  on bytes that are not text: \<open>None\<close>.
\<close>

definition str_at :: "device_banner \<Rightarrow> range \<Rightarrow> bytes option" where
  "str_at b r = (case r of (i, j) \<Rightarrow>
     if i \<le> j \<and> j \<le> length (b_raw b) then
       (let s = take (j - i) (drop i (b_raw b)) in if utf8 s then Some s else None)
     else None)"

definition state_str :: "device_banner \<Rightarrow> bytes option" where
  "state_str b = str_at b (b_state b)"

definition serial_str :: "device_banner \<Rightarrow> bytes option" where
  "serial_str b = str_at b (b_serial b)"

definition properties_str :: "device_banner \<Rightarrow> (bytes option \<times> bytes option) list" where
  "properties_str b = map (\<lambda>(k, v). (str_at b k, str_at b v)) (b_properties b)"

fun find_property :: "device_banner \<Rightarrow> bytes \<Rightarrow> (range \<times> range) list \<Rightarrow> bytes option option" where
  "find_property b key [] = Some None"
| "find_property b key ((k, v) # ps) = (case str_at b k of
      None \<Rightarrow> None
    | Some s \<Rightarrow> if s = key then map_option Some (str_at b v) else find_property b key ps)"

text \<open>\<open>property\<close>: the outer option is the panic, the inner one the answer.\<close>

definition banner_property :: "device_banner \<Rightarrow> bytes \<Rightarrow> bytes option option" where
  "banner_property b key = find_property b key (b_properties b)"

definition product_name :: "device_banner \<Rightarrow> bytes option option" where
  "product_name b = banner_property b (lit ''ro.product.name'')"

definition product_model :: "device_banner \<Rightarrow> bytes option option" where
  "product_model b = banner_property b (lit ''ro.product.model'')"

definition product_device :: "device_banner \<Rightarrow> bytes option option" where
  "product_device b = banner_property b (lit ''ro.product.device'')"

definition banner_has_feature :: "device_banner \<Rightarrow> feature \<Rightarrow> bool" where
  "banner_has_feature b f \<longleftrightarrow> f \<in> set (b_features b)"

datatype device_state = Device | Recovery | Sideload | Rescue | Bootloader | Host | Other

definition device_state_named :: "bytes \<Rightarrow> device_state" where
  "device_state_named s =
     (if s = lit ''device'' then Device else if s = lit ''recovery'' then Recovery
      else if s = lit ''sideload'' then Sideload else if s = lit ''rescue'' then Rescue
      else if s = lit ''bootloader'' then Bootloader else if s = lit ''host'' then Host else Other)"

definition banner_state :: "device_banner \<Rightarrow> device_state option" where
  "banner_state b = map_option device_state_named (state_str b)"

section \<open>Lemmas\<close>

lemma str_at_inside:
  assumes "inside (b_raw b) s"
  shows "str_at b (range_of s) = Some (snd s)"
proof -
  obtain pre post where "b_raw b = pre @ snd s @ post" "length pre = fst s"
    using assms by (auto simp: inside_def)
  then show ?thesis using assms by (auto simp: str_at_def range_of_def inside_def)
qed

lemma inside_self: "utf8 raw \<Longrightarrow> inside raw (0, raw)"
  unfolding inside_def by (intro conjI exI [of _ "[]"]) auto

text \<open>What the parser keeps true of the lists it builds.\<close>

definition range_inside :: "bytes \<Rightarrow> range \<Rightarrow> bool" where
  "range_inside raw r \<longleftrightarrow> (\<exists>s. inside raw s \<and> r = range_of s)"

lemma range_inside_of [intro]: "inside raw s \<Longrightarrow> range_inside raw (range_of s)"
  by (auto simp only: range_inside_def)

definition parsed_ok :: "bytes \<Rightarrow> usize \<Rightarrow> (range \<times> range) list \<times> feature list \<Rightarrow> bool" where
  "parsed_ok raw m r \<longleftrightarrow> (case r of (ps, fs) \<Rightarrow> length ps \<le> m \<and> distinct fs \<and>
     (\<forall>p \<in> set ps. range_inside raw (fst p) \<and> range_inside raw (snd p)))"

lemma add_feature_distinct [simp]: "distinct fs \<Longrightarrow> distinct (add_feature f fs)"
  by (auto split: sum.splits)

lemma fold_add_feature_distinct: "distinct fs \<Longrightarrow> distinct (fold add_feature xs fs)"
  by (induction xs arbitrary: fs) (auto simp del: add_feature.simps)

lemma banner_parts_ok:
  assumes "banner_parts m parts ps fs = Inr r" and "\<forall>p \<in> set parts. inside raw p" and "parsed_ok raw m (ps, fs)"
  shows "parsed_ok raw m r"
  using assms
proof (induction m parts ps fs rule: banner_parts.induct)
  case (2 m part parts ps fs)
  show ?case
  proof (cases "snd part = []")
    case True
    then show ?thesis using 2 by simp
  next
    case False
    then obtain k v where kv: "split_once EQUALS part = Some (k, v)"
      using "2.prems"(1) by (auto split: option.splits)
    have i: "range_inside raw (range_of k)" "range_inside raw (range_of v)"
      using inside_split_once [OF _ _ kv] "2.prems"(2) by auto
    show ?thesis
    proof (cases "snd k = lit ''features''")
      case True
      have "parsed_ok raw m (ps, fold add_feature (split_on (\<lambda>b. b = COMMA) (snd v)) fs)"
        using "2.prems"(3) by (auto simp: parsed_ok_def fold_add_feature_distinct)
      then show ?thesis
        using "2.IH"(2) [OF False kv refl True] "2.prems"(1,2) False kv True by simp
    next
      case nf: False
      then have room: "length ps \<noteq> m" using "2.prems"(1) False kv by auto
      then have "parsed_ok raw m (ps @ [(range_of k, range_of v)], fs)"
        using "2.prems"(3) i by (auto simp: parsed_ok_def)
      then show ?thesis
        using "2.IH"(3) [OF False kv refl nf room] "2.prems"(1,2) False kv nf room by simp
    qed
  qed
qed simp

lemma str_at_range: "range_inside (b_raw b) r \<Longrightarrow> \<exists>s. str_at b r = Some s"
  by (auto simp: range_inside_def str_at_inside)

lemma from_bytes_ok:
  assumes "from_bytes raw m = Inr b"
  shows "b_raw b = raw" and "range_inside raw (b_state b)" and "range_inside raw (b_serial b)"
    and "parsed_ok raw m (b_properties b, b_features b)"
proof -
  have u: "utf8 raw" using assms by (auto simp: from_bytes_def split: if_splits)
  obtain st rest where 1: "split_once COLON (0, raw) = Some (st, rest)"
    using assms u by (cases "split_once COLON (0, raw)") (auto simp: from_bytes_def)
  obtain sr payload where 2: "split_once COLON rest = Some (sr, payload)"
    using assms u 1 by (cases "split_once COLON rest") (auto simp: from_bytes_def)
  obtain ps fs where 3: "banner_parts m (sub_split SEMICOLON payload) [] [] = Inr (ps, fs)"
    and b: "b = \<lparr>b_raw = raw, b_state = range_of st, b_serial = range_of sr, b_properties = ps, b_features = fs\<rparr>"
    using assms u 1 2
    by (cases "banner_parts m (sub_split SEMICOLON payload) [] []")
      (auto simp: from_bytes_def simp del: split_once.simps)
  have i: "inside raw st" "inside raw rest" using inside_split_once(1,2) [OF inside_self [OF u] _ 1] by auto
  have j: "inside raw sr" "inside raw payload" using inside_split_once(1,2) [OF i(2) _ 2] by auto
  show "b_raw b = raw" "range_inside raw (b_state b)" "range_inside raw (b_serial b)"
    using i j by (auto simp: b)
  show "parsed_ok raw m (b_properties b, b_features b)"
    using banner_parts_ok [OF 3 inside_split [OF j(2)]] by (simp add: b parsed_ok_def)
qed

lemma find_property_total:
  "\<forall>p \<in> set ps. range_inside (b_raw b) (fst p) \<and> range_inside (b_raw b) (snd p) \<Longrightarrow>
     \<exists>r. find_property b key ps = Some r"
  by (induction b key ps rule: find_property.induct) (auto dest!: str_at_range split: option.splits)

text \<open>Feature names are plain words.\<close>

lemma wire_name_word:
  assumes "x \<in> set (wire_name f)"
  shows "x < 0x80" and "x \<noteq> COMMA" and "x \<noteq> SEMICOLON" and "x \<noteq> EQUALS"
proof -
  have "list_all (\<lambda>f. list_all (\<lambda>x. x < 0x80 \<and> x \<noteq> 44 \<and> x \<noteq> 59 \<and> x \<noteq> 61) (wire_name f)) (map fst feature_table)"
    by code_simp
  then have "list_all (\<lambda>x. x < 0x80 \<and> x \<noteq> 44 \<and> x \<noteq> 59 \<and> x \<noteq> 61) (wire_name f)"
    using feature_table_dom [of f] unfolding list_all_iff by blast
  then show "x < 0x80" "x \<noteq> COMMA" "x \<noteq> SEMICOLON" "x \<noteq> EQUALS"
    using assms by (auto simp: list_all_iff)
qed

lemma wire_name_nonempty [simp]: "wire_name f \<noteq> []"
  by (cases f) (auto simp: wire_name_def feature_table_def)

lemma push_features_join:
  "fs \<noteq> [] \<Longrightarrow> push_features i fs b = (if i > 0 then b @ [COMMA] else b) @ join COMMA (map wire_name fs)"
proof (induction fs arbitrary: i b)
  case (Cons f fs)
  show ?case
  proof (cases fs)
    case Nil
    then show ?thesis by simp
  next
    case (Cons g gs)
    then show ?thesis
      using Cons.IH [of "i + 1" "(if i > 0 then b @ [COMMA] else b) @ wire_name f"] by simp
  qed
qed simp

section \<open>Printing a banner\<close>

text \<open>A device's banner as the protocol describes it: the specification the parser is checked against.\<close>

definition banner_entry :: "bytes \<times> bytes \<Rightarrow> bytes" where
  "banner_entry p = fst p @ EQUALS # snd p"

definition features_entry :: "feature list \<Rightarrow> bytes" where
  "features_entry fs = banner_entry (lit ''features'', join COMMA (map wire_name fs))"

definition render_banner :: "bytes \<Rightarrow> bytes \<Rightarrow> (bytes \<times> bytes) list \<Rightarrow> feature list \<Rightarrow> bytes" where
  "render_banner st serial ps fs =
     st @ COLON # serial @ COLON #
       join SEMICOLON (map banner_entry ps @ [features_entry fs])"

text \<open>A property that can be printed: its key is not the reserved one and no separator occurs in it.\<close>

definition printable :: "bytes \<times> bytes \<Rightarrow> bool" where
  "printable p \<longleftrightarrow> fst p \<noteq> lit ''features'' \<and> EQUALS \<notin> set (fst p) \<and> SEMICOLON \<notin> set (fst p) \<and>
     SEMICOLON \<notin> set (snd p) \<and> utf8 (fst p) \<and> utf8 (snd p)"

fun entry_ranges :: "usize \<Rightarrow> (bytes \<times> bytes) list \<Rightarrow> (range \<times> range) list" where
  "entry_ranges i [] = []"
| "entry_ranges i ((k, v) # ps) =
     ((i, i + length k), (i + length k + 1, i + length k + 1 + length v)) #
       entry_ranges (i + length k + 1 + length v + 1) ps"

lemma length_entry_ranges [simp]: "length (entry_ranges i ps) = length ps"
  by (induction i ps rule: entry_ranges.induct) auto

lemma split_once_entry:
  "EQUALS \<notin> set k \<Longrightarrow>
     split_once EQUALS (i, banner_entry (k, v)) = Some ((i, k), (i + length k + 1, v))"
  by (simp add: banner_entry_def)

lemma add_features:
  "distinct (fs @ gs) \<Longrightarrow> fold add_feature (map wire_name gs) fs = fs @ gs"
  by (induction gs arbitrary: fs) auto

lemma split_names:
  "fs \<noteq> [] \<Longrightarrow> split_on (\<lambda>b. b = COMMA) (join COMMA (map wire_name fs)) = map wire_name fs"
  using wire_name_word(2) by (intro split_on_join) auto

lemma add_rendered_features:
  assumes "distinct fs"
  shows "fold add_feature (split_on (\<lambda>b. b = COMMA) (join COMMA (map wire_name fs))) [] = fs"
proof (cases "fs = []")
  case True
  have "feature_try_from [] = Inl UnknownFeature" by (simp add: feature_try_from_def feature_table_def)
  then show ?thesis using True by simp
next
  case False
  then show ?thesis using add_features [of "[]" fs] assms by (simp add: split_names)
qed

lemma banner_parts_rendered:
  assumes "\<forall>p \<in> set ps. printable p" and "length acc + length ps \<le> m" and "distinct fs"
  shows "banner_parts m (with_offsets i (map banner_entry ps @ [features_entry fs])) acc []
    = Inr (acc @ entry_ranges i ps, fs)"
  using assms
proof (induction i ps arbitrary: acc rule: entry_ranges.induct)
  case (1 i)
  have "split_once EQUALS (i, features_entry fs) =
      Some ((i, lit ''features''), (i + 9, join COMMA (map wire_name fs)))"
    using split_once_entry [of "lit ''features''" i] by (simp add: features_entry_def)
  then show ?case
    using add_rendered_features [OF 1(3)]
    by (simp add: features_entry_def banner_entry_def del: split_once.simps)
next
  case (2 i k v ps)
  have p: "printable (k, v)" using "2.prems"(1) by simp
  then have "split_once EQUALS (i, banner_entry (k, v)) = Some ((i, k), (i + length k + 1, v))"
    by (intro split_once_entry) (simp add: printable_def)
  moreover have "banner_entry (k, v) \<noteq> []" by (simp add: banner_entry_def)
  moreover have "i + length (banner_entry (k, v)) + 1 = i + length k + 1 + length v + 1" by (simp add: banner_entry_def)
  ultimately show ?case
    using "2.IH" [of "acc @ [((i, i + length k), (i + length k + 1, i + length k + 1 + length v))]"] "2.prems" p
    by (simp add: printable_def range_of_def add.assoc del: split_once.simps)
qed

lemma entry_ranges_str:
  assumes "b_raw b = pre @ join SEMICOLON (map banner_entry ps @ [fin])" and "\<forall>p \<in> set ps. utf8 (fst p) \<and> utf8 (snd p)"
  shows "map (\<lambda>(k, v). (str_at b k, str_at b v)) (entry_ranges (length pre) ps) = map (\<lambda>(k, v). (Some k, Some v)) ps"
  using assms
proof (induction ps arbitrary: pre)
  case (Cons p ps)
  obtain k v where p: "p = (k, v)" by force
  obtain e es where es: "map banner_entry ps @ [fin] = e # es" by (cases "map banner_entry ps @ [fin]") auto
  have raw: "b_raw b = (pre @ k @ EQUALS # v @ [SEMICOLON]) @ join SEMICOLON (map banner_entry ps @ [fin])"
    using Cons.prems(1) unfolding p list.map append_Cons es by (simp add: banner_entry_def)
  have "str_at b (length pre, length pre + length k) = Some k"
    "str_at b (length pre + length k + 1, length pre + length k + 1 + length v) = Some v"
    using Cons.prems(2) by (auto simp: str_at_def raw p)
  then show ?case using Cons.IH [OF raw] Cons.prems(2) by (simp add: p add.assoc)
qed simp

lemma utf8_join: "\<forall>x \<in> set xs. utf8 x \<Longrightarrow> s < 0x80 \<Longrightarrow> utf8 (join s xs)"
  by (induction s xs rule: join.induct) (auto simp: utf8_ascii)

lemma utf8_features_entry: "utf8 (features_entry fs)"
proof -
  have "utf8 (join COMMA (map wire_name fs))"
    using wire_name_word(1) by (intro utf8_join) (auto intro: utf8_all_ascii)
  moreover have "utf8 (lit ''features'')" by (rule utf8_all_ascii) simp
  ultimately show ?thesis unfolding features_entry_def banner_entry_def fst_conv snd_conv by (subst utf8_ascii) simp_all
qed

lemma entries_unsplit:
  assumes "\<forall>p \<in> set ps. printable p"
  shows "split_on (\<lambda>b. b = SEMICOLON) (join SEMICOLON (map banner_entry ps @ [features_entry fs]))
    = map banner_entry ps @ [features_entry fs]"
proof (rule split_on_join)
  have "x \<noteq> SEMICOLON" if "x \<in> set (join COMMA (map wire_name fs))" for x
    using that
  proof (induction fs)
    case (Cons f fs)
    then show ?case using wire_name_word(3) [of x f] by (cases fs) auto
  qed simp
  then have "\<forall>x \<in> set (features_entry fs). x \<noteq> SEMICOLON" by (auto simp: features_entry_def banner_entry_def)
  moreover have "\<forall>x \<in> set (banner_entry p). x \<noteq> SEMICOLON" if "p \<in> set ps" for p
    using assms that by (auto simp: printable_def banner_entry_def)
  ultimately show "\<forall>z \<in> set (map banner_entry ps @ [features_entry fs]). \<forall>x \<in> set z. x \<noteq> SEMICOLON" by auto
qed simp_all

section \<open>Properties\<close>

text \<open>
  C21: a banner that parses is sound.  Its features are distinct, it keeps at most the
  allowed number of properties, and no accessor can panic: every range it stores lies
  inside the banner and cuts it at character boundaries.
\<close>

theorem device_banner_sound:
  assumes "from_bytes raw max_properties = Inr b"
  shows "b_raw b = raw \<and> distinct (b_features b) \<and> length (b_properties b) \<le> max_properties \<and>
    state_str b \<noteq> None \<and> serial_str b \<noteq> None \<and> banner_state b \<noteq> None \<and>
    (None \<notin> fst ` set (properties_str b) \<union> snd ` set (properties_str b)) \<and>
    (\<forall>key. banner_property b key \<noteq> None)"
proof -
  note ok = from_bytes_ok [OF assms]
  have ps: "\<forall>p \<in> set (b_properties b). range_inside (b_raw b) (fst p) \<and> range_inside (b_raw b) (snd p)"
    using ok by (simp add: parsed_ok_def)
  have "\<forall>key. banner_property b key \<noteq> None"
    using find_property_total [OF ps] unfolding banner_property_def by (metis option.distinct(1))
  moreover have "None \<notin> fst ` set (properties_str b) \<union> snd ` set (properties_str b)"
    using ps str_at_range [of b] by (force simp: properties_str_def)
  ultimately show ?thesis
    using ok str_at_range [of b "b_state b"] str_at_range [of b "b_serial b"]
    by (auto simp: parsed_ok_def state_str_def serial_str_def banner_state_def)
qed

theorem device_banner_sound_witness:
  "\<exists>b. from_bytes (lit ''device::ro.product.name=x;features=shell_v2,cmd,shell_v2'') 1 = Inr b \<and>
     distinct (b_features b) \<and> length (b_properties b) \<le> 1 \<and> product_name b \<noteq> None"
proof -
  obtain b where b: "from_bytes (lit ''device::ro.product.name=x;features=shell_v2,cmd,shell_v2'') 1 = Inr b"
    by (cases "from_bytes (lit ''device::ro.product.name=x;features=shell_v2,cmd,shell_v2'') 1")
      (auto simp: from_bytes_def utf8_all_ascii feature_try_from_def feature_table_def)
  show ?thesis using b device_banner_sound [OF b] by (auto simp: product_name_def)
qed

text \<open>
  C20: the parser inverts the banner format.  Whatever state, serial, printable properties
  and distinct features a device prints, parsing gives exactly those back, in order.
\<close>

theorem device_banner_round_trip:
  assumes "COLON \<notin> set st" and "COLON \<notin> set serial" and "utf8 st" and "utf8 serial"
    and "\<forall>p \<in> set ps. printable p" and "length ps \<le> max_properties" and "distinct fs"
  shows "\<exists>b. from_bytes (render_banner st serial ps fs) max_properties = Inr b \<and>
    state_str b = Some st \<and> serial_str b = Some serial \<and>
    properties_str b = map (\<lambda>(k, v). (Some k, Some v)) ps \<and> b_features b = fs"
proof -
  define entries where "entries = join SEMICOLON (map banner_entry ps @ [features_entry fs])"
  define raw where "raw = st @ COLON # serial @ COLON # entries"
  have "\<forall>x \<in> set (map banner_entry ps @ [features_entry fs]). utf8 x"
    using assms(5) utf8_features_entry by (auto simp: printable_def banner_entry_def utf8_ascii)
  then have u: "utf8 entries" unfolding entries_def by (intro utf8_join) simp_all
  then have raw: "utf8 raw" unfolding raw_def using assms(3,4) by (simp add: utf8_ascii)
  have 1: "split_once COLON (0, raw) = Some ((0, st), (length st + 1, serial @ COLON # entries))"
    using assms(1) by (simp add: raw_def)
  have 2: "split_once COLON (length st + 1, serial @ COLON # entries) =
      Some ((length st + 1, serial), (length st + 1 + length serial + 1, entries))"
    using assms(2) by simp
  have 3: "banner_parts max_properties (sub_split SEMICOLON (length st + 1 + length serial + 1, entries)) [] []
      = Inr (entry_ranges (length st + 1 + length serial + 1) ps, fs)"
    using banner_parts_rendered [OF assms(5) _ assms(7), of "[]" max_properties] assms(6)
      entries_unsplit [OF assms(5), of fs] by (simp add: entries_def)
  define b where "b = \<lparr>b_raw = raw, b_state = range_of (0, st), b_serial = range_of (length st + 1, serial),
      b_properties = entry_ranges (length st + 1 + length serial + 1) ps, b_features = fs\<rparr>"
  have "from_bytes raw max_properties = Inr b"
    unfolding from_bytes_def 1 option.case prod.case 2 3 sum.case using raw by (simp add: b_def)
  moreover have "state_str b = Some st" "serial_str b = Some serial"
    using assms(3,4) by (simp_all add: state_str_def serial_str_def str_at_def b_def raw_def range_of_def)
  moreover have "properties_str b = map (\<lambda>(k, v). (Some k, Some v)) ps"
  proof -
    have "b_raw b = (st @ COLON # serial @ [COLON]) @ join SEMICOLON (map banner_entry ps @ [features_entry fs])"
      by (simp add: b_def raw_def entries_def)
    from entry_ranges_str [OF this] show ?thesis
      using assms(5) by (simp add: properties_str_def b_def printable_def)
  qed
  ultimately show ?thesis by (auto simp: render_banner_def raw_def entries_def b_def)
qed

theorem device_banner_round_trip_witness:
  "\<exists>b. from_bytes (render_banner (lit ''device'') [] [(lit ''k'', lit ''v'')] [Cmd, ShellV2]) 1 = Inr b \<and>
     state_str b = Some (lit ''device'') \<and> serial_str b = Some [] \<and>
     properties_str b = [(Some (lit ''k''), Some (lit ''v''))] \<and> b_features b = [Cmd, ShellV2]"
proof -
  have "printable (lit ''k'', lit ''v'')" by (simp add: printable_def utf8_all_ascii)
  moreover have "utf8 (lit ''device'')" by (rule utf8_all_ascii) simp
  ultimately show ?thesis
    using device_banner_round_trip [of "lit ''device''" "[]" "[(lit ''k'', lit ''v'')]" 1 "[Cmd, ShellV2]"] by simp
qed

text \<open>
  C22: the host's banner advertises exactly the features it was built from: the scan that
  decides delayed acknowledgements finds a feature if and only if it was listed.
\<close>

theorem host_banner_advertises:
  "has_feature (to_bytes (Features fs)) (wire_name f) \<longleftrightarrow> f \<in> set fs"
proof -
  have pos: "find_window (lit ''features='') (lit ''host::features='' @ rest) = Some 6" for rest by simp
  show ?thesis
  proof (cases "fs = []")
    case True
    then show ?thesis using pos [of "[]"] by (simp add: has_feature_def)
  next
    case False
    have "split_on (\<lambda>b. b = COMMA \<or> b = SEMICOLON) (join COMMA (map wire_name fs)) = map wire_name fs"
      using False wire_name_word(2,3) by (intro split_on_join) auto
    then show ?thesis
      using pos [of "join COMMA (map wire_name fs)"] False
      by (auto simp: has_feature_def push_features_join image_iff)
  qed
qed


end
