(* ===== verification/Packet_Codec.thy ===== *)
theory Packet_Codec
  imports Adb_Types
begin

text \<open>
  The packet layer: the 24-byte message header, the payload checksum, \<open>Packet::decode\<close>
  and \<open>Packet::missing\<close> (\<open>base/protocol/packet.rs\<close>, \<open>message.rs\<close>, \<open>checksum.rs\<close>,
  \<open>constant.rs\<close>), the header encoder of \<open>base/wire.rs\<close> and the channel ids of
  \<open>base/ids.rs\<close>.  The lemmas show that decoding inverts encoding, that a decoder fed a
  prefix waits for exactly the bytes still missing, and that whatever decodes is the
  encoding of what was returned.
\<close>

section \<open>Definitions\<close>

definition MESSAGE_SIZE :: usize where "MESSAGE_SIZE = 24"
definition MAX_PAYLOAD :: u32 where "MAX_PAYLOAD = 1024 * 1024"
definition ADB_VERSION :: u32 where "ADB_VERSION = 0x01000001"
definition ADB_VERSION_SKIP_CHECKSUM :: u32 where "ADB_VERSION_SKIP_CHECKSUM = 0x01000001"
definition STLS_VERSION :: u32 where "STLS_VERSION = 0x01000000"
definition AUTH_TOKEN_LEN :: usize where "AUTH_TOKEN_LEN = 20"

record message =
  msg_command :: u32
  msg_arg0 :: u32
  msg_arg1 :: u32
  msg_data_length :: u32
  msg_data_check :: u32
  msg_magic :: u32

record packet =
  command :: command
  arg0 :: u32
  arg1 :: u32
  data :: bytes

record channel_ids =
  ids_local :: u32
  ids_remote :: u32

definition packet_new :: "command \<Rightarrow> u32 \<Rightarrow> u32 \<Rightarrow> bytes \<Rightarrow> packet" where
  "packet_new c a0 a1 payload = \<lparr>command = c, arg0 = a0, arg1 = a1, data = payload\<rparr>"

definition packet_close :: "channel_ids \<Rightarrow> packet" where
  "packet_close ids = packet_new Close (ids_local ids) (ids_remote ids) []"

definition packet_refuse :: "u32 \<Rightarrow> packet" where
  "packet_refuse remote = packet_new Close 0 remote []"

definition auth_signature :: "bytes \<Rightarrow> packet" where
  "auth_signature sig = packet_new Auth (auth_kind_code Signature) 0 sig"

definition auth_public_key :: "bytes \<Rightarrow> packet" where
  "auth_public_key key = packet_new Auth (auth_kind_code PublicKey) 0 key"

definition closed_by :: "channel_ids \<Rightarrow> packet \<Rightarrow> bool" where
  "closed_by ids pkt \<longleftrightarrow> command pkt = Close \<and>
     (arg1 pkt = ids_local ids \<or> (arg1 pkt = 0 \<and> arg0 pkt = ids_remote ids))"

definition payload_checksum :: "bytes \<Rightarrow> u32" where
  "payload_checksum payload = fold (\<lambda>b sum. sum + ucast b) payload 0"

datatype checksum = Compute | Skip

definition checksum_for_version :: "u32 \<Rightarrow> checksum" where
  "checksum_for_version version = (if version \<ge> ADB_VERSION_SKIP_CHECKSUM then Skip else Compute)"

fun checksum_of :: "checksum \<Rightarrow> bytes \<Rightarrow> u32" where
  "checksum_of Skip payload = 0"
| "checksum_of Compute payload = payload_checksum payload"

definition read_message :: "bytes \<Rightarrow> message" where
  "read_message h = \<lparr>msg_command = u32_at h 0, msg_arg0 = u32_at h 4, msg_arg1 = u32_at h 8,
     msg_data_length = u32_at h 12, msg_data_check = u32_at h 16, msg_magic = u32_at h 20\<rparr>"

text \<open>
  \<open>Packet::decode\<close> takes the buffer by \<open>&mut\<close>: the second component is what is left in it.
  A packet that fails its checksum has already been split off.
\<close>

definition decode :: "bytes \<Rightarrow> u32 \<Rightarrow> (protocol_error + packet option) \<times> bytes" where
  "decode buf max_payload =
     (if length buf < MESSAGE_SIZE then (Inr None, buf)
      else let m = read_message (take MESSAGE_SIZE buf) in
        case command_try_from (msg_command m) of
          Inl _ \<Rightarrow> (Inl (InvalidCommand (msg_command m)), buf)
        | Inr c \<Rightarrow>
            if msg_magic m \<noteq> magic c then (Inl InvalidMagic, buf)
            else if msg_data_length m > min max_payload MAX_PAYLOAD then (Inl PayloadTooLarge, buf)
            else let payload_len = unat (msg_data_length m);
                     total_len = MESSAGE_SIZE + payload_len in
              if length buf < total_len then (Inr None, buf)
              else let payload = drop MESSAGE_SIZE (take total_len buf); rest = drop total_len buf in
                if msg_data_check m \<noteq> 0 \<and> payload_checksum payload \<noteq> msg_data_check m
                then (Inl InvalidChecksum, rest)
                else (Inr (Some \<lparr>command = c, arg0 = msg_arg0 m, arg1 = msg_arg1 m, data = payload\<rparr>), rest))"

definition missing :: "bytes \<Rightarrow> usize" where
  "missing buf =
     (if length buf < MESSAGE_SIZE then MESSAGE_SIZE - length buf
      else MESSAGE_SIZE + unat (u32_at buf 12) - length buf)"

definition encode_header ::
  "command \<Rightarrow> u32 \<Rightarrow> u32 \<Rightarrow> bytes \<Rightarrow> checksum \<Rightarrow> protocol_error + bytes" where
  "encode_header c a0 a1 payload cs =
     (if length payload > unat MAX_PAYLOAD then Inl PayloadTooLarge
      else Inr (u32_to_le (command_code c) @ u32_to_le a0 @ u32_to_le a1 @
                u32_to_le (of_nat (length payload)) @ u32_to_le (checksum_of cs payload) @
                u32_to_le (magic c)))"

text \<open>
  The bytes of a whole packet on the wire: the header followed by the payload.  On the
  sending side they leave as two writes; \<open>Packet::encode\<close> builds the same bytes in one
  buffer.
\<close>

definition encode :: "packet \<Rightarrow> checksum \<Rightarrow> protocol_error + bytes" where
  "encode pkt cs =
     (case encode_header (command pkt) (arg0 pkt) (arg1 pkt) (data pkt) cs of
        Inl e \<Rightarrow> Inl e
      | Inr h \<Rightarrow> Inr (h @ data pkt))"

section \<open>Lemmas\<close>

lemma MAX_PAYLOAD_nat [simp]: "unat MAX_PAYLOAD = 1048576"
  by (simp add: MAX_PAYLOAD_def)

lemma encode_header_length: "encode_header c a0 a1 p cs = Inr h \<Longrightarrow> length h = 24"
  by (auto simp: encode_header_def split: if_splits)

lemma payload_checksum_Nil [simp]: "payload_checksum [] = 0"
  by (simp add: payload_checksum_def)

lemma payload_checksum_fold:
  "fold (\<lambda>b sum. sum + ucast b) p a = a + payload_checksum p"
proof (induction p arbitrary: a)
  case (Cons x p)
  show ?case
    using Cons [of "a + ucast x"] Cons [of "ucast x"] by (simp add: payload_checksum_def add.assoc)
qed simp

lemma payload_checksum_app:
  "payload_checksum (xs @ ys) = payload_checksum xs + payload_checksum ys"
  by (subst payload_checksum_def) (simp add: payload_checksum_fold)

lemma length_as_u32: "length p \<le> 1048576 \<Longrightarrow> unat (of_nat (length p) :: u32) = length p"
  by (simp add: unsigned_of_nat take_bit_nat_eq_self)

text \<open>Reading a header back, whatever follows it.\<close>

lemma u32_at_0 [slice_simps]: "u32_at (to_le 4 w @ ys) 0 = w"
  by (simp add: u32_at_def)

lemma u32_at_all [slice_simps]: "u32_at (to_le 4 w) 0 = w"
  by (simp add: u32_at_def)

lemma u32_at_skip [slice_simps]: "4 \<le> k \<Longrightarrow> u32_at (to_le 4 v @ ys) k = u32_at ys (k - 4)"
  by (simp add: u32_at_def)

lemma u32_at_take [slice_simps]: "k + 4 \<le> n \<Longrightarrow> u32_at (take n xs) k = u32_at xs k"
  by (simp add: u32_at_def take_drop min_def)

lemma read_message_header:
  "read_message (take MESSAGE_SIZE (u32_to_le a @ u32_to_le b @ u32_to_le c @ u32_to_le d @ u32_to_le e
     @ u32_to_le f @ ys))
   = \<lparr>msg_command = a, msg_arg0 = b, msg_arg1 = c, msg_data_length = d, msg_data_check = e, msg_magic = f\<rparr>"
  by (simp add: read_message_def MESSAGE_SIZE_def slice_simps)

lemma decode_encoded:
  assumes enc: "encode pkt cs = Inr w" and fits: "length (data pkt) \<le> unat mp"
  shows "decode (w @ rest) mp = (Inr (Some pkt), rest)"
proof -
  have len: "length (data pkt) \<le> 1048576"
    using enc by (auto simp: encode_def encode_header_def split: if_splits)
  note [simp] = length_as_u32 [OF len]
  define h where "h = u32_to_le (command_code (command pkt)) @ u32_to_le (arg0 pkt) @ u32_to_le (arg1 pkt) @
      u32_to_le (of_nat (length (data pkt))) @ u32_to_le (checksum_of cs (data pkt)) @
      u32_to_le (magic (command pkt))"
  have eh: "encode_header (command pkt) (arg0 pkt) (arg1 pkt) (data pkt) cs = Inr h"
    using len by (simp add: encode_header_def flip: h_def)
  have w: "w = h @ data pkt" using enc by (simp add: encode_def eh)
  have h: "length h = MESSAGE_SIZE" using encode_header_length [OF eh] by (simp add: MESSAGE_SIZE_def)
  have m: "read_message (take MESSAGE_SIZE (w @ rest)) = \<lparr>msg_command = command_code (command pkt),
      msg_arg0 = arg0 pkt, msg_arg1 = arg1 pkt, msg_data_length = of_nat (length (data pkt)),
      msg_data_check = checksum_of cs (data pkt), msg_magic = magic (command pkt)\<rparr>"
    unfolding w h_def append_assoc by (rule read_message_header)
  have size: "\<not> of_nat (length (data pkt)) > min mp MAX_PAYLOAD"
    using fits len by (simp add: word_less_nat_alt min_def)
  have check: "checksum_of cs (data pkt) = 0 \<or> payload_checksum (data pkt) = checksum_of cs (data pkt)"
    by (cases cs) simp_all
  have split: "take (MESSAGE_SIZE + length (data pkt)) (w @ rest) = h @ data pkt"
      "drop (MESSAGE_SIZE + length (data pkt)) (w @ rest) = rest" "length (w @ rest) \<ge> MESSAGE_SIZE"
      "\<not> length (w @ rest) < MESSAGE_SIZE + length (data pkt)"
    by (simp_all add: w h)
  have "decode (w @ rest) mp = (if checksum_of cs (data pkt) \<noteq> 0 \<and>
      payload_checksum (data pkt) \<noteq> checksum_of cs (data pkt)
      then (Inl InvalidChecksum, rest) else (Inr (Some pkt), rest))"
    unfolding decode_def Let_def m
    using split by (auto simp: h size)
  with check show ?thesis by simp
qed

lemma encode_length:
  "encode pkt cs = Inr w \<Longrightarrow> length w = MESSAGE_SIZE + length (data pkt) \<and> length (data pkt) \<le> unat MAX_PAYLOAD"
  by (auto simp: encode_def encode_header_def MESSAGE_SIZE_def split: if_splits)

text \<open>What a decoder holding only part of a packet knows: the header it has, or nothing.\<close>

lemma encode_header_fields:
  assumes enc: "encode pkt cs = Inr w" and n: "MESSAGE_SIZE \<le> n"
  shows "read_message (take MESSAGE_SIZE (take n w)) = \<lparr>msg_command = command_code (command pkt),
      msg_arg0 = arg0 pkt, msg_arg1 = arg1 pkt, msg_data_length = of_nat (length (data pkt)),
      msg_data_check = checksum_of cs (data pkt), msg_magic = magic (command pkt)\<rparr>"
    and "u32_at (take n w) 12 = of_nat (length (data pkt))"
proof -
  have w: "w = u32_to_le (command_code (command pkt)) @ u32_to_le (arg0 pkt) @ u32_to_le (arg1 pkt) @
      u32_to_le (of_nat (length (data pkt))) @ u32_to_le (checksum_of cs (data pkt)) @
      u32_to_le (magic (command pkt)) @ data pkt"
    using enc by (simp add: encode_def encode_header_def split: if_splits)
  have "take MESSAGE_SIZE (take n w) = take MESSAGE_SIZE w" using n by (simp add: min_def)
  then show "read_message (take MESSAGE_SIZE (take n w)) = \<lparr>msg_command = command_code (command pkt),
      msg_arg0 = arg0 pkt, msg_arg1 = arg1 pkt, msg_data_length = of_nat (length (data pkt)),
      msg_data_check = checksum_of cs (data pkt), msg_magic = magic (command pkt)\<rparr>"
    by (simp only: w read_message_header)
  have "u32_at (take n w) 12 = u32_at w 12" using n by (simp add: MESSAGE_SIZE_def u32_at_take)
  then show "u32_at (take n w) 12 = of_nat (length (data pkt))"
    by (simp add: w slice_simps)
qed

lemma decode_prefix:
  assumes enc: "encode pkt cs = Inr w" and fits: "length (data pkt) \<le> unat mp" and n: "n < length w"
  shows "decode (take n w) mp = (Inr None, take n w)"
proof (cases "n < MESSAGE_SIZE")
  case True
  then have "length (take n w) < MESSAGE_SIZE" by simp
  then show ?thesis by (simp add: decode_def)
next
  case False
  note len = encode_length [OF enc]
  have l: "unat (of_nat (length (data pkt)) :: u32) = length (data pkt)"
    using len by (intro length_as_u32) simp
  have size: "\<not> of_nat (length (data pkt)) > min mp MAX_PAYLOAD"
    using fits len l by (simp add: word_less_nat_alt min_def)
  have m: "\<not> length (take n w) < MESSAGE_SIZE" using False n by simp
  show ?thesis
    unfolding decode_def Let_def using m n len encode_header_fields(1) [OF enc, of n] False
    by (simp add: size l)
qed

lemma missing_prefix:
  assumes enc: "encode pkt cs = Inr w" and n: "n < length w"
  shows "0 < missing (take n w)"
    and "missing (take n w) = (if n < MESSAGE_SIZE then MESSAGE_SIZE - n else length w - n)"
proof -
  note len = encode_length [OF enc]
  have l: "unat (of_nat (length (data pkt)) :: u32) = length (data pkt)"
    using len by (intro length_as_u32) simp
  show "missing (take n w) = (if n < MESSAGE_SIZE then MESSAGE_SIZE - n else length w - n)"
    using n len encode_header_fields(2) [OF enc, of n] by (auto simp: missing_def l min_def)
  then show "0 < missing (take n w)" using n by simp
qed

lemma decode_needs_more:
  assumes "decode buf mp = (Inr None, rest)"
  shows "rest = buf" and "0 < missing buf"
    and "length buf + missing buf \<le> MESSAGE_SIZE + unat (min mp MAX_PAYLOAD)"
proof -
  show "rest = buf"
    using assms by (auto simp: decode_def Let_def split: if_splits sum.splits)
  have h: "u32_at (take MESSAGE_SIZE buf) 12 = u32_at buf 12"
    by (simp add: u32_at_take MESSAGE_SIZE_def)
  show "0 < missing buf"
    using assms h by (auto simp: decode_def missing_def read_message_def Let_def split: if_splits sum.splits)
  show "length buf + missing buf \<le> MESSAGE_SIZE + unat (min mp MAX_PAYLOAD)"
  proof (cases "length buf < MESSAGE_SIZE")
    case False
    then have "u32_at buf 12 \<le> min mp MAX_PAYLOAD"
      using assms h by (auto simp: decode_def read_message_def Let_def not_less split: if_splits sum.splits)
    then show ?thesis using False \<open>0 < missing buf\<close> by (auto simp: missing_def word_le_nat_alt)
  qed (simp add: missing_def)
qed

lemma decode_sound:
  assumes "decode buf mp = (Inr (Some pkt), rest)"
  shows "\<exists>cs w. encode pkt cs = Inr w \<and> buf = w @ rest \<and> length (data pkt) \<le> unat (min mp MAX_PAYLOAD)"
proof -
  define m where "m = read_message (take MESSAGE_SIZE buf)"
  define n where "n = unat (msg_data_length m)"
  have big: "MESSAGE_SIZE \<le> length buf"
    using assms by (auto simp: decode_def split: if_splits)
  obtain c where c: "command_try_from (msg_command m) = Inr c"
    using assms big by (auto simp: decode_def Let_def m_def split: sum.splits if_splits)
  have mg: "msg_magic m = magic c" and sz: "\<not> msg_data_length m > min mp MAX_PAYLOAD"
    and tot: "\<not> length buf < MESSAGE_SIZE + n"
    and chk: "msg_data_check m = 0 \<or> payload_checksum (drop MESSAGE_SIZE (take (MESSAGE_SIZE + n) buf)) = msg_data_check m"
    and pkt: "pkt = \<lparr>command = c, arg0 = msg_arg0 m, arg1 = msg_arg1 m,
        data = drop MESSAGE_SIZE (take (MESSAGE_SIZE + n) buf)\<rparr>"
    and rest: "rest = drop (MESSAGE_SIZE + n) buf"
    using assms big c by (auto simp: decode_def Let_def n_def simp flip: m_def split: if_splits)
  have len: "length (data pkt) = n" using tot by (simp add: pkt)
  have sz': "n \<le> unat (min mp MAX_PAYLOAD)" using sz by (simp add: n_def not_less word_le_nat_alt)
  then have n_max: "n \<le> 1048576" by (simp add: min_def word_le_nat_alt split: if_splits)
  have dl: "of_nat n = msg_data_length m" by (simp add: n_def)
  define cs where "cs = (if msg_data_check m = 0 then Skip else Compute)"
  have cs: "checksum_of cs (data pkt) = msg_data_check m"
    using chk by (auto simp: cs_def pkt)
  have f: "u32_to_le (u32_at (take 24 buf) k) = take 4 (drop k buf)" if "k + 4 \<le> 24" for k
    using that big by (simp add: u32_at_take u32_to_le_at MESSAGE_SIZE_def)
  have t: "take (4 + k) xs = take 4 xs @ take k (drop 4 xs)" for k and xs :: bytes by (rule take_add)
  have cut: "take 24 buf = take 4 buf @ take 4 (drop 4 buf) @ take 4 (drop 8 buf) @ take 4 (drop 12 buf) @
      take 4 (drop 16 buf) @ take 4 (drop 20 buf)"
    using t [of 20 buf] t [of 16 "drop 4 buf"] t [of 12 "drop 8 buf"] t [of 8 "drop 12 buf"] t [of 4 "drop 16 buf"]
    by simp
  have hdr: "u32_to_le (msg_command m) @ u32_to_le (msg_arg0 m) @ u32_to_le (msg_arg1 m) @
      u32_to_le (msg_data_length m) @ u32_to_le (msg_data_check m) @ u32_to_le (msg_magic m)
      = take MESSAGE_SIZE buf"
    by (simp add: m_def read_message_def f MESSAGE_SIZE_def, simp add: cut)
  have "encode pkt cs = Inr (take MESSAGE_SIZE buf @ data pkt)"
    using n_max cs mg command_try_from_Inr [OF c] len hdr dl
    by (simp add: encode_def encode_header_def pkt)
  moreover have "buf = (take MESSAGE_SIZE buf @ data pkt) @ rest"
    by (simp add: pkt rest drop_take flip: take_add)
  ultimately show ?thesis using sz' len by blast
qed

lemma decode_error_rest:
  assumes "decode buf mp = (Inl e, rest)"
  shows "if e = InvalidChecksum then \<exists>lost. buf = lost @ rest \<and> MESSAGE_SIZE \<le> length lost else rest = buf"
  using assms unfolding decode_def Let_def
  by (auto split: if_splits sum.splits intro!: exI [of _ "take (MESSAGE_SIZE + unat (msg_data_length (read_message (take MESSAGE_SIZE buf)))) buf"])

lemma missing_complete:
  assumes enc: "encode pkt cs = Inr w"
  shows "missing (w @ x) = 0"
proof -
  have "u32_at (w @ x) 12 = of_nat (length (data pkt))"
    using enc by (auto simp: encode_def encode_header_def slice_simps split: if_splits)
  then show ?thesis
    using encode_length [OF enc] by (simp add: missing_def length_as_u32)
qed

section \<open>Properties\<close>

text \<open>A packet to evaluate the properties at.\<close>

definition sample_packet :: packet where
  "sample_packet = \<lparr>command = Write, arg0 = 7, arg1 = 9, data = [1, 2, 3]\<rparr>"

lemma sample_encoded: "\<exists>w. encode sample_packet Compute = Inr w"
  by (simp add: encode_def encode_header_def sample_packet_def)

text \<open>
  C17: a packet survives the wire.  Whatever follows it in the buffer, decoding the bytes
  of an encoded packet gives that packet back and leaves exactly what follows.
\<close>

theorem packet_round_trip:
  assumes "encode pkt cs = Inr w" and "length (data pkt) \<le> unat max_payload"
  shows "decode (w @ rest) max_payload = (Inr (Some pkt), rest)"
  using assms by (rule decode_encoded)

theorem packet_round_trip_witness:
  "\<exists>w. encode sample_packet Compute = Inr w \<and> decode (w @ [5]) 1024 = (Inr (Some sample_packet), [5])"
proof -
  obtain w where w: "encode sample_packet Compute = Inr w" using sample_encoded by blast
  show ?thesis using packet_round_trip [OF w, of 1024 "[5]"] w by (simp add: sample_packet_def)
qed

text \<open>
  C18: decoding is incremental and never over-reads.  On a proper prefix of a packet the
  decoder asks for more and keeps the bytes, and what it says is missing is positive and
  never reaches past the end of that packet (once the header is in, it is exactly the rest).
\<close>

theorem packet_prefix_incomplete:
  assumes "encode pkt cs = Inr w" and "length (data pkt) \<le> unat max_payload" and "n < length w"
  shows "decode (take n w) max_payload = (Inr None, take n w) \<and> 0 < missing (take n w) \<and>
    n + missing (take n w) \<le> length w \<and> (MESSAGE_SIZE \<le> n \<longrightarrow> n + missing (take n w) = length w)"
  using decode_prefix [OF assms] missing_prefix [OF assms(1,3)] encode_length [OF assms(1)] assms(3) by auto

theorem packet_prefix_incomplete_witness:
  "\<exists>w. encode sample_packet Compute = Inr w \<and> decode (take 25 w) 1024 = (Inr None, take 25 w) \<and>
     25 + missing (take 25 w) = length w"
proof -
  obtain w where w: "encode sample_packet Compute = Inr w" using sample_encoded by blast
  then have l: "length w = 27" using encode_length [OF w] by (simp add: sample_packet_def MESSAGE_SIZE_def)
  show ?thesis
    using packet_prefix_incomplete [OF w, of 1024 25] w l by (simp add: sample_packet_def MESSAGE_SIZE_def)
qed


end
