(* ===== verification/Conn_Config.thy ===== *)
theory Conn_Config
  imports Packet_Codec
begin

text \<open>
  The resource limits of a connection (\<open>base/connection/config.rs\<close>) and the receive policy a
  channel gets from them (\<open>RxPolicy\<close> of \<open>base/negotiated.rs\<close>).  A configuration is only
  ever built by \<open>new\<close> or \<open>embedded\<close> followed by the \<open>with_\<close> methods; \<open>config_ok\<close> is what
  all of those establish.
\<close>

section \<open>Configurations\<close>

definition MIN_MAX_PAYLOAD :: u32 where "MIN_MAX_PAYLOAD = 1024"

definition INITIAL_DELAYED_ACK_BYTES :: u32 where "INITIAL_DELAYED_ACK_BYTES = 32 * 1024 * 1024"

definition DEFAULT_MAX_CHANNELS :: usize where "DEFAULT_MAX_CHANNELS = 32"

definition MAX_CHANNELS :: usize where "MAX_CHANNELS = 65536"

definition DEFAULT_MAX_BANNER_PROPERTIES :: usize where "DEFAULT_MAX_BANNER_PROPERTIES = 64"

record config =
  max_payload :: u32
  initial_ack_bytes :: u32
  max_rx_per_channel :: usize
  max_channels :: usize
  max_banner_properties :: usize

definition config_new :: config where
  "config_new = \<lparr>max_payload = MAX_PAYLOAD, initial_ack_bytes = INITIAL_DELAYED_ACK_BYTES,
     max_rx_per_channel = usize_max, max_channels = DEFAULT_MAX_CHANNELS,
     max_banner_properties = DEFAULT_MAX_BANNER_PROPERTIES\<rparr>"

definition embedded :: config where
  "embedded = \<lparr>max_payload = 8 * 1024, initial_ack_bytes = 32 * 1024, max_rx_per_channel = 64 * 1024,
     max_channels = DEFAULT_MAX_CHANNELS, max_banner_properties = DEFAULT_MAX_BANNER_PROPERTIES\<rparr>"

definition with_max_payload :: "u32 \<Rightarrow> config \<Rightarrow> config" where
  "with_max_payload n c = c\<lparr>max_payload :=
     (if n > MAX_PAYLOAD then MAX_PAYLOAD else if n < MIN_MAX_PAYLOAD then MIN_MAX_PAYLOAD else n)\<rparr>"

definition with_initial_ack_bytes :: "u32 \<Rightarrow> config \<Rightarrow> config" where
  "with_initial_ack_bytes n c = c\<lparr>initial_ack_bytes := n\<rparr>"

definition with_max_rx_per_channel :: "usize \<Rightarrow> config \<Rightarrow> config" where
  "with_max_rx_per_channel n c = c\<lparr>max_rx_per_channel := n\<rparr>"

definition with_max_channels :: "usize \<Rightarrow> config \<Rightarrow> config" where
  "with_max_channels n c = c\<lparr>max_channels :=
     (if n > MAX_CHANNELS then MAX_CHANNELS else if n = 0 then 1 else n)\<rparr>"

definition with_max_banner_properties :: "usize \<Rightarrow> config \<Rightarrow> config" where
  "with_max_banner_properties n c = c\<lparr>max_banner_properties := n\<rparr>"

definition rx_cap :: "config \<Rightarrow> usize" where
  "rx_cap c = (if max_rx_per_channel c < unat (max_payload c) then unat (max_payload c) else max_rx_per_channel c)"

definition rx_ceiling :: "config \<Rightarrow> usize" where
  "rx_ceiling c = rx_cap c - unat (max_payload c) + 1"

definition rx_watermark :: "config \<Rightarrow> usize" where
  "rx_watermark c =
     (let want = (if unat (initial_ack_bytes c) > unat (max_payload c) then unat (initial_ack_bytes c)
                  else unat (max_payload c)); ceiling = rx_ceiling c
      in if want > ceiling then ceiling else want)"

definition advertised_ack_bytes :: "config \<Rightarrow> u32" where
  "advertised_ack_bytes c =
     (let ceiling = rx_ceiling c in if unat (initial_ack_bytes c) > ceiling then of_nat ceiling else initial_ack_bytes c)"

section \<open>What every configuration satisfies\<close>

definition config_ok :: "config \<Rightarrow> bool" where
  "config_ok c \<longleftrightarrow> MIN_MAX_PAYLOAD \<le> max_payload c \<and> max_payload c \<le> MAX_PAYLOAD \<and>
     max_rx_per_channel c \<le> usize_max \<and> 1 \<le> max_channels c \<and> max_channels c \<le> MAX_CHANNELS"

text \<open>Configurations the public interface can build (a \<open>usize\<close> argument fits its width).\<close>

inductive built :: "config \<Rightarrow> bool" where
  built_new: "built config_new"
| built_embedded: "built embedded"
| built_payload: "built c \<Longrightarrow> built (with_max_payload n c)"
| built_ack: "built c \<Longrightarrow> built (with_initial_ack_bytes n c)"
| built_rx: "built c \<Longrightarrow> m \<le> usize_max \<Longrightarrow> built (with_max_rx_per_channel m c)"
| built_channels: "built c \<Longrightarrow> built (with_max_channels m c)"
| built_properties: "built c \<Longrightarrow> built (with_max_banner_properties m c)"

lemma built_ok: "built c \<Longrightarrow> config_ok c"
  by (induction rule: built.induct)
    (auto simp: config_ok_def config_new_def embedded_def with_max_payload_def with_initial_ack_bytes_def
      with_max_rx_per_channel_def with_max_channels_def with_max_banner_properties_def MIN_MAX_PAYLOAD_def
      MAX_PAYLOAD_def MAX_CHANNELS_def DEFAULT_MAX_CHANNELS_def usize_max_def not_less)

lemma config_payload:
  assumes "config_ok c"
  shows "1024 \<le> unat (max_payload c)" and "unat (max_payload c) \<le> 1048576"
  using assms by (simp_all add: config_ok_def MIN_MAX_PAYLOAD_def word_le_nat_alt)

lemma rx_cap_bounds:
  assumes "config_ok c"
  shows "unat (max_payload c) \<le> rx_cap c" and "rx_cap c \<le> usize_max"
  using assms config_payload [OF assms] by (auto simp: rx_cap_def config_ok_def usize_max_def)

lemma rx_ceiling_bounds:
  assumes "config_ok c"
  shows "1 \<le> rx_ceiling c" and "rx_ceiling c + unat (max_payload c) = rx_cap c + 1" and "rx_ceiling c \<le> usize_max"
  using rx_cap_bounds [OF assms] config_payload [OF assms] by (auto simp: rx_ceiling_def)

lemma rx_watermark_bounds:
  assumes "config_ok c"
  shows "1 \<le> rx_watermark c" and "rx_watermark c + unat (max_payload c) \<le> rx_cap c + 1"
  using rx_ceiling_bounds [OF assms] config_payload [OF assms] by (auto simp: rx_watermark_def Let_def)

lemma advertised_nat:
  assumes "config_ok c"
  shows "unat (advertised_ack_bytes c) = min (unat (initial_ack_bytes c)) (rx_ceiling c)"
proof (cases "unat (initial_ack_bytes c) > rx_ceiling c")
  case True
  then have "rx_ceiling c < 2 ^ 32" using unat_u32_lt [of "initial_ack_bytes c"] by simp
  then show ?thesis using True by (simp add: advertised_ack_bytes_def unsigned_of_nat take_bit_nat_eq_self)
qed (simp add: advertised_ack_bytes_def)

section \<open>Receive policies\<close>

datatype ack_mode = Classic | Delayed

record rx_policy =
  policy_ack :: ack_mode
  policy_cap :: usize
  policy_watermark :: usize

definition policy_of :: "bool \<Rightarrow> config \<Rightarrow> rx_policy" where
  "policy_of delayed c = \<lparr>policy_ack = (if delayed then Delayed else Classic), policy_cap = rx_cap c,
     policy_watermark = rx_watermark c\<rparr>"

end
