(* ===== verification/Wire.thy ===== *)
theory Wire
  imports Conn_Config
begin

text \<open>
  Sending and receiving whole packets over a transport (\<open>base/wire.rs\<close>).  The transport
  is any \<open>embedded_io_async::{Read, Write}\<close>: a parameter of every definition, given as a
  record of its operations over a state of type \<open>'t\<close>.  An awaited transport call ends in
  one of three ways: it completes, it fails, or the future that was waiting on it is
  dropped by its caller.  The last one is how cancellation is modelled: it ends the whole
  operation (\<open>Cancelled\<close>) and runs the destructors of \<open>Staged\<close> and \<open>ArmedWrite\<close>.

  The locales \<open>sink\<close> and \<open>source\<close> state what the code relies on from a transport; both
  are interpreted for the repository's own scripted transport (\<open>base/mock.rs\<close>).
\<close>

section \<open>Transports, outcomes\<close>

text \<open>The error kinds the code tells apart; every other kind is \<open>OtherKind\<close>.\<close>

datatype error_kind = ConnectionReset | ConnectionAborted | BrokenPipe | NotConnected | TimedOut | OtherKind

datatype ('e, 'a) polled = Done 'a | Failed 'e | Dropped

record ('t, 'e) transport_ops =
  t_read :: "'t \<Rightarrow> usize \<Rightarrow> ('e, bytes) polled \<times> 't"
  t_write :: "'t \<Rightarrow> bytes \<Rightarrow> ('e, usize) polled \<times> 't"
  t_flush :: "'t \<Rightarrow> ('e, unit) polled \<times> 't"
  e_kind :: "'e \<Rightarrow> error_kind"
  t_cancel_safe :: "'t \<Rightarrow> bool"

text \<open>
  How an operation ends: with a value, with an error, dropped by its caller, or in a panic
  (an index out of range, an underflow).
\<close>

datatype ('e, 'a) outcome = Ok 'a | Err "'e error" | Cancelled | Panicked

text \<open>The \<open>?\<close> operator and \<open>.await\<close> over a state.\<close>

definition and_then ::
  "('e, 'a) outcome \<times> 's \<Rightarrow> ('a \<Rightarrow> 's \<Rightarrow> ('e, 'b) outcome \<times> 's) \<Rightarrow> ('e, 'b) outcome \<times> 's" where
  "and_then r f = (case r of
      (Ok a, s) \<Rightarrow> f a s
    | (Err e, s) \<Rightarrow> (Err e, s)
    | (Cancelled, s) \<Rightarrow> (Cancelled, s)
    | (Panicked, s) \<Rightarrow> (Panicked, s))"

text \<open>
  What a connection needs of its transport side: the transport, the bytes received and not
  yet decoded, and the flag a half-written packet leaves set.  \<open>Connection\<close> and
  \<open>Handshake\<close> extend this record.
\<close>

record 't wire =
  transport :: 't
  recv_buf :: bytes
  desync :: bool

section \<open>Receiving\<close>

definition MIN_READ :: usize where "MIN_READ = 4096"

definition read_limit :: "bytes \<Rightarrow> usize" where
  "read_limit buf = (if length buf < MESSAGE_SIZE then MIN_READ else missing buf)"

text \<open>How much the receive buffer holds at most.\<close>

definition recv_bound :: "u32 \<Rightarrow> usize" where
  "recv_bound mp = max (MESSAGE_SIZE + MIN_READ) (MESSAGE_SIZE + unat (min mp MAX_PAYLOAD))"

record staged =
  st_buf :: bytes
  st_keep :: usize

definition staged_new :: "bytes \<Rightarrow> staged" where
  "staged_new buf = \<lparr>st_buf = buf @ replicate (read_limit buf) 0, st_keep = length buf\<rparr>"

definition committed :: "staged \<Rightarrow> bytes" where
  "committed st = take (st_keep st) (st_buf st)"

definition spare :: "staged \<Rightarrow> usize" where
  "spare st = length (st_buf st) - st_keep st"

definition room :: "staged \<Rightarrow> usize" where
  "room st = min (read_limit (committed st)) (spare st)"

text \<open>A read fills the front of the room with \<open>d\<close>; \<open>commit\<close> then counts those bytes in.\<close>

definition commit :: "staged \<Rightarrow> bytes \<Rightarrow> staged" where
  "commit st d = \<lparr>st_buf = take (st_keep st) (st_buf st) @ d @ drop (st_keep st + length d) (st_buf st),
                  st_keep = st_keep st + length d\<rparr>"

definition wants_more :: "staged \<Rightarrow> bool" where
  "wants_more st \<longleftrightarrow> missing (committed st) \<noteq> 0 \<and> missing (committed st) \<le> spare st"

datatype 'i received = Packet packet | Interrupted 'i

datatype ('e, 'i) filled = Filled | Overtaken 'i | FillErr "'e error" | FillCancelled

text \<open>
  The inner loop of \<open>recv_pkt_or\<close>.  Both ways of watching the interrupt look at it before
  the read is polled; only under \<open>race\<close> is a read that is left pending given up when the
  interrupt becomes ready meanwhile.
\<close>

lemma spare_commit: "spare (commit st d) \<le> spare st - length d"
  by (auto simp: spare_def commit_def)

function fill_staged ::
  "('t, 'e) transport_ops \<Rightarrow> ('t \<Rightarrow> 'i option) \<Rightarrow> bool \<Rightarrow> 't \<Rightarrow> staged \<Rightarrow> ('e, 'i) filled \<times> staged \<times> 't" where
  "fill_staged io interrupt race t st =
     (case interrupt t of
        Some v \<Rightarrow> (Overtaken v, st, t)
      | None \<Rightarrow>
          (case t_read io t (room st) of
             (Dropped, t') \<Rightarrow>
               (case (race, interrupt t') of
                  (True, Some v) \<Rightarrow> (Overtaken v, st, t')
                | _ \<Rightarrow> (FillCancelled, st, t'))
           | (Failed e, t') \<Rightarrow> (FillErr (Io e), st, t')
           | (Done d, t') \<Rightarrow>
               if d = [] then (FillErr UnexpectedEof, st, t')
               else let st' = commit st d in
                 if wants_more st' then fill_staged io interrupt race t' st' else (Filled, st', t')))"
  by pat_completeness auto
termination
proof (relation "measure (\<lambda>(io, interrupt, race, t, st). spare st)", simp)
  fix io :: "('t, 'e) transport_ops" and interrupt :: "'t \<Rightarrow> 'i option" and race t st x t' d and st' :: staged
  assume "d \<noteq> []" "st' = commit st d" "wants_more st'"
  then have "0 < spare st'" "0 < length d" by (auto simp: wants_more_def)
  moreover have "spare st' \<le> spare st - length d" using spare_commit [of st d] \<open>st' = commit st d\<close> by simp
  ultimately have "spare st' < spare st" by linarith
  then show "((io, interrupt, race, t', st'), io, interrupt, race, t, st)
      \<in> measure (\<lambda>(io, interrupt, race, t, st). spare st)" by simp
qed

declare fill_staged.simps [simp del]

definition staged_ok :: "staged \<Rightarrow> bool" where
  "staged_ok st \<longleftrightarrow> st_keep st \<le> length (st_buf st)"

lemma staged_new_ok [simp]: "staged_ok (staged_new buf)"
  by (simp add: staged_ok_def staged_new_def)

lemma staged_commit_ok [simp]: "staged_ok st \<Longrightarrow> staged_ok (commit st d)"
  by (auto simp: staged_ok_def commit_def)

lemma committed_new [simp]: "committed (staged_new buf) = buf"
  by (simp add: committed_def staged_new_def)

lemma committed_commit [simp]: "staged_ok st \<Longrightarrow> committed (commit st d) = committed st @ d"
  by (simp add: committed_def commit_def staged_ok_def)

text \<open>The reads an operation made of a transport, with the bytes they handed back in order.\<close>

inductive reads :: "('t, 'e) transport_ops \<Rightarrow> 't \<Rightarrow> bytes \<Rightarrow> 't \<Rightarrow> bool" for io where
  reads_nil: "reads io t [] t"
| reads_done: "t_read io t n = (Done d, t1) \<Longrightarrow> reads io t1 x t' \<Longrightarrow> reads io t (d @ x) t'"
| reads_failed: "t_read io t n = (Failed e, t1) \<Longrightarrow> reads io t1 x t' \<Longrightarrow> reads io t x t'"
| reads_dropped: "t_read io t n = (Dropped, t1) \<Longrightarrow> reads io t1 x t' \<Longrightarrow> reads io t x t'"

lemma reads_trans: "reads io t x t1 \<Longrightarrow> reads io t1 y t' \<Longrightarrow> reads io t (x @ y) t'"
  by (induction rule: reads.induct) (auto intro: reads.intros)

lemma reads_fst:
  assumes "t_read io t n = (q, t1)" and "\<And>d. q = Done d \<Longrightarrow> d = []"
  shows "reads io t [] t1"
  using assms reads_nil [of io t1] reads_done [of io t n "[]" t1 "[]" t1] reads_failed [of io t n _ t1 "[]" t1]
    reads_dropped [of io t n t1 "[]" t1]
  by (cases q) auto

lemma fill_staged_reads:
  assumes "fill_staged io interrupt race t st = (res, st', t')" and "staged_ok st"
  shows "staged_ok st' \<and> (\<exists>x. reads io t x t' \<and> committed st' = committed st @ x \<and> (res = Filled \<longrightarrow> x \<noteq> []))"
  using assms
proof (induction io interrupt race t st arbitrary: res st' t' rule: fill_staged.induct)
  case (1 io interrupt race t st)
  show ?case
  proof (cases "interrupt t")
    case (Some v)
    then show ?thesis using "1.prems" by (subst (asm) fill_staged.simps) (auto intro: reads_nil)
  next
    case None
    obtain q t1 where q: "t_read io t (room st) = (q, t1)" by force
    show ?thesis
    proof (cases "\<exists>d. q = Done d \<and> d \<noteq> []")
      case False
      then have "res \<noteq> Filled" "st' = st" "t' = t1"
        using "1.prems"(1) None q
        by (subst (asm) fill_staged.simps; auto split: polled.splits option.splits bool.splits if_splits)+
      moreover have "reads io t [] t1" using q False by (intro reads_fst) auto
      ultimately show ?thesis using "1.prems"(2) by auto
    next
      case True
      then obtain d where d: "q = Done d" "d \<noteq> []" by blast
      show ?thesis
      proof (cases "wants_more (commit st d)")
        case False
        then have "res = Filled" "st' = commit st d" "t' = t1"
          using "1.prems"(1) None q d by (subst (asm) fill_staged.simps; simp)+
        then show ?thesis
          using "1.prems"(2) d reads_done [OF q [unfolded d(1)] reads_nil] by auto
      next
        case more: True
        then have "fill_staged io interrupt race t1 (commit st d) = (res, st', t')"
          using "1.prems"(1) None q d by (subst (asm) fill_staged.simps) simp
        from "1.IH" [OF None q [symmetric] d(1) d(2) refl more this] "1.prems"(2)
        obtain x where "staged_ok st'" "reads io t1 x t'" "committed st' = committed st @ d @ x" by auto
        then show ?thesis using d(2) reads_done [OF q [unfolded d(1)]] by auto
      qed
    qed
  qed
qed

lemma fill_staged_err:
  "fill_staged io interrupt race t st = (res, st', t') \<Longrightarrow> res = FillErr e \<Longrightarrow> e = UnexpectedEof \<or> (\<exists>x. e = Io x)"
proof (induction io interrupt race t st rule: fill_staged.induct)
  case (1 io interrupt race t st)
  show ?case
    using "1.prems" "1.IH" [OF _ _ _ _ refl]
    by (subst (asm) fill_staged.simps)
      (fastforce simp: Let_def split: option.splits prod.splits polled.splits if_splits bool.splits)
qed

function recv_loop ::
  "('t, 'e) transport_ops \<Rightarrow> ('t \<Rightarrow> 'i option) \<Rightarrow> bool \<Rightarrow> u32 \<Rightarrow> 't \<Rightarrow> bytes
    \<Rightarrow> ('e, 'i received) outcome \<times> 't \<times> bytes" where
  "recv_loop io interrupt race mp t buf =
     (case decode buf mp of
        (Inl e, buf') \<Rightarrow> (Err (Protocol e), t, buf')
      | (Inr (Some pkt), buf') \<Rightarrow> (Ok (Packet pkt), t, buf')
      | (Inr None, _) \<Rightarrow>
          (case fill_staged io interrupt race t (staged_new buf) of
             (Filled, st', t') \<Rightarrow> recv_loop io interrupt race mp t' (committed st')
           | (Overtaken v, st', t') \<Rightarrow> (Ok (Interrupted v), t', committed st')
           | (FillErr e, st', t') \<Rightarrow> (Err e, t', committed st')
           | (FillCancelled, st', t') \<Rightarrow> (Cancelled, t', committed st')))"
  by pat_completeness auto
termination
proof (relation "measure (\<lambda>(io, interrupt, race, mp, t, buf). MESSAGE_SIZE + unat MAX_PAYLOAD - length buf)", simp)
  fix io :: "('t, 'e) transport_ops" and interrupt :: "'t \<Rightarrow> 'i option" and race mp t buf x y z u w v res st' t'
  assume d: "(x, y) = decode buf mp" "x = Inr z" "z = None"
    and f: "(res, w) = fill_staged io interrupt race t (staged_new buf)" "res = Filled" "(st', t') = w"
  have "decode buf mp = (Inr None, y)" using d by simp
  then have "0 < missing buf" "length buf + missing buf \<le> MESSAGE_SIZE + unat (min mp MAX_PAYLOAD)"
    by (rule decode_needs_more)+
  then have "length buf < MESSAGE_SIZE + unat MAX_PAYLOAD"
    by (auto simp: min_def word_le_nat_alt split: if_splits)
  moreover have "length buf < length (committed st')"
    using fill_staged_reads [of io interrupt race t "staged_new buf" res st' t'] f by auto
  ultimately show "((io, interrupt, race, mp, t', committed st'), io, interrupt, race, mp, t, buf)
      \<in> measure (\<lambda>(io, interrupt, race, mp, t, buf). MESSAGE_SIZE + unat MAX_PAYLOAD - length buf)"
    by simp
qed

declare recv_loop.simps [simp del]

text \<open>
  What a receive did with the bytes it had and the bytes it read: a packet's bytes are
  taken from the front, a packet with a bad checksum is dropped, and in every other case
  all of them stay.
\<close>

fun accounted :: "('e, 'i received) outcome \<Rightarrow> bytes \<Rightarrow> bytes \<Rightarrow> bool" where
  "accounted (Ok (Packet p)) had left \<longleftrightarrow> (\<exists>cs w. encode p cs = Inr w \<and> had = w @ left)"
| "accounted (Err (Protocol InvalidChecksum)) had left \<longleftrightarrow> (\<exists>lost. had = lost @ left \<and> MESSAGE_SIZE \<le> length lost)"
| "accounted _ had left \<longleftrightarrow> left = had"

lemma recv_loop_reads:
  assumes "recv_loop io interrupt race mp t buf = (r, t', buf')"
  shows "\<exists>x. reads io t x t' \<and> accounted r (buf @ x) buf'"
  using assms
proof (induction io interrupt race mp t buf arbitrary: r t' buf' rule: recv_loop.induct)
  case (1 io interrupt race mp t buf)
  obtain dr rest where d: "decode buf mp = (dr, rest)" by force
  show ?case
  proof (cases "\<exists>p. dr = Inr (Some p)")
    case True
    then obtain p where p: "dr = Inr (Some p)" by blast
    then have "r = Ok (Packet p)" "t' = t" "buf' = rest"
      using "1.prems" d by (subst (asm) recv_loop.simps; simp)+
    then show ?thesis using decode_sound [OF d [unfolded p]] reads_nil [of io t] by (intro exI [of _ "[]"]) auto
  next
    case no_pkt: False
    show ?thesis
    proof (cases dr)
      case (Inl e)
      then have *: "r = Err (Protocol e)" "t' = t" "buf' = rest"
        using "1.prems" d by (subst (asm) recv_loop.simps; simp)+
      have "accounted r buf buf'"
        using decode_error_rest [OF d [unfolded Inl]] by (cases e) (auto simp: *)
      then show ?thesis using * reads_nil [of io t] by (intro exI [of _ "[]"]) auto
    next
      case (Inr o1)
      with no_pkt have dn: "decode buf mp = (Inr None, rest)" using d by (cases o1) auto
      obtain res st1 t1 where f: "fill_staged io interrupt race t (staged_new buf) = (res, st1, t1)"
        by (metis prod.exhaust)
      obtain x where x: "reads io t x t1" "committed st1 = buf @ x"
        using fill_staged_reads [OF f] by auto
      show ?thesis
      proof (cases "res = Filled")
        case False
        then have "t' = t1" "accounted r (buf @ x) buf'"
          using "1.prems" dn f x(2) fill_staged_err [OF f]
          by (subst (asm) recv_loop.simps; fastforce split: filled.splits)+
        then show ?thesis using x by blast
      next
        case True
        then have "recv_loop io interrupt race mp t1 (committed st1) = (r, t', buf')"
          using "1.prems" dn f by (subst (asm) recv_loop.simps) simp
        from "1.IH" [OF dn [symmetric] refl refl f [symmetric] True refl this] x
        obtain y where "reads io t1 y t'" "accounted r ((buf @ x) @ y) buf'" by auto
        then show ?thesis using reads_trans [OF x(1)] by (intro exI [of _ "x @ y"]) auto
      qed
    qed
  qed
qed

definition recv_pkt_or ::
  "('t, 'e) transport_ops \<Rightarrow> ('t \<Rightarrow> 'i option) \<Rightarrow> bool \<Rightarrow> u32 \<Rightarrow> ('t, 'z) wire_scheme
    \<Rightarrow> ('e, 'i received) outcome \<times> ('t, 'z) wire_scheme" where
  "recv_pkt_or io interrupt race mp w =
     (case recv_loop io interrupt race mp (transport w) (recv_buf w) of
        (r, t, buf) \<Rightarrow> (r, w\<lparr>transport := t, recv_buf := buf\<rparr>))"

text \<open>\<open>pending::<Infallible>()\<close>: an interrupt that never comes.\<close>

definition never :: "'t \<Rightarrow> unit option" where
  "never t = None"

definition recv_pkt ::
  "('t, 'e) transport_ops \<Rightarrow> u32 \<Rightarrow> ('t, 'z) wire_scheme \<Rightarrow> ('e, packet) outcome \<times> ('t, 'z) wire_scheme" where
  "recv_pkt io mp w =
     (case recv_pkt_or io never True mp w of
        (Ok (Packet pkt), w') \<Rightarrow> (Ok pkt, w')
      | (Ok (Interrupted _), w') \<Rightarrow> (Cancelled, w')
      | (Err e, w') \<Rightarrow> (Err e, w')
      | (Cancelled, w') \<Rightarrow> (Cancelled, w')
      | (Panicked, w') \<Rightarrow> (Panicked, w'))"

section \<open>Sending\<close>

record pending_ack =
  ack_ids :: channel_ids
  ack_len :: usize

definition connection_gone :: "('t, 'e) transport_ops \<Rightarrow> 'e error \<Rightarrow> bool" where
  "connection_gone io err = (case err of
      Io e \<Rightarrow> e_kind io e \<in> {ConnectionReset, ConnectionAborted, BrokenPipe, NotConnected}
    | _ \<Rightarrow> False)"

definition ends_connection :: "('t, 'e) transport_ops \<Rightarrow> 'e error \<Rightarrow> bool" where
  "ends_connection io err = (case err of
      UnexpectedEof \<Rightarrow> True
    | Protocol e \<Rightarrow> e \<noteq> InvalidChecksum
    | e \<Rightarrow> connection_gone io e)"

definition check_desync :: "('t, 'z) wire_scheme \<Rightarrow> ('e, unit) outcome" where
  "check_desync w = (if desync w then Err Desynchronized else Ok ())"

function write_all :: "('t, 'e) transport_ops \<Rightarrow> bytes \<Rightarrow> 't \<Rightarrow> ('e, unit) outcome \<times> 't" where
  "write_all io buf t =
     (if buf = [] then (Ok (), t)
      else case t_write io t buf of
        (Done n, t') \<Rightarrow> if n = 0 then (Err UnexpectedEof, t') else write_all io (drop n buf) t'
      | (Failed e, t') \<Rightarrow> (Err (Io e), t')
      | (Dropped, t') \<Rightarrow> (Cancelled, t'))"
  by pat_completeness auto
termination by (relation "measure (\<lambda>(io, buf, t). length buf)") auto

declare write_all.simps [simp del]

definition write_frame ::
  "('t, 'e) transport_ops \<Rightarrow> bytes \<Rightarrow> bytes \<Rightarrow> 't \<Rightarrow> ('e, unit) outcome \<times> 't" where
  "write_frame io header payload t =
     and_then (write_all io header t) (\<lambda>_ t.
     and_then (if payload \<noteq> [] then write_all io payload t else (Ok (), t)) (\<lambda>_ t.
       (case t_flush io t of
          (Done _, t') \<Rightarrow> (Ok (), t')
        | (Failed e, t') \<Rightarrow> (Err (Io e), t')
        | (Dropped, t') \<Rightarrow> (Cancelled, t'))))"

text \<open>
  The guard is armed before the first byte and disarmed only when the frame went out whole
  or the device is gone; on every other way out its destructor sets the flag.
\<close>

definition send_frame ::
  "('t, 'e) transport_ops \<Rightarrow> bytes \<Rightarrow> bytes \<Rightarrow> ('t, 'z) wire_scheme \<Rightarrow> ('e, unit) outcome \<times> ('t, 'z) wire_scheme" where
  "send_frame io header payload w =
     (case write_frame io header payload (transport w) of
        (sent, t') \<Rightarrow>
          let disarmed = (case sent of Ok _ \<Rightarrow> True | Err e \<Rightarrow> connection_gone io e | _ \<Rightarrow> False)
          in (sent, w\<lparr>transport := t', desync := (if disarmed then desync w else True)\<rparr>))"

definition send_encoded ::
  "('t, 'e) transport_ops \<Rightarrow> command \<Rightarrow> u32 \<Rightarrow> u32 \<Rightarrow> bytes \<Rightarrow> checksum \<Rightarrow> ('t, 'z) wire_scheme
    \<Rightarrow> ('e, unit) outcome \<times> ('t, 'z) wire_scheme" where
  "send_encoded io c a0 a1 payload cs w =
     and_then (check_desync w, w) (\<lambda>_ w.
       (case encode_header c a0 a1 payload cs of
          Inl e \<Rightarrow> (Err (Protocol e), w)
        | Inr header \<Rightarrow> send_frame io header payload w))"

definition send_pkt ::
  "('t, 'e) transport_ops \<Rightarrow> packet \<Rightarrow> checksum \<Rightarrow> ('t, 'z) wire_scheme \<Rightarrow> ('e, unit) outcome \<times> ('t, 'z) wire_scheme" where
  "send_pkt io pkt cs w = send_encoded io (command pkt) (arg0 pkt) (arg1 pkt) (data pkt) cs w"

definition send_raw ::
  "('t, 'e) transport_ops \<Rightarrow> command \<Rightarrow> channel_ids \<Rightarrow> bytes \<Rightarrow> checksum \<Rightarrow> ('t, 'z) wire_scheme
    \<Rightarrow> ('e, unit) outcome \<times> ('t, 'z) wire_scheme" where
  "send_raw io c ids payload cs w = send_encoded io c (ids_local ids) (ids_remote ids) payload cs w"

definition send_open ::
  "('t, 'e) transport_ops \<Rightarrow> u32 \<Rightarrow> u32 \<Rightarrow> bytes \<Rightarrow> checksum \<Rightarrow> ('t, 'z) wire_scheme
    \<Rightarrow> ('e, unit) outcome \<times> ('t, 'z) wire_scheme" where
  "send_open io local credit destination cs w = send_encoded io Open local credit destination cs w"

definition okay_payload :: "pending_ack \<Rightarrow> ack_mode \<Rightarrow> bytes" where
  "okay_payload ack mode = (case mode of Delayed \<Rightarrow> u32_to_le (of_nat (ack_len ack)) | Classic \<Rightarrow> [])"

definition send_okay_to ::
  "('t, 'e) transport_ops \<Rightarrow> pending_ack \<Rightarrow> ack_mode \<Rightarrow> checksum \<Rightarrow> ('t, 'z) wire_scheme
    \<Rightarrow> ('e, unit) outcome \<times> ('t, 'z) wire_scheme" where
  "send_okay_to io ack mode cs w = send_raw io Ready (ack_ids ack) (okay_payload ack mode) cs w"

section \<open>What a transport promises\<close>

text \<open>
  A sink: bytes handed to \<open>write\<close> are appended to what the peer will see, in order; a write
  that fails or is dropped may have passed on any prefix.
\<close>

locale sink =
  fixes io :: "('t, 'e) transport_ops" and out :: "'t \<Rightarrow> bytes"
  assumes write_done: "t_write io t buf = (Done n, t') \<Longrightarrow> n \<le> length buf \<and> out t' = out t @ take n buf"
    and write_failed: "t_write io t buf = (Failed e, t') \<Longrightarrow> \<exists>k. out t' = out t @ take k buf"
    and write_dropped: "t_write io t buf = (Dropped, t') \<Longrightarrow> \<exists>k. out t' = out t @ take k buf"
    and flush_quiet: "t_flush io t = (r, t') \<Longrightarrow> out t' = out t"
    and read_quiet: "t_read io t m = (q, t') \<Longrightarrow> out t' = out t"
begin

lemma write_all_out:
  "write_all io buf t = (r, t') \<Longrightarrow> \<exists>k. out t' = out t @ take k buf \<and> (r = Ok () \<longrightarrow> length buf \<le> k)"
proof (induction buf arbitrary: t r t' rule: length_induct)
  case (1 buf)
  show ?case
  proof (cases "buf = []")
    case True
    with "1.prems" show ?thesis by (subst (asm) write_all.simps) simp
  next
    case False
    obtain q t1 where q: "t_write io t buf = (q, t1)" by force
    show ?thesis
    proof (cases q)
      case (Done n)
      note w = write_done [OF q [unfolded Done]]
      show ?thesis
      proof (cases "n = 0")
        case True
        with "1.prems" False q Done w show ?thesis
          by (subst (asm) write_all.simps) (auto intro: exI [of _ 0])
      next
        case n: False
        then have "write_all io (drop n buf) t1 = (r, t')"
          using "1.prems" False q Done by (subst (asm) write_all.simps) simp
        then obtain k where k: "out t' = out t1 @ take k (drop n buf)" "r = Ok () \<longrightarrow> length (drop n buf) \<le> k"
          using "1.IH" n False by (metis length_drop diff_less length_greater_0_conv neq0_conv)
        then have "out t' = out t @ take (n + k) buf" using w by (simp add: take_add)
        then show ?thesis using k(2) by (intro exI [of _ "n + k"]) auto
      qed
    qed (use "1.prems" False q write_failed write_dropped in \<open>subst (asm) write_all.simps; auto\<close>)+
  qed
qed

lemma write_frame_out:
  assumes "write_frame io h p t = (r, t')"
  shows "\<exists>k. out t' = out t @ take k (h @ p) \<and> (r = Ok () \<longrightarrow> length (h @ p) \<le> k)"
proof -
  obtain r1 t1 where h: "write_all io h t = (r1, t1)" by force
  obtain k where k: "out t1 = out t @ take k h" "r1 = Ok () \<longrightarrow> length h \<le> k"
    using write_all_out [OF h] by blast
  show ?thesis
  proof (cases "r1 = Ok ()")
    case False
    then have "r \<noteq> Ok ()" "t' = t1" using assms h
      by (auto simp: write_frame_def and_then_def split: outcome.splits)
    moreover have "take k h = take (min k (length h)) (h @ p)" by (simp add: min_def)
    ultimately show ?thesis using k(1) by (metis)
  next
    case True
    then have o1: "out t1 = out t @ h" using k by simp
    obtain r2 t2 where p: "(if p \<noteq> [] then write_all io p t1 else (Ok (), t1)) = (r2, t2)" by force
    obtain j where j: "out t2 = out t1 @ take j p" "r2 = Ok () \<longrightarrow> length p \<le> j"
    proof (cases "p = []")
      case False
      then show ?thesis using write_all_out [of p t1 r2 t2] p that by auto
    qed (use p that in auto)
    have eq: "and_then (r2, t2) (\<lambda>_ t. case t_flush io t of (Done _, t') \<Rightarrow> (Ok (), t')
        | (Failed e, t') \<Rightarrow> (Err (Io e), t') | (Dropped, t') \<Rightarrow> (Cancelled, t')) = (r, t')"
      using assms by (simp add: write_frame_def h True and_then_def [of "(Ok (), t1)"] flip: p)
    have "out t' = out t2" "r = Ok () \<longrightarrow> r2 = Ok ()"
      using eq flush_quiet by (auto simp: and_then_def split: outcome.splits prod.splits polled.splits)
    then show ?thesis using o1 j by (intro exI [of _ "length h + j"]) auto
  qed
qed

lemma send_encoded_out:
  assumes "send_encoded io c a0 a1 payload cs w = (r, w')"
  shows "\<exists>k. out (transport w') = out (transport w) @
      take k (case encode (packet_new c a0 a1 payload) cs of Inr bytes \<Rightarrow> bytes | Inl _ \<Rightarrow> [])"
    and "r = Ok () \<Longrightarrow> \<exists>bytes. encode (packet_new c a0 a1 payload) cs = Inr bytes \<and>
      out (transport w') = out (transport w) @ bytes"
proof -
  have "(\<exists>k. out (transport w') = out (transport w) @
      take k (case encode (packet_new c a0 a1 payload) cs of Inr bytes \<Rightarrow> bytes | Inl _ \<Rightarrow> [])) \<and>
      (r = Ok () \<longrightarrow> (\<exists>bytes. encode (packet_new c a0 a1 payload) cs = Inr bytes \<and>
      out (transport w') = out (transport w) @ bytes))"
  proof (cases "desync w")
    case True
    then show ?thesis using assms
      by (auto simp: send_encoded_def check_desync_def and_then_def intro: exI [of _ 0])
  next
    case False
    show ?thesis
    proof (cases "encode_header c a0 a1 payload cs")
      case (Inl e)
      then show ?thesis using assms False
        by (auto simp: send_encoded_def check_desync_def and_then_def encode_def packet_new_def)
    next
      case (Inr h)
      obtain t1 where "write_frame io h payload (transport w) = (r, t1)" "transport w' = t1"
        using assms False Inr
        by (auto simp: send_encoded_def check_desync_def and_then_def send_frame_def Let_def split: prod.splits)
      then show ?thesis using write_frame_out [of h payload "transport w" r t1]
        by (auto simp: encode_def packet_new_def Inr)
    qed
  qed
  then show "\<exists>k. out (transport w') = out (transport w) @
      take k (case encode (packet_new c a0 a1 payload) cs of Inr bytes \<Rightarrow> bytes | Inl _ \<Rightarrow> [])"
    and "r = Ok () \<Longrightarrow> \<exists>bytes. encode (packet_new c a0 a1 payload) cs = Inr bytes \<and>
      out (transport w') = out (transport w) @ bytes" by blast+
qed

lemma reads_out: "reads io t x t' \<Longrightarrow> out t' = out t"
  by (induction rule: reads.induct) (auto dest: read_quiet)

end

text \<open>
  A source: what a read hands back is the front of what the peer has sent and has not been
  read yet, no longer than the buffer offered; a read that fails or is dropped loses
  nothing, which is the promise of a cancel-safe transport.
\<close>

locale source =
  fixes io :: "('t, 'e) transport_ops" and inp :: "'t \<Rightarrow> bytes"
  assumes read_done: "t_read io t n = (Done d, t') \<Longrightarrow> length d \<le> n \<and> inp t = d @ inp t'"
    and read_failed: "t_read io t n = (Failed e, t') \<Longrightarrow> inp t' = inp t"
    and read_dropped: "t_read io t n = (Dropped, t') \<Longrightarrow> inp t' = inp t"
    and write_still: "t_write io t buf = (q, t') \<Longrightarrow> inp t' = inp t"
    and flush_still: "t_flush io t = (r, t') \<Longrightarrow> inp t' = inp t"
begin

lemma reads_inp: "reads io t x t' \<Longrightarrow> inp t = x @ inp t'"
  by (induction rule: reads.induct) (auto dest: read_done read_failed read_dropped)

lemma recv_conserves:
  assumes "recv_pkt_or io interrupt race mp w = (r, w')"
  shows "\<exists>x. inp (transport w) = x @ inp (transport w') \<and> accounted r (recv_buf w @ x) (recv_buf w')"
proof -
  obtain t buf where l: "recv_loop io interrupt race mp (transport w) (recv_buf w) = (r, t, buf)"
    and w': "w' = w\<lparr>transport := t, recv_buf := buf\<rparr>"
    using assms by (auto simp: recv_pkt_or_def split: prod.splits)
  show ?thesis using recv_loop_reads [OF l] reads_inp w' by auto
qed

text \<open>A read never reaches past the room staged for it, so the buffer stays bounded.\<close>

lemma fill_staged_bound:
  "fill_staged io interrupt race t st = (res, st', t') \<Longrightarrow> staged_ok st \<Longrightarrow> length (committed st') \<le> length (st_buf st)"
proof (induction "spare st" arbitrary: t st rule: less_induct)
  case less
  have short: "length (committed st) \<le> length (st_buf st)" by (simp add: committed_def)
  show ?case
  proof (cases "interrupt t")
    case (Some v)
    then show ?thesis using less.prems(1) short by (subst (asm) fill_staged.simps) auto
  next
    case None
    obtain q t1 where q: "t_read io t (room st) = (q, t1)" by force
    show ?thesis
    proof (cases "\<exists>d. q = Done d \<and> d \<noteq> []")
      case False
      then have "st' = st"
        using less.prems(1) None q
        by (subst (asm) fill_staged.simps; auto split: polled.splits option.splits bool.splits if_splits)
      then show ?thesis using short by simp
    next
      case True
      then obtain d where d: "q = Done d" "d \<noteq> []" by blast
      have "length d \<le> spare st" using read_done [OF q [unfolded d(1)]] by (simp add: room_def)
      then have len: "length (st_buf (commit st d)) = length (st_buf st)"
        using less.prems(2) by (auto simp: commit_def spare_def staged_ok_def)
      show ?thesis
      proof (cases "wants_more (commit st d)")
        case False
        then have "st' = commit st d" using less.prems(1) None q d by (subst (asm) fill_staged.simps) simp
        then show ?thesis using len by (simp add: committed_def)
      next
        case True
        then have "fill_staged io interrupt race t1 (commit st d) = (res, st', t')"
          using less.prems(1) None q d by (subst (asm) fill_staged.simps) simp
        moreover have "spare (commit st d) < spare st"
          using spare_commit [of st d] True d(2) by (cases d) (auto simp: wants_more_def)
        ultimately show ?thesis using less.hyps [of "commit st d" t1] less.prems(2) len by simp
      qed
    qed
  qed
qed

lemma recv_loop_bound:
  assumes "recv_loop io interrupt race mp t buf = (r, t', buf')"
  shows "length buf' \<le> max (length buf) (recv_bound mp)"
  using assms
proof (induction "MESSAGE_SIZE + unat MAX_PAYLOAD - length buf" arbitrary: t buf rule: less_induct)
  case less
  obtain dr rest where d: "decode buf mp = (dr, rest)" by force
  show ?case
  proof (cases "dr = Inr None")
    case False
    then have "buf' = rest"
      using less.prems d by (subst (asm) recv_loop.simps) (auto split: sum.splits option.splits)
    then show ?thesis
      using False decode_sound [of buf mp _ rest] decode_error_rest [of buf mp _ rest] d
      by (cases dr) (auto split: if_splits)
  next
    case True
    note more = decode_needs_more [OF d [unfolded True]]
    obtain res st t1 where f: "fill_staged io interrupt race t (staged_new buf) = (res, st, t1)"
      by (metis prod.exhaust)
    have "length buf + read_limit buf \<le> recv_bound mp"
      using more(3) by (auto simp: read_limit_def recv_bound_def)
    then have b: "length (committed st) \<le> recv_bound mp"
      using fill_staged_bound [OF f staged_new_ok] by (simp add: staged_new_def)
    show ?thesis
    proof (cases "res = Filled")
      case False
      then have "buf' = committed st"
        using less.prems d True f by (subst (asm) recv_loop.simps) (auto split: filled.splits)
      then show ?thesis using b by simp
    next
      case filled: True
      then have rec: "recv_loop io interrupt race mp t1 (committed st) = (r, t', buf')"
        using less.prems d True f by (subst (asm) recv_loop.simps) simp
      have "length buf < length (committed st)" using fill_staged_reads [OF f] filled by auto
      moreover have "length buf < MESSAGE_SIZE + unat MAX_PAYLOAD"
        using more(2,3) by (auto simp: min_def word_le_nat_alt split: if_splits)
      ultimately show ?thesis using less.hyps [OF _ rec] b by simp
    qed
  qed
qed

lemma write_all_inp: "write_all io buf t = (r, t') \<Longrightarrow> inp t' = inp t"
proof (induction buf arbitrary: t r t' rule: length_induct)
  case (1 buf)
  show ?case
  proof (cases "buf \<noteq> [] \<and> (case t_write io t buf of (Done n, t1) \<Rightarrow> 0 < n | _ \<Rightarrow> False)")
    case True
    then obtain n t1 where n: "buf \<noteq> []" "0 < n" "t_write io t buf = (Done n, t1)"
      by (auto split: prod.splits polled.splits)
    then have "write_all io (drop n buf) t1 = (r, t')"
      using "1.prems" by (subst (asm) write_all.simps) simp
    moreover have "length (drop n buf) < length buf" using n by simp
    ultimately show ?thesis using "1.IH" write_still [OF n(3)] by metis
  next
    case False
    then show ?thesis using "1.prems" write_still
      by (subst (asm) write_all.simps) (auto split: if_splits prod.splits polled.splits)
  qed
qed

end

text \<open>
  A live source also hands over something whenever the peer has sent something, for as long
  as \<open>alive\<close> holds.
\<close>

locale live_source = source io inp for io :: "('t, 'e) transport_ops" and inp +
  fixes alive :: "'t \<Rightarrow> bool"
  assumes read_live: "alive t \<Longrightarrow> inp t \<noteq> [] \<Longrightarrow> 0 < n \<Longrightarrow>
    \<exists>d t'. t_read io t n = (Done d, t') \<and> d \<noteq> [] \<and> alive t'"
begin

lemma fill_staged_live:
  assumes "alive t" and "staged_ok st" and "0 < spare st"
    and "encode pkt cs = Inr w" and "committed st @ inp t = w @ rest" and "length (committed st) < length w"
  shows "\<exists>st' t'. fill_staged io never race t st = (Filled, st', t') \<and> alive t'"
  using assms
proof (induction "spare st" arbitrary: t st rule: less_induct)
  case less
  have pre: "committed st = take (length (committed st)) w"
    using cut_short(1) [OF less.prems(5,6)] .
  have miss: "0 < missing (committed st)"
    using missing_prefix(1) [OF less.prems(4,6)] pre by simp
  then have room: "0 < room st" using less.prems(3) by (simp add: room_def read_limit_def MIN_READ_def)
  have "inp t \<noteq> []" using cut_short(2) [OF less.prems(5,6)] .
  then obtain d t1 where d: "t_read io t (room st) = (Done d, t1)" "d \<noteq> []" "alive t1"
    using read_live [OF less.prems(1) _ room] by blast
  have inp: "inp t = d @ inp t1" using read_done [OF d(1)] by simp
  show ?case
  proof (cases "wants_more (commit st d)")
    case False
    then show ?thesis using d(2,3) by (subst fill_staged.simps) (simp add: never_def d(1))
  next
    case True
    have c: "committed (commit st d) = committed st @ d" using less.prems(2) by simp
    have eq: "committed (commit st d) @ inp t1 = w @ rest" using less.prems(5) inp c by simp
    have "length (committed (commit st d)) < length w"
    proof (rule ccontr)
      assume "\<not> ?thesis"
      then obtain x where "committed (commit st d) = w @ x"
        using cut_long(1) [OF eq] by (metis not_less)
      then show False using True missing_complete [OF less.prems(4)] by (simp add: wants_more_def)
    qed
    moreover have sp: "0 < spare (commit st d)" using True by (auto simp: wants_more_def)
    moreover have "spare (commit st d) < spare st"
      using spare_commit [of st d] sp d(2) by (cases d) auto
    ultimately have "\<exists>st' t'. fill_staged io never race t1 (commit st d) = (Filled, st', t') \<and> alive t'"
      using less.prems(2) by (intro less.hyps [OF _ d(3) _ _ less.prems(4) eq]) simp_all
    then show ?thesis using d(2) True by (subst fill_staged.simps) (simp add: never_def d(1))
  qed
qed

lemma recv_loop_live:
  assumes "alive t" and "encode pkt cs = Inr w" and "length (data pkt) \<le> unat mp"
    and "buf @ inp t = w @ rest"
  shows "\<exists>t' buf'. recv_loop io never race mp t buf = (Ok (Packet pkt), t', buf') \<and>
    buf' @ inp t' = rest \<and> alive t'"
  using assms
proof (induction "length w - length buf" arbitrary: t buf rule: less_induct)
  case less
  show ?case
  proof (cases "length w \<le> length buf")
    case True
    then obtain x where x: "buf = w @ x" "x @ inp t = rest"
      using cut_long [OF less.prems(4)] by blast
    have "recv_loop io never race mp t buf = (Ok (Packet pkt), t, x)"
      by (subst recv_loop.simps) (simp add: x(1) decode_encoded [OF less.prems(2,3)])
    then show ?thesis using x(2) less.prems(1) by blast
  next
    case False
    then have pre: "buf = take (length buf) w"
      using cut_short(1) [OF less.prems(4)] by simp
    then have dec: "decode buf mp = (Inr None, buf)"
      using decode_prefix [OF less.prems(2,3), of "length buf"] False by simp
    have "0 < spare (staged_new buf)"
      using missing_prefix(1) [OF less.prems(2), of "length buf"] pre False
      by (simp add: spare_def staged_new_def read_limit_def MIN_READ_def)
    then have "\<exists>st' t'. fill_staged io never race t (staged_new buf) = (Filled, st', t') \<and> alive t'"
      using False less.prems(4) by (intro fill_staged_live [OF less.prems(1) _ _ less.prems(2)]) simp_all
    then obtain st' t' where f: "fill_staged io never race t (staged_new buf) = (Filled, st', t')" "alive t'"
      by blast
    obtain x where x: "reads io t x t'" "committed st' = buf @ x" "x \<noteq> []"
      using fill_staged_reads [OF f(1)] by auto
    have "length w - length (committed st') < length w - length buf" using x False by (cases x) auto
    moreover have "committed st' @ inp t' = w @ rest"
      using reads_inp [OF x(1)] less.prems(4) x(2) by simp
    ultimately have "\<exists>t'' buf'. recv_loop io never race mp t' (committed st') = (Ok (Packet pkt), t'', buf') \<and>
        buf' @ inp t'' = rest \<and> alive t''"
      using less.hyps f(2) less.prems(2,3) by blast
    moreover have "recv_loop io never race mp t buf = recv_loop io never race mp t' (committed st')"
      by (subst recv_loop.simps) (simp add: dec f(1))
    ultimately show ?thesis by simp
  qed
qed

lemma recv_pkt_live:
  assumes "alive (transport s)" and "encode pkt cs = Inr w" and "length (data pkt) \<le> unat mp"
    and "recv_buf s @ inp (transport s) = w @ rest"
  shows "\<exists>s'. recv_pkt io mp s = (Ok pkt, s') \<and> recv_buf s' @ inp (transport s') = rest \<and> alive (transport s')"
  using recv_loop_live [OF assms, of True] by (auto simp: recv_pkt_def recv_pkt_or_def)

end

end
