(* ===== verification/Mock_Transport.thy ===== *)
theory Mock_Transport
  imports Wire
begin

text \<open>
  The scripted transport of \<open>base/mock.rs\<close>.  Its operations complete at once unless they
  are told to stall, and a stalled or parked call ends only by being dropped.  It is the
  model's own instance of the transport contracts: \<open>sink\<close>, \<open>source\<close> and \<open>live_source\<close>
  hold for it, so what is proved in them holds of the code running over this transport.
  The wakers (\<open>parked_read\<close>) carry no data and \<open>slow_reads\<close> only delays a read.
\<close>

record mock =
  inbound :: bytes
  writes :: "bytes list"
  stall_write :: "usize option"
  write_failure :: "error_kind option"
  failing_write :: "(usize \<times> error_kind) option"
  stall_close_to :: "u32 option"
  read_failure :: "error_kind option"
  parks_when_drained :: bool
  slow_reads :: usize
  cancel_safe :: bool
  drip :: usize

definition mock_new :: mock where
  "mock_new = \<lparr>inbound = [], writes = [], stall_write = None, write_failure = None, failing_write = None,
     stall_close_to = None, read_failure = None, parks_when_drained = False, slow_reads = 0,
     cancel_safe = True, drip = 0\<rparr>"

definition feed :: "packet \<Rightarrow> mock \<Rightarrow> mock option" where
  "feed pkt m = (case encode pkt Compute of
      Inr w \<Rightarrow> Some (m\<lparr>inbound := inbound m @ w\<rparr>)
    | Inl _ \<Rightarrow> None)"

definition pull :: "mock \<Rightarrow> usize \<Rightarrow> bytes \<times> mock" where
  "pull m len =
     (let cap = (if drip m = 0 then len else min len (drip m)); n = min cap (length (inbound m))
      in (take n (inbound m), m\<lparr>inbound := drop n (inbound m)\<rparr>))"

definition poll_pull :: "mock \<Rightarrow> usize \<Rightarrow> (error_kind, bytes) polled \<times> mock" where
  "poll_pull m len = (case read_failure m of
      Some kind \<Rightarrow> (Failed kind, m\<lparr>read_failure := None\<rparr>)
    | None \<Rightarrow>
        if inbound m = [] \<and> parks_when_drained m then (Dropped, m)
        else (case pull m len of (d, m') \<Rightarrow> (Done d, m')))"

definition mock_read :: "mock \<Rightarrow> usize \<Rightarrow> (error_kind, bytes) polled \<times> mock" where
  "mock_read m len = poll_pull (m\<lparr>slow_reads := slow_reads m - 1\<rparr>) len"

definition stalls_on :: "mock \<Rightarrow> bytes \<Rightarrow> bool" where
  "stalls_on m buf \<longleftrightarrow>
     stall_write m = Some (length (writes m)) \<or>
     (case stall_close_to m of
        Some remote \<Rightarrow> length buf = MESSAGE_SIZE \<and> u32_at buf 0 = command_code Close \<and> u32_at buf 8 = remote
      | None \<Rightarrow> False)"

definition push :: "mock \<Rightarrow> bytes \<Rightarrow> (error_kind, usize) polled \<times> mock" where
  "push m buf = (case write_failure m of
      Some kind \<Rightarrow> (Failed kind, m)
    | None \<Rightarrow>
        (let passed = (Done (length buf), m\<lparr>writes := writes m @ [buf]\<rparr>) in
         case failing_write m of
           Some (index, kind) \<Rightarrow>
             if index = length (writes m) then (Failed kind, m\<lparr>failing_write := None\<rparr>) else passed
         | None \<Rightarrow> passed))"

definition mock_write :: "mock \<Rightarrow> bytes \<Rightarrow> (error_kind, usize) polled \<times> mock" where
  "mock_write m buf = (if stalls_on m buf then (Dropped, m) else push m buf)"

definition mock_flush :: "mock \<Rightarrow> (error_kind, unit) polled \<times> mock" where
  "mock_flush m = (Done (), m)"

definition mock_io :: "(mock, error_kind) transport_ops" where
  "mock_io = \<lparr>t_read = mock_read, t_write = mock_write, t_flush = mock_flush, e_kind = (\<lambda>k. k),
     t_cancel_safe = cancel_safe\<rparr>"

definition sent_bytes :: "mock \<Rightarrow> bytes" where
  "sent_bytes m = concat (writes m)"

definition readable :: "mock \<Rightarrow> bool" where
  "readable m \<longleftrightarrow> read_failure m = None"

lemmas mock_defs = mock_io_def mock_read_def mock_write_def mock_flush_def poll_pull_def pull_def push_def
  Let_def

interpretation mock_sink: sink mock_io sent_bytes
  by unfold_locales
    (auto simp: mock_defs sent_bytes_def split: if_splits option.splits prod.splits intro: exI [of _ 0])

interpretation mock_source: live_source mock_io inbound readable
proof unfold_locales
  fix t :: mock and n :: usize
  assume "readable t" "inbound t \<noteq> []" "0 < n"
  then show "\<exists>d t'. t_read mock_io t n = (Done d, t') \<and> d \<noteq> [] \<and> readable t'"
    by (auto simp: mock_defs readable_def min_def)
qed (auto simp: mock_defs min_def split: if_splits option.splits prod.splits)

section \<open>Properties of any transport that keeps its contract\<close>

text \<open>Receiving several packets one after the other.\<close>

fun recv_all :: "('t, 'e) transport_ops \<Rightarrow> u32 \<Rightarrow> nat \<Rightarrow> ('t, 'z) wire_scheme
    \<Rightarrow> ('e, packet list) outcome \<times> ('t, 'z) wire_scheme" where
  "recv_all io mp 0 w = (Ok [], w)"
| "recv_all io mp (Suc n) w =
     and_then (recv_pkt io mp w) (\<lambda>p w. and_then (recv_all io mp n w) (\<lambda>ps w. (Ok (p # ps), w)))"

text \<open>
  C3: receiving returns, and returns the packets that were sent.  Over any transport that
  hands over what the peer sent, in whatever pieces it likes, a stream of encoded packets
  is received as exactly those packets in order, and the bytes behind them stay available.
\<close>

theorem recv_delivers_stream:
  assumes "live_source io inp alive" and "alive (transport s)"
    and "list_all2 (\<lambda>p w. \<exists>cs. encode p cs = Inr w) pkts ws"
    and "list_all (\<lambda>p. length (data p) \<le> unat mp) pkts"
    and "recv_buf s @ inp (transport s) = concat ws @ rest"
  shows "\<exists>s'. recv_all io mp (length pkts) s = (Ok pkts, s') \<and> recv_buf s' @ inp (transport s') = rest"
  using assms(2-5)
proof (induction pkts arbitrary: s ws)
  case (Cons p pkts)
  then obtain w ws' cs where ws: "ws = w # ws'" "encode p cs = Inr w"
    "list_all2 (\<lambda>p w. \<exists>cs. encode p cs = Inr w) pkts ws'"
    by (auto simp: list_all2_Cons1)
  then obtain s1 where s1: "recv_pkt io mp s = (Ok p, s1)" "recv_buf s1 @ inp (transport s1) = concat ws' @ rest"
    "alive (transport s1)"
    using live_source.recv_pkt_live [OF assms(1) Cons.prems(1) ws(2), of mp "concat ws' @ rest"] Cons.prems(3,4)
    by auto
  then obtain s' where "recv_all io mp (length pkts) s1 = (Ok pkts, s')" "recv_buf s' @ inp (transport s') = rest"
    using Cons.IH [OF s1(3) ws(3) _ s1(2)] Cons.prems(3) by auto
  then show ?case using s1(1) by (simp add: and_then_def)
qed simp

text \<open>Two packets on the scripted transport, handed over three bytes at a time.\<close>

definition sample_wire :: "bytes \<Rightarrow> mock wire" where
  "sample_wire pending = \<lparr>transport = mock_new\<lparr>inbound := pending, drip := 3\<rparr>, recv_buf = [], desync = False\<rparr>"

theorem recv_delivers_stream_witness:
  "\<exists>w s'. encode sample_packet Compute = Inr w \<and>
     recv_all mock_io 1024 2 (sample_wire (w @ w @ [1, 2])) = (Ok [sample_packet, sample_packet], s') \<and>
     recv_buf s' @ inbound (transport s') = [1, 2]"
proof -
  obtain w where w: "encode sample_packet Compute = Inr w" using sample_encoded by blast
  have "\<exists>s'. recv_all mock_io 1024 (length [sample_packet, sample_packet]) (sample_wire (w @ w @ [1, 2]))
      = (Ok [sample_packet, sample_packet], s') \<and> recv_buf s' @ inbound (transport s') = [1, 2]"
    by (rule recv_delivers_stream [OF mock_source.live_source_axioms, where ws = "[w, w]"])
      (use w in \<open>auto simp: sample_wire_def readable_def mock_new_def sample_packet_def\<close>)
  then show ?thesis using w by (auto simp: numeral_2_eq_2)
qed



text \<open>
  C16: the receive buffer is bounded.  However much the peer sends and however a receive
  ends, the buffer never grows beyond one header plus the larger of the negotiated payload
  and one minimum read.
\<close>

theorem recv_buffer_bounded:
  assumes "source io inp" and "recv_pkt_or io interrupt race mp w = (r, w')"
    and "length (recv_buf w) \<le> MESSAGE_SIZE + max MIN_READ (min (unat mp) (unat MAX_PAYLOAD))"
  shows "length (recv_buf w') \<le> MESSAGE_SIZE + max MIN_READ (min (unat mp) (unat MAX_PAYLOAD))"
proof -
  obtain t buf where l: "recv_loop io interrupt race mp (transport w) (recv_buf w) = (r, t, buf)"
    and w': "recv_buf w' = buf"
    using assms(2) by (auto simp: recv_pkt_or_def split: prod.splits)
  have "recv_bound mp = MESSAGE_SIZE + max MIN_READ (min (unat mp) (unat MAX_PAYLOAD))"
    by (auto simp: recv_bound_def min_def max_def word_le_nat_alt)
  then show ?thesis using source.recv_loop_bound [OF assms(1) l] assms(3) w' by simp
qed

theorem recv_buffer_bounded_witness:
  "\<exists>r w'. recv_pkt_or mock_io never True 1024 (sample_wire (replicate 9000 0)) = (r, w') \<and>
     length (recv_buf w') \<le> MESSAGE_SIZE + 4096"
proof -
  obtain r w' where r: "recv_pkt_or mock_io never True 1024 (sample_wire (replicate 9000 0)) = (r, w')" by force
  show ?thesis
    using recv_buffer_bounded [OF mock_source.source_axioms r] r by (simp add: sample_wire_def MIN_READ_def)
qed

text \<open>
  C5: a packet goes out whole or the connection knows.  Over any sink, sending on a
  desynchronized connection writes nothing and says so; a send that succeeds has put
  exactly the packet's encoding on the wire; and one that fails or is dropped after it has
  written anything leaves the connection marked desynchronized, unless the peer is gone.
\<close>

theorem send_pkt_whole_or_desync:
  assumes "sink io out" and "send_pkt io pkt cs w = (r, w')"
  shows "(desync w \<longrightarrow> r = Err Desynchronized \<and> w' = w) \<and>
    (r = Ok () \<longrightarrow> desync w' = desync w \<and>
       (\<exists>bytes. encode pkt cs = Inr bytes \<and> out (transport w') = out (transport w) @ bytes)) \<and>
    (out (transport w') \<noteq> out (transport w) \<longrightarrow>
       r = Ok () \<or> desync w' \<or> (\<exists>e. r = Err e \<and> connection_gone io e))"
proof -
  have enc: "send_encoded io (command pkt) (arg0 pkt) (arg1 pkt) (data pkt) cs w = (r, w')"
    using assms(2) by (simp add: send_pkt_def)
  have p: "packet_new (command pkt) (arg0 pkt) (arg1 pkt) (data pkt) = pkt" by (simp add: packet_new_def)
  have state: "desync w \<Longrightarrow> r = Err Desynchronized \<and> w' = w" "r = Ok () \<Longrightarrow> desync w' = desync w"
    "w' = w \<or> r = Ok () \<or> desync w' \<or> (\<exists>e. r = Err e \<and> connection_gone io e)"
    using enc
    by (auto simp: send_encoded_def check_desync_def and_then_def send_frame_def Let_def
        split: if_splits sum.splits prod.splits outcome.splits)
  then show ?thesis using sink.send_encoded_out(2) [OF assms(1) enc] p by auto
qed

theorem send_pkt_whole_or_desync_witness:
  "\<exists>r w'. send_pkt mock_io sample_packet Compute ((sample_wire [])\<lparr>transport := mock_new\<lparr>stall_write := Some 1\<rparr>\<rparr>) = (r, w') \<and>
     (sent_bytes (transport w') \<noteq> [] \<longrightarrow> r = Ok () \<or> desync w' \<or> (\<exists>e. r = Err e \<and> connection_gone mock_io e))"
proof -
  obtain r w' where r: "send_pkt mock_io sample_packet Compute ((sample_wire [])\<lparr>transport := mock_new\<lparr>stall_write := Some 1\<rparr>\<rparr>) = (r, w')"
    by force
  show ?thesis
    using send_pkt_whole_or_desync [OF mock_sink.sink_axioms r] r by (simp add: sent_bytes_def mock_new_def)
qed

end
