(* ===== verification/Send_Queue.thy ===== *)
theory Send_Queue
  imports Adb_Prelude "HOL-Library.FSet"
begin

text \<open>
  The queue of senders waiting for credit on one channel (\<open>base/send_queue.rs\<close>): each takes
  a numbered place, the place at \<open>head\<close> has the turn, and a sender may give its place up
  at any point.  The counters are \<open>u64\<close> in the code and natural numbers here (they count
  sends and do not come near the width).  The contract is the locale \<open>ticket_queue\<close>: a plain
  list of waiting places, of which the code's two counters and set of abandoned places are
  a representation.
\<close>

section \<open>The code\<close>

record send_queue =
  head :: nat
  tail :: nat
  gone :: "nat fset"
  sending :: usize

definition send_queue_default :: send_queue where
  "send_queue_default = \<lparr>head = 0, tail = 0, gone = {||}, sending = 0\<rparr>"

definition enqueue :: "send_queue \<Rightarrow> nat \<times> send_queue" where
  "enqueue q = (tail q, q\<lparr>tail := tail q + 1\<rparr>)"

definition turn :: "send_queue \<Rightarrow> nat" where
  "turn q = head q"

definition is_empty :: "send_queue \<Rightarrow> bool" where
  "is_empty q \<longleftrightarrow> head q = tail q"

definition is_sending :: "send_queue \<Rightarrow> bool" where
  "is_sending q \<longleftrightarrow> sending q > 0"

text \<open>The two loops: skip abandoned places from the front, and drop them from the back.\<close>

function skip_gone :: "nat \<Rightarrow> nat fset \<Rightarrow> nat \<times> nat fset" where
  "skip_gone h g = (if h |\<in>| g then skip_gone (h + 1) (g |-| {|h|}) else (h, g))"
  by pat_completeness auto
termination
proof (relation "measure (\<lambda>(h, g). fcard g)", simp)
  fix h :: nat and g assume "h |\<in>| g"
  then have "fcard (g |-| {|h|}) < fcard g" by (intro pfsubset_fcard_mono) auto
  then show "((h + 1, g |-| {|h|}), h, g) \<in> measure (\<lambda>(h, g). fcard g)" by simp
qed

declare skip_gone.simps [simp del]

fun trim_gone :: "nat \<Rightarrow> nat \<Rightarrow> nat fset \<Rightarrow> nat \<times> nat fset" where
  "trim_gone h 0 g = (0, g)"
| "trim_gone h (Suc t) g = (if Suc t > h \<and> t |\<in>| g then trim_gone h t (g |-| {|t|}) else (Suc t, g))"

definition advance :: "send_queue \<Rightarrow> send_queue" where
  "advance q = (case skip_gone (head q + 1) (gone q) of (h, g) \<Rightarrow> q\<lparr>head := h, gone := g\<rparr>)"

definition serve :: "send_queue \<Rightarrow> send_queue" where
  "serve q = advance (q\<lparr>sending := sending q + 1\<rparr>)"

text \<open>\<open>sending -= 1\<close> panics (or wraps) at zero: \<open>None\<close>.\<close>

definition finish :: "send_queue \<Rightarrow> send_queue option" where
  "finish q = (if sending q = 0 then None else Some (q\<lparr>sending := sending q - 1\<rparr>))"

definition leave :: "nat \<Rightarrow> send_queue \<Rightarrow> bool \<times> send_queue" where
  "leave place q =
     (if place = head q then (True, advance q)
      else if place + 1 = tail q then
        (case trim_gone (head q) place (gone q) of (t, g) \<Rightarrow> (False, q\<lparr>tail := t, gone := g\<rparr>))
      else if place > head q then (False, q\<lparr>gone := finsert place (gone q)\<rparr>)
      else (False, q))"

section \<open>The contract\<close>

text \<open>What a queue of tickets promises: \<open>places\<close> lists the places in the order they come up.\<close>

locale ticket_queue =
  fixes ok :: "'q \<Rightarrow> bool" and places :: "'q \<Rightarrow> nat list"
    and enq :: "'q \<Rightarrow> nat \<times> 'q" and srv :: "'q \<Rightarrow> 'q" and lv :: "nat \<Rightarrow> 'q \<Rightarrow> bool \<times> 'q"
  assumes places_sorted: "ok q \<Longrightarrow> sorted_wrt (<) (places q)"
    and enq_ok: "ok q \<Longrightarrow> enq q = (p, q') \<Longrightarrow> ok q' \<and> places q' = places q @ [p]"
    and srv_ok: "ok q \<Longrightarrow> places q \<noteq> [] \<Longrightarrow> ok (srv q) \<and> places (srv q) = tl (places q)"
    and lv_ok: "ok q \<Longrightarrow> p \<in> set (places q) \<Longrightarrow> lv p q = (mine, q') \<Longrightarrow>
      ok q' \<and> places q' = filter (\<lambda>x. x \<noteq> p) (places q) \<and> (mine \<longleftrightarrow> p = hd (places q))"
begin

text \<open>The places that come up before \<open>p\<close>; none of the operations adds one.\<close>

definition before :: "nat \<Rightarrow> 'q \<Rightarrow> nat list" where
  "before p q = takeWhile (\<lambda>x. x \<noteq> p) (places q)"

lemma before_enq: "ok q \<Longrightarrow> p \<in> set (places q) \<Longrightarrow> before p (snd (enq q)) = before p q"
  using enq_ok [of q "fst (enq q)" "snd (enq q)"] by (simp add: before_def takeWhile_append1)

lemma before_srv:
  assumes "ok q" and "p \<in> set (places q)" and "p \<noteq> hd (places q)"
  shows "p \<in> set (places (srv q))" and "length (before p q) = Suc (length (before p (srv q)))"
proof -
  obtain x xs where xs: "places q = x # xs" using assms(2) by (cases "places q") auto
  then have "places (srv q) = xs" using srv_ok [OF assms(1)] by simp
  then show "p \<in> set (places (srv q))" "length (before p q) = Suc (length (before p (srv q)))"
    using assms xs by (auto simp: before_def)
qed

lemma takeWhile_filter_shorter:
  "r \<noteq> p \<Longrightarrow> length (takeWhile (\<lambda>x. x \<noteq> p) (filter (\<lambda>x. x \<noteq> r) xs)) \<le> length (takeWhile (\<lambda>x. x \<noteq> p) xs)"
  by (induction xs) auto

lemma before_lv:
  assumes "ok q" and "r \<in> set (places q)" and "r \<noteq> p" and "p \<in> set (places q)"
  shows "p \<in> set (places (snd (lv r q)))" and "length (before p (snd (lv r q))) \<le> length (before p q)"
  using lv_ok [OF assms(1,2), of "fst (lv r q)" "snd (lv r q)"] assms(3,4)
  by (auto simp: before_def takeWhile_filter_shorter)

lemma turn_iff: "p \<in> set (places q) \<Longrightarrow> before p q = [] \<longleftrightarrow> p = hd (places q)"
  by (cases "places q") (auto simp: before_def)

end

section \<open>The code implements the contract\<close>

definition waiting :: "send_queue \<Rightarrow> nat list" where
  "waiting q = filter (\<lambda>p. p |\<notin>| gone q) [head q..<tail q]"

text \<open>Abandoned places lie strictly between the two ends, so both ends wait.\<close>

definition queue_ok :: "send_queue \<Rightarrow> bool" where
  "queue_ok q \<longleftrightarrow> head q \<le> tail q \<and> fBall (gone q) (\<lambda>p. head q < p \<and> p + 1 < tail q)"

lemma skip_gone_spec:
  assumes "skip_gone h g = (h', g')" and "fBall g (\<lambda>p. h \<le> p \<and> p + 1 < t)" and "h \<le> t"
  shows "h \<le> h' \<and> h' \<le> t \<and> fBall g' (\<lambda>p. h' < p \<and> p + 1 < t) \<and>
    filter (\<lambda>p. p |\<notin>| g') [h'..<t] = filter (\<lambda>p. p |\<notin>| g) [h..<t]"
  using assms
proof (induction h g arbitrary: h' g' rule: skip_gone.induct)
  case (1 h g)
  show ?case
  proof (cases "h |\<in>| g")
    case False
    then have "h' = h" "g' = g" using "1.prems"(1) by (subst (asm) skip_gone.simps; simp)+
    then show ?thesis using False "1.prems"(2,3) by (auto simp: order_le_less)
  next
    case True
    then have lt: "h + 1 < t" using "1.prems"(2) by auto
    have "skip_gone (h + 1) (g |-| {|h|}) = (h', g')"
      using "1.prems"(1) True by (subst (asm) skip_gone.simps) simp
    moreover have "h + 1 \<le> p \<and> p + 1 < t" if "p |\<in>| g |-| {|h|}" for p
    proof -
      have "p |\<in>| g" "p \<noteq> h" using that by auto
      then show ?thesis using "1.prems"(2) by fastforce
    qed
    ultimately have
      "h + 1 \<le> h' \<and> h' \<le> t \<and> fBall g' (\<lambda>p. h' < p \<and> p + 1 < t) \<and>
       filter (\<lambda>p. p |\<notin>| g') [h'..<t] = filter (\<lambda>p. p |\<notin>| g |-| {|h|}) [h + 1..<t]"
      using "1.IH" [OF True] lt by (meson fBallI order_less_imp_le)
    moreover have "filter (\<lambda>p. p |\<notin>| g |-| {|h|}) [h + 1..<t] = filter (\<lambda>p. p |\<notin>| g) [h + 1..<t]"
      by (rule filter_cong) auto
    moreover have "filter (\<lambda>p. p |\<notin>| g) [h..<t] = filter (\<lambda>p. p |\<notin>| g) [h + 1..<t]"
      using True lt by (simp add: upt_rec [of h t])
    ultimately show ?thesis by simp
  qed
qed

lemma trim_gone_spec:
  assumes "trim_gone h t g = (t', g')" and "fBall g (\<lambda>p. h < p \<and> p < t)" and "h < t"
  shows "h < t' \<and> fBall g' (\<lambda>p. h < p \<and> p + 1 < t') \<and>
    filter (\<lambda>p. p |\<notin>| g') [h..<t'] = filter (\<lambda>p. p |\<notin>| g) [h..<t]"
  using assms
proof (induction h t g arbitrary: t' g' rule: trim_gone.induct)
  case (2 h t g)
  show ?case
  proof (cases "t |\<in>| g")
    case False
    then have eq: "t' = Suc t" "g' = g" using "2.prems"(1) by simp_all
    have "h < p \<and> p + 1 < Suc t" if "p |\<in>| g" for p
    proof -
      have "p \<noteq> t" using False that by blast
      then show ?thesis using "2.prems"(2) that by fastforce
    qed
    then show ?thesis using "2.prems"(3) by (auto simp: eq)
  next
    case True
    then have ht: "h < t" using "2.prems"(2) by blast
    have rec: "trim_gone h t (g |-| {|t|}) = (t', g')" using "2.prems"(1) True ht by simp
    have "h < p \<and> p < t" if "p |\<in>| g |-| {|t|}" for p
    proof -
      have "p |\<in>| g" "p \<noteq> t" using that by auto
      then show ?thesis using "2.prems"(2) by fastforce
    qed
    then have "h < t' \<and> fBall g' (\<lambda>p. h < p \<and> p + 1 < t') \<and>
        filter (\<lambda>p. p |\<notin>| g') [h..<t'] = filter (\<lambda>p. p |\<notin>| g |-| {|t|}) [h..<t]"
      using "2.IH" [OF _ rec _ ht] True ht by (meson fBallI less_SucI)
    moreover have "filter (\<lambda>p. p |\<notin>| g |-| {|t|}) [h..<t] = filter (\<lambda>p. p |\<notin>| g) [h..<t]"
      by (rule filter_cong) auto
    ultimately show ?thesis using True ht by simp
  qed
qed simp

lemma enqueue_ok: "queue_ok q \<Longrightarrow> queue_ok (snd (enqueue q)) \<and> waiting (snd (enqueue q)) = waiting q @ [fst (enqueue q)]"
  by (auto simp: queue_ok_def enqueue_def waiting_def)

lemma waiting_hd: "queue_ok q \<Longrightarrow> head q < tail q \<Longrightarrow> waiting q = head q # filter (\<lambda>p. p |\<notin>| gone q) [head q + 1..<tail q]"
  by (auto simp: waiting_def queue_ok_def upt_rec [of "head q"])

lemma waiting_nonempty: "queue_ok q \<Longrightarrow> waiting q \<noteq> [] \<longleftrightarrow> head q < tail q"
  by (cases "head q < tail q") (auto simp: waiting_hd, auto simp: waiting_def)

lemma advance_ok:
  assumes "queue_ok q" and "head q < tail q"
  shows "queue_ok (advance q) \<and> waiting (advance q) = tl (waiting q)"
proof -
  obtain h g where hg: "skip_gone (head q + 1) (gone q) = (h, g)" by force
  have "fBall (gone q) (\<lambda>p. head q + 1 \<le> p \<and> p + 1 < tail q)" using assms(1) by (auto simp: queue_ok_def)
  note spec = skip_gone_spec [OF hg this]
  have adv: "advance q = q\<lparr>head := h, gone := g\<rparr>" unfolding advance_def hg by simp
  have "waiting (advance q) = filter (\<lambda>p. p |\<notin>| gone q) [head q + 1..<tail q]"
    using spec assms(2) by (simp add: adv waiting_def)
  moreover have "queue_ok (advance q)" using spec assms(2) by (auto simp: adv queue_ok_def)
  ultimately show ?thesis using waiting_hd [OF assms] by simp
qed

lemma queue_ok_sending [simp]: "queue_ok (q\<lparr>sending := n\<rparr>) = queue_ok q"
  by (simp add: queue_ok_def)

lemma waiting_sending [simp]: "waiting (q\<lparr>sending := n\<rparr>) = waiting q"
  by (simp add: waiting_def)

lemma leave_ok:
  assumes ok: "queue_ok q" and p: "p \<in> set (waiting q)"
  shows "queue_ok (snd (leave p q)) \<and> waiting (snd (leave p q)) = filter (\<lambda>x. x \<noteq> p) (waiting q) \<and>
    (fst (leave p q) \<longleftrightarrow> p = hd (waiting q))"
proof -
  have ht: "head q \<le> p" "p < tail q" "p |\<notin>| gone q" using p by (auto simp: waiting_def)
  then have lt: "head q < tail q" by simp
  have hd: "hd (waiting q) = head q" using waiting_hd [OF ok lt] by simp
  have dist: "filter (\<lambda>x. x \<noteq> p) xs = filter (\<lambda>x. x |\<notin>| {|p|}) xs" for xs :: "nat list" by simp
  consider "p = head q" | "head q < p" "p + 1 = tail q" | "head q < p" "p + 1 < tail q" using ht by linarith
  then show ?thesis
  proof cases
    case 1
    have "filter (\<lambda>x. x \<noteq> p) (waiting q) = tl (waiting q)"
      using 1 by (auto simp: waiting_hd [OF ok lt] intro!: filter_cong)
    then show ?thesis using 1 hd advance_ok [OF ok lt] by (simp add: leave_def)
  next
    case 2
    obtain t g where tg: "trim_gone (head q) p (gone q) = (t, g)" by force
    have "fBall (gone q) (\<lambda>x. head q < x \<and> x < p)" using ok 2 by (auto simp: queue_ok_def)
    from trim_gone_spec [OF tg this 2(1)] have
      *: "head q < t \<and> fBall g (\<lambda>x. head q < x \<and> x + 1 < t) \<and>
        filter (\<lambda>x. x |\<notin>| g) [head q..<t] = filter (\<lambda>x. x |\<notin>| gone q) [head q..<p]" .
    have "[head q..<tail q] = [head q..<p] @ [p]" using 2 by (simp flip: 2(2))
    then have "filter (\<lambda>x. x \<noteq> p) (waiting q) = filter (\<lambda>x. x |\<notin>| gone q) [head q..<p]"
      by (auto simp: waiting_def intro!: filter_cong)
    then show ?thesis using 2 hd * by (auto simp: leave_def tg queue_ok_def waiting_def)
  next
    case 3
    then show ?thesis using ok hd by (auto simp: leave_def queue_ok_def waiting_def intro!: filter_cong)
  qed
qed

interpretation tickets: ticket_queue queue_ok waiting enqueue serve leave
proof unfold_locales
  fix q :: send_queue assume ok: "queue_ok q"
  show "sorted_wrt (<) (waiting q)" by (simp add: waiting_def sorted_wrt_filter)
  show "waiting q \<noteq> [] \<Longrightarrow> queue_ok (serve q) \<and> waiting (serve q) = tl (waiting q)"
    using ok advance_ok [of "q\<lparr>sending := sending q + 1\<rparr>"] by (simp add: serve_def waiting_nonempty)
next
  fix q q' :: send_queue and p assume "queue_ok q" "enqueue q = (p, q')"
  then show "queue_ok q' \<and> waiting q' = waiting q @ [p]" using enqueue_ok [of q] by simp
next
  fix q q' :: send_queue and p mine assume "queue_ok q" "p \<in> set (waiting q)" "leave p q = (mine, q')"
  then show "queue_ok q' \<and> waiting q' = filter (\<lambda>x. x \<noteq> p) (waiting q) \<and> (mine \<longleftrightarrow> p = hd (waiting q))"
    using leave_ok [of q p] by simp
qed

section \<open>Runs\<close>

datatype ticket_op = Enqueue | Serve | Leave nat

fun queue_step :: "ticket_op \<Rightarrow> send_queue \<Rightarrow> send_queue" where
  "queue_step Enqueue q = snd (enqueue q)"
| "queue_step Serve q = serve q"
| "queue_step (Leave p) q = snd (leave p q)"

text \<open>What the clients do: serve only a waiting place, give up only a place they hold.\<close>

fun queue_legal :: "ticket_op \<Rightarrow> send_queue \<Rightarrow> bool" where
  "queue_legal Enqueue q \<longleftrightarrow> True"
| "queue_legal Serve q \<longleftrightarrow> \<not> is_empty q"
| "queue_legal (Leave p) q \<longleftrightarrow> p \<in> set (waiting q)"

fun queue_run :: "ticket_op list \<Rightarrow> send_queue \<Rightarrow> send_queue option" where
  "queue_run [] q = Some q"
| "queue_run (a # as) q = (if queue_legal a q then queue_run as (queue_step a q) else None)"

text \<open>The same run with the holder of place \<open>p\<close> waiting throughout.\<close>

fun held_throughout :: "nat \<Rightarrow> ticket_op list \<Rightarrow> send_queue \<Rightarrow> bool" where
  "held_throughout p [] q \<longleftrightarrow> p \<in> set (waiting q)"
| "held_throughout p (a # as) q \<longleftrightarrow> p \<in> set (waiting q) \<and> queue_legal a q \<and> a \<noteq> Leave p \<and>
     held_throughout p as (queue_step a q)"

definition ahead :: "nat \<Rightarrow> send_queue \<Rightarrow> nat" where
  "ahead p q = length (takeWhile (\<lambda>x. x \<noteq> p) (waiting q))"

lemma is_empty_waiting: "queue_ok q \<Longrightarrow> is_empty q \<longleftrightarrow> waiting q = []"
  using waiting_nonempty [of q] by (auto simp: is_empty_def queue_ok_def)

lemma queue_step_ok: "queue_ok q \<Longrightarrow> queue_legal a q \<Longrightarrow> queue_ok (queue_step a q)"
  using enqueue_ok [of q] tickets.srv_ok [of q] leave_ok [of q]
  by (cases a) (auto simp: is_empty_waiting)

lemma queue_run_ok: "queue_run as q = Some q' \<Longrightarrow> queue_ok q \<Longrightarrow> queue_ok q'"
  by (induction as q rule: queue_run.induct) (auto split: if_splits intro: queue_step_ok)

lemma queue_default_ok [simp]: "queue_ok send_queue_default"
  by (simp add: queue_ok_def send_queue_default_def)

lemma ahead_before: "ahead p q = length (tickets.before p q)"
  by (simp add: ahead_def tickets.before_def)

lemma ahead_step:
  assumes "queue_ok q" and "queue_legal a q" and "a \<noteq> Leave p"
    and "p \<in> set (waiting q)" and "p \<in> set (waiting (queue_step a q))"
  shows "ahead p (queue_step a q) + (if a = Serve then 1 else 0) \<le> ahead p q"
proof (cases a)
  case Serve
  have "p \<noteq> hd (waiting q)"
  proof
    assume h: "p = hd (waiting q)"
    obtain xs where xs: "waiting q = p # xs" using assms(4) h by (cases "waiting q") auto
    then have "p \<in> set xs" using assms(1,5) Serve tickets.srv_ok [OF assms(1)] by simp
    then show False using tickets.places_sorted [OF assms(1)] xs by auto
  qed
  then show ?thesis using tickets.before_srv(2) [OF assms(1,4)] Serve by (simp add: ahead_before)
qed (use assms tickets.before_enq [of q p] tickets.before_lv [of q _ p] in \<open>auto simp: ahead_before\<close>)

lemma turn_hd: "queue_ok q \<Longrightarrow> waiting q \<noteq> [] \<Longrightarrow> turn q = hd (waiting q)"
  by (simp add: turn_def waiting_hd waiting_nonempty)

section \<open>Properties\<close>

text \<open>
  C24: the two counters and the set of abandoned places represent a first-in first-out
  list.  After any legal run from an empty queue, the turn belongs to the head of the
  list, taking a place appends it, serving removes the head, and giving up a place removes
  exactly that place and reports whether it had the turn.
\<close>

theorem send_queue_refines_fifo:
  assumes "queue_run as send_queue_default = Some q"
  shows "sorted_wrt (<) (waiting q) \<and> (is_empty q \<longleftrightarrow> waiting q = []) \<and>
    waiting (snd (enqueue q)) = waiting q @ [fst (enqueue q)] \<and>
    (waiting q \<noteq> [] \<longrightarrow> turn q = hd (waiting q) \<and> waiting (serve q) = tl (waiting q)) \<and>
    (\<forall>p \<in> set (waiting q). waiting (snd (leave p q)) = filter (\<lambda>x. x \<noteq> p) (waiting q) \<and>
      (fst (leave p q) \<longleftrightarrow> p = turn q))"
proof -
  have ok: "queue_ok q" using queue_run_ok [OF assms] by simp
  have "fst (leave p q) \<longleftrightarrow> p = turn q" if "p \<in> set (waiting q)" for p
    using leave_ok [OF ok that] turn_hd [OF ok] that by (metis empty_iff empty_set)
  then show ?thesis
    using tickets.places_sorted [OF ok] is_empty_waiting [OF ok] turn_hd [OF ok] enqueue_ok [OF ok]
      tickets.srv_ok [OF ok] leave_ok [OF ok] by blast
qed

theorem send_queue_refines_fifo_witness:
  "\<exists>q. queue_run [Enqueue, Enqueue, Enqueue, Leave 1] send_queue_default = Some q \<and>
     waiting q = [0, 2] \<and> waiting (serve q) = [2] \<and> waiting (snd (leave 2 q)) = [0] \<and> \<not> fst (leave 2 q)"
proof -
  define q where "q = \<lparr>head = 0, tail = 3, gone = {|1|}, sending = 0\<rparr>"
  have run: "queue_run [Enqueue, Enqueue, Enqueue, Leave 1] send_queue_default = Some q"
    unfolding q_def by code_simp
  have w: "waiting q = [0, 2]" unfolding q_def by code_simp
  show ?thesis using send_queue_refines_fifo [OF run] run w by (auto simp: turn_def q_def)
qed

text \<open>
  C25: no waiting sender starves.  While the holder of a place keeps waiting, whatever the
  others do, the number of places ahead of it never grows and drops by one with every send
  that is served; it has the turn exactly when none is left.
\<close>

theorem send_queue_bounded_wait:
  assumes "queue_run before send_queue_default = Some q" and "held_throughout p as q"
  shows "\<exists>q'. queue_run as q = Some q' \<and> ahead p q' + count_list as Serve \<le> ahead p q \<and>
    (ahead p q' = 0 \<longleftrightarrow> turn q' = p)"
proof -
  have "queue_ok q" using queue_run_ok [OF assms(1)] by simp
  then show ?thesis using assms(2)
  proof (induction as arbitrary: q)
    case Nil
    then have "waiting q \<noteq> []" by auto
    then show ?case
      using Nil turn_hd [of q] tickets.turn_iff [of p q] by (auto simp: ahead_before)
  next
    case (Cons a as)
    then have p: "p \<in> set (waiting (queue_step a q))" by (cases as) auto
    obtain q' where "queue_run as (queue_step a q) = Some q'"
      "ahead p q' + count_list as Serve \<le> ahead p (queue_step a q)" "ahead p q' = 0 \<longleftrightarrow> turn q' = p"
      using Cons.IH [of "queue_step a q"] Cons.prems queue_step_ok [of q a] by auto
    then show ?case using ahead_step [of q a p] Cons.prems p by auto
  qed
qed

theorem send_queue_bounded_wait_witness:
  "\<exists>q q'. queue_run [Enqueue, Enqueue, Enqueue] send_queue_default = Some q \<and> ahead 2 q = 2 \<and>
     queue_run [Serve, Enqueue, Serve] q = Some q' \<and> ahead 2 q' + 2 \<le> 2 \<and> turn q' = 2"
proof -
  define q where "q = \<lparr>head = 0, tail = 3, gone = {||}, sending = 0\<rparr>"
  have run: "queue_run [Enqueue, Enqueue, Enqueue] send_queue_default = Some q"
    unfolding q_def by code_simp
  have held: "held_throughout 2 [Serve, Enqueue, Serve] q" unfolding q_def by code_simp
  have two: "ahead 2 q = 2" unfolding q_def by code_simp
  from send_queue_bounded_wait [OF run held] obtain q'
    where "queue_run [Serve, Enqueue, Serve] q = Some q'" "ahead 2 q' + 2 \<le> 2" "ahead 2 q' = 0 \<longleftrightarrow> turn q' = 2"
    unfolding two by auto
  then show ?thesis using run two by auto
qed

end
