(* ===== verification/Channel_Slot.thy ===== *)
theory Channel_Slot
  imports Wire Send_Queue
begin

text \<open>
  The state of one channel and its flow control (\<open>base/slot.rs\<close>): the receive buffer, what
  of it the device has been acknowledged for, and what the host may still send.  A result
  \<open>Inl e\<close> or \<open>None\<close> of an operation that returns a slot leaves the slot as it was, as the
  early return does in the code.
\<close>

section \<open>The code\<close>

definition parse_ready_credit :: "bytes \<Rightarrow> protocol_error + u32" where
  "parse_ready_credit payload = (if length payload \<ge> 4 then Inr (u32_at payload 0) else Inl ShortReadyPayload)"

datatype ack_decision = Now pending_ack | Hold

datatype channel_fault = RxOverflow | ProtocolFault protocol_error

fun fault_error :: "channel_fault \<Rightarrow> 'e error" where
  "fault_error RxOverflow = ChannelRxOverflow"
| "fault_error (ProtocolFault e) = Protocol e"

datatype channel_state = OpeningState | OpenState | ClosedState

record channel_slot =
  slot_local :: u32
  slot_remote :: "u32 option"
  slot_state :: channel_state
  policy :: rx_policy
  rx_buf :: bytes
  wrte_acked :: bool
  send_budget :: int
  unacked :: usize
  settled :: usize
  send_queue :: send_queue
  failed :: "channel_fault option"

definition slot_opening :: "u32 \<Rightarrow> rx_policy \<Rightarrow> channel_slot" where
  "slot_opening local pol = \<lparr>slot_local = local, slot_remote = None, slot_state = OpeningState, policy = pol,
     rx_buf = [], wrte_acked = True, send_budget = 0, unacked = 0, settled = 0,
     send_queue = send_queue_default, failed = None\<rparr>"

definition slot_accepted :: "channel_ids \<Rightarrow> u32 \<Rightarrow> rx_policy \<Rightarrow> channel_slot" where
  "slot_accepted ids credit pol =
     (let slot = (slot_opening (ids_local ids) pol)\<lparr>slot_remote := Some (ids_remote ids), slot_state := OpenState\<rparr>
      in if policy_ack pol = Delayed then slot\<lparr>send_budget := uint credit\<rparr> else slot)"

definition is_failed :: "channel_slot \<Rightarrow> bool" where
  "is_failed s \<longleftrightarrow> failed s \<noteq> None"

definition slot_ids :: "channel_slot \<Rightarrow> channel_ids option" where
  "slot_ids s = map_option (\<lambda>r. \<lparr>ids_local = slot_local s, ids_remote = r\<rparr>) (slot_remote s)"

definition is_closed :: "channel_slot \<Rightarrow> bool" where
  "is_closed s \<longleftrightarrow> slot_state s = ClosedState"

definition closed_error :: "channel_slot \<Rightarrow> 'e error" where
  "closed_error s = (case failed s of None \<Rightarrow> ChannelClosed | Some f \<Rightarrow> fault_error f)"

definition accept_open_ready :: "u32 \<Rightarrow> bytes \<Rightarrow> channel_slot \<Rightarrow> protocol_error + channel_slot" where
  "accept_open_ready remote payload s =
     (let open = (\<lambda>s. Inr (s\<lparr>slot_remote := Some remote, slot_state := OpenState\<rparr>)) in
      if policy_ack (policy s) = Delayed then
        (case parse_ready_credit payload of
           Inl e \<Rightarrow> Inl e
         | Inr credit \<Rightarrow> open (s\<lparr>send_budget := uint credit\<rparr>))
      else open s)"

definition apply_ready :: "bytes \<Rightarrow> channel_slot \<Rightarrow> protocol_error + channel_slot" where
  "apply_ready payload s = (case policy_ack (policy s) of
      Delayed \<Rightarrow>
        (case parse_ready_credit payload of
           Inl e \<Rightarrow> Inl e
         | Inr credit \<Rightarrow> Inr (s\<lparr>send_budget := i64_wrap (send_budget s + uint credit)\<rparr>))
    | Classic \<Rightarrow> Inr (s\<lparr>wrte_acked := True\<rparr>))"

definition held :: "channel_slot \<Rightarrow> usize" where
  "held s = length (rx_buf s) - settled s"

definition push_rx :: "bytes \<Rightarrow> channel_slot \<Rightarrow> channel_slot option" where
  "push_rx payload s =
     (if saturating_add (held s) (length payload) > policy_cap (policy s) then None
      else Some (s\<lparr>rx_buf := rx_buf s @ payload\<rparr>))"

definition slot_ack :: "usize \<Rightarrow> channel_slot \<Rightarrow> pending_ack option" where
  "slot_ack len s = map_option (\<lambda>ids. \<lparr>ack_ids = ids, ack_len = len\<rparr>) (slot_ids s)"

definition apply_write :: "bytes \<Rightarrow> channel_slot \<Rightarrow> (ack_decision \<times> channel_slot) option" where
  "apply_write payload s = (case push_rx payload s of
      None \<Rightarrow> None
    | Some s \<Rightarrow>
        let s = s\<lparr>unacked := saturating_add (unacked s) (length payload)\<rparr> in
        if policy_ack (policy s) = Classic \<and> held s < policy_watermark (policy s) then
          (case slot_ack (length payload) s of
             Some a \<Rightarrow> Some (Now a, s\<lparr>unacked := 0\<rparr>)
           | None \<Rightarrow> Some (Hold, s))
        else Some (Hold, s))"

definition deliver :: "usize \<Rightarrow> channel_slot \<Rightarrow> pending_ack option \<times> channel_slot" where
  "deliver taken s =
     (if policy_ack (policy s) = Delayed then
        ((case slot_ack taken s of Some a \<Rightarrow> if ack_len a > 0 then Some a else None | None \<Rightarrow> None), s)
      else if length (rx_buf s) \<ge> policy_watermark (policy s) then (None, s)
      else case slot_ack (unacked s) s of
        None \<Rightarrow> (None, s)
      | Some a \<Rightarrow> (Some a, s\<lparr>unacked := 0\<rparr>))"

definition ack_len_of :: "usize \<Rightarrow> usize \<Rightarrow> channel_slot \<Rightarrow> usize option" where
  "ack_len_of n remaining s =
     (if unacked s = 0 then None
      else case policy_ack (policy s) of
        Delayed \<Rightarrow> let len = min n (unacked s) in if len > 0 then Some len else None
      | Classic \<Rightarrow> if remaining < policy_watermark (policy s) then Some (unacked s) else None)"

definition has_data :: "channel_slot \<Rightarrow> bool" where
  "has_data s \<longleftrightarrow> slot_remote s \<noteq> None \<and> rx_buf s \<noteq> []"

definition settle_take :: "usize \<Rightarrow> channel_slot \<Rightarrow> pending_ack option \<times> channel_slot" where
  "settle_take want s = (case slot_ids s of
      None \<Rightarrow> (None, s)
    | Some ids \<Rightarrow>
        if settled s \<noteq> 0 then (None, s)
        else let n = min want (length (rx_buf s)) in
          (case ack_len_of n (length (rx_buf s) - n) s of
             None \<Rightarrow> (None, s)
           | Some len \<Rightarrow> (Some \<lparr>ack_ids = ids, ack_len = len\<rparr>, s\<lparr>unacked := unacked s - len, settled := n\<rparr>)))"

text \<open>Taking into a buffer of \<open>len\<close> bytes hands the bytes over.\<close>

definition take_buffered :: "usize \<Rightarrow> channel_slot \<Rightarrow> ('e error + bytes option) \<times> channel_slot" where
  "take_buffered len s =
     (if \<not> has_data s then (if is_closed s then (Inl (closed_error s), s) else (Inr None, s))
      else let ready = (if settled s = 0 then length (rx_buf s) else settled s); n = min len ready in
        (Inr (Some (take n (rx_buf s))),
         s\<lparr>rx_buf := drop n (rx_buf s), settled := settled s - min n (settled s)\<rparr>))"

definition apply_close :: "channel_slot \<Rightarrow> channel_slot" where
  "apply_close s = s\<lparr>slot_state := ClosedState, unacked := 0\<rparr>"

definition budget :: "channel_slot \<Rightarrow> usize option" where
  "budget s = (case policy_ack (policy s) of
      Delayed \<Rightarrow> if send_budget s > 0 then Some (nat (send_budget s)) else None
    | Classic \<Rightarrow> if wrte_acked s then Some usize_max else None)"

definition spend :: "usize \<Rightarrow> channel_slot \<Rightarrow> channel_slot" where
  "spend n s = (case policy_ack (policy s) of
      Delayed \<Rightarrow> s\<lparr>send_budget := i64_wrap (send_budget s - i64_wrap (int n))\<rparr>
    | Classic \<Rightarrow> s\<lparr>wrte_acked := False\<rparr>)"

definition take_acks :: "usize \<Rightarrow> channel_slot \<Rightarrow> bool" where
  "take_acks want s =
     (if \<not> has_data s \<or> settled s > 0 then False
      else let n = min want (length (rx_buf s)) in ack_len_of n (length (rx_buf s) - n) s \<noteq> None)"

definition try_reserve_send :: "usize \<Rightarrow> channel_slot \<Rightarrow> usize option \<times> channel_slot" where
  "try_reserve_send want s = (case budget s of
      None \<Rightarrow> (None, s)
    | Some b \<Rightarrow> let n = min b want in (Some n, spend n s))"

definition refund :: "usize \<Rightarrow> channel_slot \<Rightarrow> channel_slot" where
  "refund n s = (case policy_ack (policy s) of
      Delayed \<Rightarrow> s\<lparr>send_budget := i64_wrap (send_budget s + i64_wrap (int n))\<rparr>
    | Classic \<Rightarrow> s\<lparr>wrte_acked := True\<rparr>)"

definition slot_fail :: "channel_fault \<Rightarrow> channel_slot \<Rightarrow> channel_slot" where
  "slot_fail fault s = s\<lparr>failed := Some fault, slot_state := ClosedState, unacked := 0\<rparr>"

lemmas slot_op_defs = accept_open_ready_def apply_ready_def push_rx_def apply_write_def deliver_def
  settle_take_def take_buffered_def apply_close_def spend_def try_reserve_send_def refund_def slot_fail_def
  ack_len_of_def slot_ack_def

section \<open>Every operation keeps the slot well formed\<close>

text \<open>
  The subtractions of the code (\<open>len - settled\<close>, \<open>unacked - len\<close>, \<open>settled - n\<close>) never
  underflow, what is held stays within the cap (if there is one: \<open>usize::MAX\<close> is none), and
  the budget stays an \<open>i64\<close>.
\<close>

definition slot_ok :: "channel_slot \<Rightarrow> bool" where
  "slot_ok s \<longleftrightarrow> settled s \<le> length (rx_buf s) \<and>
     (policy_cap (policy s) < usize_max \<longrightarrow> held s \<le> policy_cap (policy s)) \<and>
     - (2 ^ 63) \<le> send_budget s \<and> send_budget s < 2 ^ 63"

datatype slot_op = OpenReady u32 bytes | ReadyOp bytes | WriteOp bytes | DeliverOp usize | SettleOp usize
  | TakeOp usize | CloseOp | SpendOp usize | ReserveOp usize | RefundOp usize | FailOp channel_fault

fun slot_step :: "slot_op \<Rightarrow> channel_slot \<Rightarrow> channel_slot" where
  "slot_step (OpenReady r p) s = (case accept_open_ready r p s of Inr s' \<Rightarrow> s' | Inl _ \<Rightarrow> s)"
| "slot_step (ReadyOp p) s = (case apply_ready p s of Inr s' \<Rightarrow> s' | Inl _ \<Rightarrow> s)"
| "slot_step (WriteOp p) s = (case apply_write p s of Some (_, s') \<Rightarrow> s' | None \<Rightarrow> s)"
| "slot_step (DeliverOp n) s = snd (deliver n s)"
| "slot_step (SettleOp n) s = snd (settle_take n s)"
| "slot_step (TakeOp n) s = snd (take_buffered n s :: (unit error + bytes option) \<times> channel_slot)"
| "slot_step CloseOp s = apply_close s"
| "slot_step (SpendOp n) s = spend n s"
| "slot_step (ReserveOp n) s = snd (try_reserve_send n s)"
| "slot_step (RefundOp n) s = refund n s"
| "slot_step (FailOp f) s = slot_fail f s"

lemma uint_u32_i64 [simp]: "- 9223372036854775808 \<le> uint (c :: u32)" "uint (c :: u32) < 9223372036854775808"
proof -
  have "uint c < 2 ^ 32" using uint_bounded [of c] by simp
  then show "uint c < 9223372036854775808" by simp
  have "0 \<le> uint c" by simp
  then show "- 9223372036854775808 \<le> uint c" by linarith
qed

lemma i64_wrap_bounds [simp]: "- 9223372036854775808 \<le> i64_wrap x" "i64_wrap x < 9223372036854775808"
  using i64_wrap_range [of x] by simp_all

lemma slot_opening_ok [simp]: "slot_ok (slot_opening local pol)"
  by (simp add: slot_ok_def slot_opening_def held_def)

lemma slot_accepted_ok [simp]: "slot_ok (slot_accepted ids credit pol)"
  by (simp add: slot_ok_def slot_accepted_def slot_opening_def held_def Let_def)

lemma slot_step_ok: "slot_ok s \<Longrightarrow> slot_ok (slot_step a s)"
proof (cases a)
  case (WriteOp p)
  assume "slot_ok s"
  then show ?thesis
    using WriteOp
    by (auto simp: slot_ok_def slot_op_defs held_def Let_def saturating_add_def split: option.splits if_splits)
qed (auto simp: slot_ok_def slot_op_defs held_def Let_def min_def
    split: option.splits if_splits sum.splits ack_mode.splits)

lemma slot_step_fixed: "slot_local (slot_step a s) = slot_local s" "policy (slot_step a s) = policy s"
  by (cases a; auto simp: slot_op_defs Let_def split: option.splits if_splits sum.splits ack_mode.splits)+

lemma slot_steps_ok: "slot_ok s \<Longrightarrow> slot_ok (fold slot_step ops s)"
  by (induction ops arbitrary: s) (auto intro: slot_step_ok)

lemma slot_steps_fixed: "slot_local (fold slot_step ops s) = slot_local s" "policy (fold slot_step ops s) = policy s"
  by (induction ops arbitrary: s) (auto simp: slot_step_fixed)



end
