(* ===== verification/Flow_Control.thy ===== *)
theory Flow_Control
  imports Channel_Slot
begin

text \<open>
  One channel end to end: the host's slot, the packets and acknowledgements in flight, and
  a device that keeps to the protocol as \<open>ConnectionConfig\<close> documents it.  Under delayed
  acknowledgements such a device sends while it has any credit left, up to a full packet on
  its last byte; otherwise it sends one packet and waits for the OKAY.  The host's moves are
  the slot operations as \<open>Connection\<close> and the split halves call them.
\<close>

section \<open>The system\<close>

record flow =
  f_slot :: channel_slot
  f_sent :: "bytes list"
  f_acks :: "bytes list"
  f_credit :: int
  f_ready :: bool
  f_produced :: bytes
  f_read :: bytes
  f_overflow :: bool

definition mode_of :: "flow \<Rightarrow> ack_mode" where
  "mode_of f = policy_ack (policy (f_slot f))"

definition flow_start :: "channel_slot \<Rightarrow> u32 \<Rightarrow> flow" where
  "flow_start s credit = \<lparr>f_slot = s, f_sent = [], f_acks = [], f_credit = uint credit, f_ready = True,
     f_produced = [], f_read = [], f_overflow = False\<rparr>"

definition device_may_send :: "flow \<Rightarrow> bool" where
  "device_may_send f = (case mode_of f of Delayed \<Rightarrow> f_credit f > 0 | Classic \<Rightarrow> f_ready f)"

definition device_send :: "bytes \<Rightarrow> flow \<Rightarrow> flow" where
  "device_send d f = f\<lparr>f_sent := f_sent f @ [d], f_produced := f_produced f @ d,
     f_credit := f_credit f - int (length d), f_ready := False\<rparr>"

text \<open>The device takes the oldest OKAY; under delayed acknowledgements its payload is the credit returned.\<close>

definition device_take_ack :: "flow \<Rightarrow> flow" where
  "device_take_ack f = (case f_acks f of
      [] \<Rightarrow> f
    | p # ps \<Rightarrow> f\<lparr>f_acks := ps, f_credit := f_credit f + (if mode_of f = Delayed then uint (u32_at p 0) else 0),
                 f_ready := True\<rparr>)"

definition send_ack :: "pending_ack option \<Rightarrow> flow \<Rightarrow> flow" where
  "send_ack a f = (case a of None \<Rightarrow> f | Some a \<Rightarrow> f\<lparr>f_acks := f_acks f @ [okay_payload a (mode_of f)]\<rparr>)"

text \<open>A WRTE that is dispatched into the slot, and one that goes straight into the reader's buffer.\<close>

definition host_dispatch :: "flow \<Rightarrow> flow" where
  "host_dispatch f = (case f_sent f of
      [] \<Rightarrow> f
    | d # ds \<Rightarrow>
        let f = f\<lparr>f_sent := ds\<rparr> in
        (case apply_write d (f_slot f) of
           None \<Rightarrow> f\<lparr>f_overflow := True\<rparr>
         | Some (Now a, s) \<Rightarrow> send_ack (Some a) (f\<lparr>f_slot := s\<rparr>)
         | Some (Hold, s) \<Rightarrow> f\<lparr>f_slot := s\<rparr>))"

definition host_deliver :: "flow \<Rightarrow> flow" where
  "host_deliver f = (case f_sent f of
      [] \<Rightarrow> f
    | d # ds \<Rightarrow>
        (case deliver (length d) (f_slot f) of
           (a, s) \<Rightarrow> send_ack a (f\<lparr>f_sent := ds, f_slot := s, f_read := f_read f @ d\<rparr>)))"

definition host_settle :: "usize \<Rightarrow> flow \<Rightarrow> flow" where
  "host_settle want f = (case settle_take want (f_slot f) of (a, s) \<Rightarrow> send_ack a (f\<lparr>f_slot := s\<rparr>))"

definition host_take :: "usize \<Rightarrow> flow \<Rightarrow> flow" where
  "host_take want f = (case (take_buffered want (f_slot f) :: (unit error + bytes option) \<times> channel_slot) of
      (Inr (Some d), s) \<Rightarrow> f\<lparr>f_slot := s, f_read := f_read f @ d\<rparr>
    | (_, s) \<Rightarrow> f\<lparr>f_slot := s\<rparr>)"

inductive flow_step :: "usize \<Rightarrow> flow \<Rightarrow> flow \<Rightarrow> bool" for mp where
  device_sends: "device_may_send f \<Longrightarrow> d \<noteq> [] \<Longrightarrow> length d \<le> mp \<Longrightarrow> flow_step mp f (device_send d f)"
| device_acked: "f_acks f \<noteq> [] \<Longrightarrow> flow_step mp f (device_take_ack f)"
| host_dispatches: "f_sent f \<noteq> [] \<Longrightarrow> flow_step mp f (host_dispatch f)"
| host_delivers: "f_sent f \<noteq> [] \<Longrightarrow> rx_buf (f_slot f) = [] \<Longrightarrow> flow_step mp f (host_deliver f)"
| host_settles: "want < 2 ^ 32 \<Longrightarrow> flow_step mp f (host_settle want f)"
| host_takes: "\<not> take_acks want (f_slot f) \<Longrightarrow> flow_step mp f (host_take want f)"

inductive flow_run :: "usize \<Rightarrow> flow \<Rightarrow> flow \<Rightarrow> bool" for mp where
  flow_refl: "flow_run mp f f"
| flow_more: "flow_run mp f g \<Longrightarrow> flow_step mp g h \<Longrightarrow> flow_run mp f h"

inductive_cases flow_stepE: "flow_step mp f g"

section \<open>The invariant\<close>

definition credit_of :: "bytes list \<Rightarrow> int" where
  "credit_of ps = (\<Sum>p \<leftarrow> ps. uint (u32_at p 0))"

definition in_flight :: "bytes list \<Rightarrow> int" where
  "in_flight ds = int (length (concat ds))"

definition delayed_ok :: "u32 \<Rightarrow> usize \<Rightarrow> flow \<Rightarrow> bool" where
  "delayed_ok adv mp f \<longleftrightarrow>
     f_credit f + in_flight (f_sent f) + int (unacked (f_slot f)) + credit_of (f_acks f) = uint adv \<and>
     unacked (f_slot f) = held (f_slot f) \<and> 1 - int mp \<le> f_credit f"

text \<open>Without delayed acknowledgements exactly one of four parties has the turn.\<close>

definition classic_ok :: "usize \<Rightarrow> rx_policy \<Rightarrow> flow \<Rightarrow> bool" where
  "classic_ok mp pol f \<longleftrightarrow>
     (f_ready f \<and> f_sent f = [] \<and> f_acks f = [] \<and> unacked (f_slot f) = 0 \<and> held (f_slot f) < policy_watermark pol) \<or>
     (\<not> f_ready f \<and> (\<exists>d. f_sent f = [d] \<and> d \<noteq> [] \<and> length d \<le> mp) \<and> f_acks f = [] \<and> unacked (f_slot f) = 0 \<and>
        held (f_slot f) < policy_watermark pol) \<or>
     (\<not> f_ready f \<and> f_sent f = [] \<and> (\<exists>p. f_acks f = [p]) \<and> unacked (f_slot f) = 0 \<and>
        held (f_slot f) < policy_watermark pol) \<or>
     (\<not> f_ready f \<and> f_sent f = [] \<and> f_acks f = [] \<and> unacked (f_slot f) > 0 \<and> policy_watermark pol \<le> held (f_slot f))"

definition flow_ok :: "u32 \<Rightarrow> usize \<Rightarrow> rx_policy \<Rightarrow> flow \<Rightarrow> bool" where
  "flow_ok adv mp pol f \<longleftrightarrow>
     \<not> f_overflow f \<and> (\<forall>d \<in> set (f_sent f). length d \<le> mp) \<and> f_produced f = f_read f @ rx_buf (f_slot f) @ concat (f_sent f) \<and>
     policy (f_slot f) = pol \<and> slot_remote (f_slot f) \<noteq> None \<and> settled (f_slot f) \<le> length (rx_buf (f_slot f)) \<and>
     (case policy_ack pol of Delayed \<Rightarrow> delayed_ok adv mp f | Classic \<Rightarrow> classic_ok mp pol f)"

text \<open>What the configuration guarantees of the policy and the credit it advertises.\<close>

definition sized :: "u32 \<Rightarrow> usize \<Rightarrow> rx_policy \<Rightarrow> bool" where
  "sized adv mp pol \<longleftrightarrow> policy_cap pol \<le> usize_max \<and> 1 \<le> mp \<and> mp < 2 ^ 32 \<and> 1 \<le> policy_watermark pol \<and>
     policy_watermark pol + mp \<le> policy_cap pol + 1 \<and> unat adv + mp \<le> policy_cap pol + 1"

lemma policy_sized:
  assumes "config_ok c"
  shows "sized (advertised_ack_bytes c) (unat (max_payload c)) (policy_of delayed c)"
  using rx_watermark_bounds [OF assms] rx_ceiling_bounds [OF assms] rx_cap_bounds [OF assms]
    config_payload [OF assms] advertised_nat [OF assms]
  by (auto simp: sized_def policy_of_def)

lemma in_flight_simps [simp]:
  "in_flight [] = 0" "in_flight (d # ds) = int (length d) + in_flight ds" "in_flight (xs @ ys) = in_flight xs + in_flight ys"
  "0 \<le> in_flight ds"
  by (simp_all add: in_flight_def)

lemma credit_of_simps [simp]:
  "credit_of [] = 0" "credit_of (p # ps) = uint (u32_at p 0) + credit_of ps"
  "credit_of (ps @ qs) = credit_of ps + credit_of qs"
  by (simp_all add: credit_of_def)

lemma credit_of_nonneg [simp]: "0 \<le> credit_of ps"
  by (induction ps) auto

lemma okay_credit:
  "ack_len a < 2 ^ 32 \<Longrightarrow> uint (u32_at (okay_payload a Delayed) 0) = int (ack_len a)"
  by (simp add: okay_payload_def u32_at_all uint_nat unsigned_of_nat take_bit_nat_eq_self)

section \<open>Every step keeps it\<close>

lemma flow_okD:
  assumes "flow_ok adv mp pol f"
  shows "policy (f_slot f) = pol" and "mode_of f = policy_ack pol"
  using assms by (auto simp: flow_ok_def mode_of_def)

lemma device_send_ok:
  assumes "flow_ok adv mp pol f" and "device_may_send f" and "d \<noteq> []" and "length d \<le> mp"
  shows "flow_ok adv mp pol (device_send d f)"
  using assms flow_okD [OF assms(1)]
  by (auto simp: flow_ok_def device_send_def device_may_send_def delayed_ok_def classic_ok_def split: ack_mode.splits)

lemma device_take_ack_ok:
  assumes "flow_ok adv mp pol f"
  shows "flow_ok adv mp pol (device_take_ack f)"
proof (cases "f_acks f")
  case (Cons p ps)
  have "0 \<le> uint (u32_at p 0)" by simp
  then have "1 - int mp \<le> f_credit f \<Longrightarrow> 1 - int mp \<le> f_credit f + uint (u32_at p 0)" by linarith
  then show ?thesis
    using assms flow_okD [OF assms(1)] Cons
    by (cases "policy_ack pol") (auto simp: flow_ok_def device_take_ack_def delayed_ok_def classic_ok_def)
qed (use assms in \<open>simp add: device_take_ack_def\<close>)

lemma slot_remote_ids: "slot_remote s = Some r \<Longrightarrow> slot_ids s = Some \<lparr>ids_local = slot_local s, ids_remote = r\<rparr>"
  by (simp add: slot_ids_def)

text \<open>What dispatching does to an open slot that has room.\<close>

lemma apply_write_fits:
  assumes "held s + length d \<le> policy_cap (policy s)" and "policy_cap (policy s) \<le> usize_max"
    and "unacked s \<le> held s" and "slot_remote s \<noteq> None" and "settled s \<le> length (rx_buf s)"
  shows "apply_write d s =
    (let s' = s\<lparr>rx_buf := rx_buf s @ d, unacked := unacked s + length d\<rparr> in
     if policy_ack (policy s) = Classic \<and> held s + length d < policy_watermark (policy s) then
       Some (Now \<lparr>ack_ids = \<lparr>ids_local = slot_local s, ids_remote = the (slot_remote s)\<rparr>, ack_len = length d\<rparr>, s'\<lparr>unacked := 0\<rparr>)
     else Some (Hold, s'))"
proof -
  have "saturating_add (held s) (length d) = held s + length d"
    "saturating_add (unacked s) (length d) = unacked s + length d"
    using assms by (auto intro!: saturating_add_exact)
  then show ?thesis
    using assms by (auto simp: apply_write_def push_rx_def held_def slot_ack_def slot_ids_def Let_def)
qed

lemma host_dispatch_ok:
  assumes ok: "flow_ok adv mp pol f" and sized: "sized adv mp pol"
  shows "flow_ok adv mp pol (host_dispatch f)"
proof (cases "f_sent f")
  case (Cons d ds)
  note pol = flow_okD [OF ok]
  define s where "s = f_slot f"
  have s: "policy s = pol" "slot_remote s \<noteq> None" "settled s \<le> length (rx_buf s)"
    using ok by (auto simp: flow_ok_def s_def)
  have "held s + length d \<le> policy_cap pol \<and> unacked s \<le> held s"
  proof (cases "policy_ack pol")
    case Delayed
    then have "delayed_ok adv mp f" using ok by (simp add: flow_ok_def)
    then have "f_credit f + (int (length d) + in_flight ds) + int (held s) + credit_of (f_acks f) = uint adv"
      "1 - int mp \<le> f_credit f" and u: "unacked s = held s"
      using Cons by (simp_all add: delayed_ok_def s_def)
    then have "int (held s) + int (length d) \<le> uint adv + int mp - 1"
      using credit_of_nonneg [of "f_acks f"] in_flight_simps(4) [of ds] by linarith
    moreover have "uint adv + int mp \<le> int (policy_cap pol) + 1"
      using sized unfolding sized_def uint_nat by linarith
    ultimately show ?thesis using u by linarith
  next
    case Classic
    then have "classic_ok mp pol f" using ok by (simp add: flow_ok_def)
    then have "held s < policy_watermark pol" "length d \<le> mp" "unacked s = 0"
      using Cons by (auto simp: classic_ok_def s_def)
    then show ?thesis using sized by (auto simp: sized_def)
  qed
  then have aw: "apply_write d s =
    (let s' = s\<lparr>rx_buf := rx_buf s @ d, unacked := unacked s + length d\<rparr> in
     if policy_ack pol = Classic \<and> held s + length d < policy_watermark pol then
       Some (Now \<lparr>ack_ids = \<lparr>ids_local = slot_local s, ids_remote = the (slot_remote s)\<rparr>, ack_len = length d\<rparr>, s'\<lparr>unacked := 0\<rparr>)
     else Some (Hold, s'))"
    using apply_write_fits [of s d] s sized by (simp add: sized_def)
  have h: "held (s\<lparr>rx_buf := rx_buf s @ d, unacked := u\<rparr>) = held s + length d" for u
    using s(3) by (simp add: held_def)
  define s' where "s' = s\<lparr>rx_buf := rx_buf s @ d, unacked := unacked s + length d\<rparr>"
  have base: "\<not> f_overflow f" "\<forall>x \<in> set ds. length x \<le> mp" "f_produced f = f_read f @ (rx_buf s @ d) @ concat ds"
    "settled s \<le> length (rx_buf s @ d)"
    using ok Cons by (auto simp: flow_ok_def s_def)
  show ?thesis
  proof (cases "policy_ack pol")
    case Delayed
    then have hd: "host_dispatch f = f\<lparr>f_sent := ds, f_slot := s'\<rparr>"
      by (simp add: host_dispatch_def Cons aw s'_def flip: s_def)
    have "delayed_ok adv mp f" using ok Delayed by (simp add: flow_ok_def)
    then have "delayed_ok adv mp (host_dispatch f)"
      unfolding hd by (simp add: delayed_ok_def Cons s'_def h flip: s_def)
    then show ?thesis using Delayed s base unfolding hd by (simp add: flow_ok_def s'_def)
  next
    case Classic
    have "classic_ok mp pol f" using ok Classic by (simp add: flow_ok_def)
    then have cl: "\<not> f_ready f" "ds = []" "d \<noteq> []" "f_acks f = []" "unacked s = 0" "held s < policy_watermark pol"
      using Cons by (auto simp: classic_ok_def s_def)
    show ?thesis
    proof (cases "held s + length d < policy_watermark pol")
      case True
      obtain a where hd: "host_dispatch f = f\<lparr>f_sent := ds, f_slot := s'\<lparr>unacked := 0\<rparr>, f_acks := [a]\<rparr>"
        using Classic True cl by (simp add: host_dispatch_def Cons aw s'_def send_ack_def Let_def flip: s_def)
      have "held (s'\<lparr>unacked := 0\<rparr>) = held s + length d" using h [of 0] by (simp add: s'_def)
      then show ?thesis
        using Classic s base cl True unfolding hd by (simp add: flow_ok_def classic_ok_def s'_def)
    next
      case False
      then have hd: "host_dispatch f = f\<lparr>f_sent := ds, f_slot := s'\<rparr>"
        using Classic by (simp add: host_dispatch_def Cons aw s'_def Let_def flip: s_def)
      show ?thesis
        using Classic s base cl False h [of "length d"] unfolding hd by (simp add: flow_ok_def classic_ok_def s'_def)
    qed
  qed
qed (use ok in \<open>simp add: host_dispatch_def\<close>)

lemma host_deliver_ok:
  assumes ok: "flow_ok adv mp pol f" and sized: "sized adv mp pol" and empty: "rx_buf (f_slot f) = []"
  shows "flow_ok adv mp pol (host_deliver f)"
proof (cases "f_sent f")
  case (Cons d ds)
  note pol = flow_okD [OF ok]
  obtain r where r: "slot_remote (f_slot f) = Some r" using ok by (auto simp: flow_ok_def)
  show ?thesis
  proof (cases "policy_ack pol")
    case Delayed
    then have d: "delayed_ok adv mp f" using ok by (simp add: flow_ok_def)
    have "length d < 2 ^ 32" using ok sized Cons by (auto simp: flow_ok_def sized_def)
    then show ?thesis
      using ok Delayed Cons r pol d okay_credit
      by (auto simp: host_deliver_def deliver_def slot_ack_def slot_remote_ids send_ack_def flow_ok_def delayed_ok_def
          empty mode_of_def)
  next
    case Classic
    then show ?thesis using ok Cons r pol sized
      by (auto simp: host_deliver_def deliver_def slot_ack_def slot_remote_ids send_ack_def flow_ok_def classic_ok_def
          empty mode_of_def held_def sized_def)
  qed
qed (use ok in \<open>simp add: host_deliver_def\<close>)

lemma settle_take_cases:
  assumes "slot_remote s = Some r"
  obtains "settle_take want s = (None, s)"
  | n len where "n = min want (length (rx_buf s))" and "settled s = 0"
      and "ack_len_of n (length (rx_buf s) - n) s = Some len"
      and "settle_take want s = (Some \<lparr>ack_ids = \<lparr>ids_local = slot_local s, ids_remote = r\<rparr>, ack_len = len\<rparr>,
        s\<lparr>unacked := unacked s - len, settled := n\<rparr>)"
proof -
  define n where "n = min want (length (rx_buf s))"
  note ids = slot_remote_ids [OF assms]
  show ?thesis
  proof (cases "ack_len_of n (length (rx_buf s) - n) s")
    case None
    then have "settle_take want s = (None, s)" by (simp add: settle_take_def ids Let_def flip: n_def)
    then show ?thesis by (rule that(1))
  next
    case (Some len)
    show ?thesis
    proof (cases "settled s = 0")
      case True
      then show ?thesis
        using Some by (intro that(2) [OF n_def True Some]) (simp add: settle_take_def ids Let_def flip: n_def)
    next
      case False
      then have "settle_take want s = (None, s)" by (simp add: settle_take_def ids)
      then show ?thesis by (rule that(1))
    qed
  qed
qed

lemma host_settle_ok:
  assumes ok: "flow_ok adv mp pol f" and want: "want < 2 ^ 32"
  shows "flow_ok adv mp pol (host_settle want f)"
proof -
  note pol = flow_okD [OF ok]
  define s where "s = f_slot f"
  obtain r where r: "slot_remote s = Some r" using ok by (auto simp: flow_ok_def s_def)
  show ?thesis
  proof (cases rule: settle_take_cases [OF r, of want])
    case 1
    then have "host_settle want f = f" by (simp add: host_settle_def send_ack_def s_def)
    then show ?thesis using ok by simp
  next
    case (2 n len)
    define s' where "s' = s\<lparr>unacked := unacked s - len, settled := n\<rparr>"
    define a where "a = \<lparr>ack_ids = \<lparr>ids_local = slot_local s, ids_remote = r\<rparr>, ack_len = len\<rparr>"
    have hs: "host_settle want f = f\<lparr>f_slot := s', f_acks := f_acks f @ [okay_payload a (policy_ack pol)]\<rparr>"
      using 2(4) ok by (simp add: host_settle_def send_ack_def mode_of_def s'_def a_def flow_ok_def flip: s_def)
    have base: "\<not> f_overflow f" "\<forall>x \<in> set (f_sent f). length x \<le> mp"
      "f_produced f = f_read f @ rx_buf s @ concat (f_sent f)" "policy s = pol"
      using ok by (auto simp: flow_ok_def s_def)
    have n: "n \<le> length (rx_buf s)" "n < 2 ^ 32" using 2(1) want by auto
    have held: "held s = length (rx_buf s)" "held s' = length (rx_buf s) - n" using 2(2) by (simp_all add: held_def s'_def)
    show ?thesis
    proof (cases "policy_ack pol")
      case Delayed
      have d: "delayed_ok adv mp f" using ok Delayed by (simp add: flow_ok_def)
      then have u: "unacked s = length (rx_buf s)" using held by (simp add: delayed_ok_def flip: s_def)
      then have len: "len = n" using 2(3) Delayed base(4) n(1) by (auto simp: ack_len_of_def Let_def split: if_splits)
      then have "uint (u32_at (okay_payload a Delayed) 0) = int n" using n(2) okay_credit [of a] by (simp add: a_def)
      then have "delayed_ok adv mp (host_settle want f)"
        using d n(1) u len held unfolding hs by (simp add: delayed_ok_def Delayed s'_def of_nat_diff flip: s_def)
      then show ?thesis using Delayed base n r unfolding hs by (simp add: flow_ok_def s'_def)
    next
      case Classic
      have c: "classic_ok mp pol f" using ok Classic by (simp add: flow_ok_def)
      have len: "len = unacked s" "0 < unacked s" "length (rx_buf s) - n < policy_watermark pol"
        using 2(3) Classic base(4) by (auto simp: ack_len_of_def split: if_splits)
      then have "\<not> f_ready f" "f_sent f = []" "f_acks f = []" using c by (auto simp: classic_ok_def simp flip: s_def)
      then have "classic_ok mp pol (host_settle want f)"
        using len held unfolding hs by (simp add: classic_ok_def s'_def)
      then show ?thesis using Classic base n r unfolding hs by (simp add: flow_ok_def s'_def)
    qed
  qed
qed

lemma take_buffered_open:
  fixes s :: channel_slot
  assumes "slot_remote s \<noteq> None" and "rx_buf s \<noteq> []"
  shows "take_buffered want s = (let n = min want (if settled s = 0 then length (rx_buf s) else settled s) in
    (Inr (Some (take n (rx_buf s))), s\<lparr>rx_buf := drop n (rx_buf s), settled := settled s - min n (settled s)\<rparr>))"
  using assms by (auto simp: take_buffered_def has_data_def Let_def)

definition taken :: "usize \<Rightarrow> channel_slot \<Rightarrow> usize" where
  "taken want s = min want (if settled s = 0 then length (rx_buf s) else settled s)"

lemma host_take_eq:
  assumes "slot_remote (f_slot f) \<noteq> None" and "rx_buf (f_slot f) \<noteq> []"
  shows "host_take want f = f\<lparr>f_slot := (f_slot f)\<lparr>rx_buf := drop (taken want (f_slot f)) (rx_buf (f_slot f)),
      settled := settled (f_slot f) - min (taken want (f_slot f)) (settled (f_slot f))\<rparr>,
    f_read := f_read f @ take (taken want (f_slot f)) (rx_buf (f_slot f))\<rparr>"
  unfolding host_take_def take_buffered_open [OF assms] taken_def Let_def by simp

lemma host_take_ok:
  assumes ok: "flow_ok adv mp pol f" and quiet: "\<not> take_acks want (f_slot f)"
  shows "flow_ok adv mp pol (host_take want f)"
proof (cases "rx_buf (f_slot f) = []")
  case True
  then have "host_take want f = f" by (simp add: host_take_def take_buffered_def has_data_def)
  then show ?thesis using ok by simp
next
  case False
  define s where "s = f_slot f"
  define n where "n = taken want s"
  define s' where "s' = s\<lparr>rx_buf := drop n (rx_buf s), settled := settled s - min n (settled s)\<rparr>"
  have r: "slot_remote s \<noteq> None" "settled s \<le> length (rx_buf s)" using ok by (auto simp: flow_ok_def s_def)
  have take: "host_take want f = f\<lparr>f_slot := s', f_read := f_read f @ take n (rx_buf s)\<rparr>"
    using host_take_eq [OF _ False] r(1) unfolding n_def s'_def s_def by blast
  have n: "n \<le> length (rx_buf s)" using r(2) by (auto simp: n_def taken_def)
  have fixed: "policy s' = policy s" "slot_remote s' = slot_remote s" "unacked s' = unacked s"
    "settled s' \<le> length (rx_buf s')"
    using r(2) n by (auto simp: s'_def n_def taken_def min_def)
  have held_settled: "held s' = held s" if "settled s \<noteq> 0"
    using that r(2) by (auto simp: s'_def n_def taken_def held_def min_def)
  have held_free: "held s' = length (rx_buf s) - min want (length (rx_buf s))" if "settled s = 0"
    using that by (auto simp: s'_def n_def taken_def held_def)
  have acks: "ack_len_of (min want (length (rx_buf s))) (length (rx_buf s) - min want (length (rx_buf s))) s = None"
    if "settled s = 0"
    using quiet that r(1) False by (auto simp: take_acks_def has_data_def Let_def simp flip: s_def)
  have "case policy_ack pol of Delayed \<Rightarrow> delayed_ok adv mp (host_take want f) | Classic \<Rightarrow> classic_ok mp pol (host_take want f)"
  proof (cases "policy_ack pol")
    case Delayed
    then have d: "delayed_ok adv mp f" using ok by (simp add: flow_ok_def)
    have "held s' = held s"
    proof (cases "settled s = 0")
      case True
      have "unacked s = length (rx_buf s)" using d True by (simp add: delayed_ok_def held_def flip: s_def)
      then have "want = 0" using acks [OF True] Delayed ok False
        by (auto simp: ack_len_of_def Let_def flow_ok_def s_def min_def split: if_splits)
      then show ?thesis using held_free [OF True] True by (simp add: held_def)
    qed (rule held_settled)
    then show ?thesis using Delayed d fixed(3) by (simp add: take delayed_ok_def flip: s_def)
  next
    case Classic
    then have c: "classic_ok mp pol f" using ok by (simp add: flow_ok_def)
    have "held s' \<le> held s"
      by (cases "settled s = 0") (use held_free held_settled in \<open>auto simp: held_def\<close>)
    moreover have "policy_watermark pol \<le> held s'" if "unacked s > 0" "policy_watermark pol \<le> held s"
    proof (cases "settled s = 0")
      case True
      then show ?thesis using acks [OF True] that Classic ok held_free [OF True]
        by (auto simp: ack_len_of_def flow_ok_def s_def split: if_splits)
    qed (use held_settled that in auto)
    moreover have "f_slot (host_take want f) = s'" "f_sent (host_take want f) = f_sent f"
      "f_acks (host_take want f) = f_acks f" "f_ready (host_take want f) = f_ready f"
      unfolding take by simp_all
    ultimately have "classic_ok mp pol (host_take want f)"
      using c fixed(3) unfolding classic_ok_def s_def [symmetric] by (metis le_less_trans)
    then show ?thesis using Classic by simp
  qed
  moreover have "f_slot (host_take want f) = s'" "f_sent (host_take want f) = f_sent f"
    "f_overflow (host_take want f) = f_overflow f" "f_produced (host_take want f) = f_produced f"
    "f_read (host_take want f) @ rx_buf s' = f_read f @ rx_buf s"
    unfolding take by (simp_all add: s'_def)
  ultimately show ?thesis
    using ok fixed unfolding flow_ok_def s_def [symmetric] by (metis append.assoc)
qed

lemma flow_step_ok:
  assumes "flow_step mp f g" and "flow_ok adv mp pol f" and "sized adv mp pol"
  shows "flow_ok adv mp pol g"
  using assms
  by (elim flow_stepE) (auto intro: device_send_ok device_take_ack_ok host_dispatch_ok host_deliver_ok host_settle_ok host_take_ok)

lemma flow_run_ok:
  assumes "flow_run mp f g" and "flow_ok adv mp pol f" and "sized adv mp pol"
  shows "flow_ok adv mp pol g"
  using assms(1,2)
proof (induction rule: flow_run.induct)
  case (flow_more f g h)
  then show ?case using flow_step_ok assms(3) by blast
qed

text \<open>A channel at the moment it becomes open, whichever side opened it.\<close>

definition just_opened :: "bool \<Rightarrow> config \<Rightarrow> channel_slot \<Rightarrow> bool" where
  "just_opened delayed c s \<longleftrightarrow>
     (\<exists>ids credit. s = slot_accepted ids credit (policy_of delayed c)) \<or>
     (\<exists>local remote payload. accept_open_ready remote payload (slot_opening local (policy_of delayed c)) = Inr s)"

lemma just_opened_slot:
  assumes "just_opened delayed c s"
  shows "policy s = policy_of delayed c" and "slot_remote s \<noteq> None" and "rx_buf s = []" and "unacked s = 0" and "settled s = 0"
  using assms
  by (auto simp: just_opened_def slot_accepted_def accept_open_ready_def slot_opening_def Let_def
      split: if_splits sum.splits)

lemma flow_start_ok:
  assumes "config_ok c" and "just_opened delayed c s"
  shows "flow_ok (advertised_ack_bytes c) (unat (max_payload c)) (policy_of delayed c) (flow_start s (advertised_ack_bytes c))"
proof -
  note slot = just_opened_slot [OF assms(2)]
  have mp: "1 \<le> unat (max_payload c)" using config_payload [OF assms(1)] by simp
  have "0 \<le> uint (advertised_ack_bytes c)" by simp
  then have "1 - int (unat (max_payload c)) \<le> uint (advertised_ack_bytes c)" using mp by linarith
  then have "delayed_ok (advertised_ack_bytes c) (unat (max_payload c)) (flow_start s (advertised_ack_bytes c))"
    using slot unfolding delayed_ok_def flow_start_def held_def by simp
  moreover have "classic_ok (unat (max_payload c)) (policy_of delayed c) (flow_start s (advertised_ack_bytes c))"
    using slot rx_watermark_bounds(1) [OF assms(1)] unfolding classic_ok_def flow_start_def held_def policy_of_def by simp
  moreover have "policy (f_slot (flow_start s (advertised_ack_bytes c))) = policy_of delayed c"
    "f_slot (flow_start s (advertised_ack_bytes c)) = s" "\<not> f_overflow (flow_start s (advertised_ack_bytes c))"
    "f_sent (flow_start s (advertised_ack_bytes c)) = []" "f_produced (flow_start s (advertised_ack_bytes c)) = []"
    "f_read (flow_start s (advertised_ack_bytes c)) = []"
    using slot by (simp_all add: flow_start_def)
  ultimately show ?thesis using slot unfolding flow_ok_def by (cases "policy_ack (policy_of delayed c)") simp_all
qed

lemma reachable_ok:
  assumes "built c" and "just_opened delayed c s"
    and "flow_run (unat (max_payload c)) (flow_start s (advertised_ack_bytes c)) f"
  shows "flow_ok (advertised_ack_bytes c) (unat (max_payload c)) (policy_of delayed c) f"
  using flow_run_ok [OF assms(3) flow_start_ok policy_sized] built_ok [OF assms(1)] assms(2) by blast

section \<open>Properties\<close>

text \<open>
  C1: a device that keeps to the protocol never overruns a channel, and no byte is lost,
  duplicated or reordered.  For every configuration the interface can build, in either
  acknowledgement mode, whatever the application reads and however packets and
  acknowledgements interleave, no write is refused for lack of room, and what the device
  produced is what the application read, followed by what is buffered, followed by what is
  in flight.
\<close>

theorem flow_control_safe:
  assumes "built c" and "just_opened delayed c s"
    and "flow_run (unat (max_payload c)) (flow_start s (advertised_ack_bytes c)) f"
  shows "\<not> f_overflow f \<and> f_produced f = f_read f @ rx_buf (f_slot f) @ concat (f_sent f)"
  using reachable_ok [OF assms] by (simp add: flow_ok_def)

text \<open>A short exchange over the embedded configuration, used to evaluate the properties.\<close>

definition sample_slot :: channel_slot where
  "sample_slot = slot_accepted \<lparr>ids_local = 1, ids_remote = 2\<rparr> 0 (policy_of True embedded)"

definition sample_flow :: flow where
  "sample_flow = host_take 2 (host_settle 2 (host_dispatch (device_send [10, 20, 30]
     (flow_start sample_slot (advertised_ack_bytes embedded)))))"

lemma sample_config:
  "policy_of True embedded = \<lparr>policy_ack = Delayed, policy_cap = 65536, policy_watermark = 32768\<rparr>"
  "advertised_ack_bytes embedded = 32768" "unat (max_payload embedded) = 8192" "0 < initial_ack_bytes embedded"
  by (simp_all add: policy_of_def embedded_def rx_cap_def rx_watermark_def rx_ceiling_def advertised_ack_bytes_def Let_def)

lemmas sample_eval = sample_config sample_slot_def slot_accepted_def slot_opening_def flow_start_def mode_of_def
  device_may_send_def device_send_def host_dispatch_def apply_write_def push_rx_def saturating_add_def held_def
  host_settle_def settle_take_def slot_ids_def ack_len_of_def send_ack_def host_take_def take_buffered_def has_data_def
  take_acks_def usize_max_def Let_def

lemma sample_run: "flow_run (unat (max_payload embedded)) (flow_start sample_slot (advertised_ack_bytes embedded)) sample_flow"
proof -
  have 1: "device_may_send (flow_start sample_slot (advertised_ack_bytes embedded))" by (simp add: sample_eval)
  have 2: "\<not> take_acks 2 (f_slot (host_settle 2 (host_dispatch (device_send [10, 20, 30]
     (flow_start sample_slot (advertised_ack_bytes embedded))))))" by (simp add: sample_eval)
  have 3: "length [10, 20, 30 :: u8] \<le> unat (max_payload embedded)" by (simp add: sample_config)
  show ?thesis unfolding sample_flow_def
    by (rule flow_more [OF flow_more [OF flow_more [OF flow_more [OF flow_refl
      device_sends [OF 1 _ 3]] host_dispatches] host_settles] host_takes [OF 2]])
      (simp_all add: device_send_def)
qed

lemma sample_opened: "just_opened True embedded sample_slot"
  by (auto simp: just_opened_def sample_slot_def)

theorem flow_control_safe_witness:
  "f_read sample_flow = [10, 20] \<and> rx_buf (f_slot sample_flow) = [30] \<and>
   \<not> f_overflow sample_flow \<and> f_produced sample_flow = [10, 20, 30]"
proof -
  have "f_read sample_flow = [10, 20]" "rx_buf (f_slot sample_flow) = [30]" "f_sent sample_flow = []"
    by (simp_all add: sample_flow_def sample_eval)
  then show ?thesis using flow_control_safe [OF built_embedded sample_opened sample_run] by simp
qed



end
