(* ===== verification/Channel_Table.thy ===== *)
theory Channel_Table
  imports Channel_Slot Byte_Text
begin

text \<open>
  The table of channels of one connection (\<open>base/channel_table.rs\<close>) and the queue of
  channels the device asked for (\<open>base/incoming.rs\<close>).  A handle names a slot and the local
  id of the channel that was put there; the table resolves it only while both match.  The
  contract of the table is the locale \<open>handle_map\<close>: handles map to slots the way a finite
  map does.
\<close>

section \<open>The table\<close>

record channel_id =
  ch_slot :: usize
  ch_local :: u32

definition from_raw :: "usize \<Rightarrow> u32 \<Rightarrow> channel_id" where
  "from_raw slot local_id = \<lparr>ch_slot = slot, ch_local = local_id\<rparr>"

datatype dispatch_outcome =
    AckWrite usize pending_ack
  | CreditGranted usize
  | SlotClosed usize
  | DataBuffered usize
  | IncomingOpen u32 u32 bytes
  | CancelPendingOpen u32
  | StrayReady channel_ids
  | ChannelFaulted usize channel_ids bool channel_fault
  | Unmatched

record channel_table =
  slots :: "channel_slot option list"
  next_local_id :: u32
  table_policy :: rx_policy

definition table_new :: "usize \<Rightarrow> rx_policy \<Rightarrow> channel_table" where
  "table_new len pol = \<lparr>slots = replicate len None, next_local_id = 1, table_policy = pol\<rparr>"

definition table_len :: "channel_table \<Rightarrow> usize" where
  "table_len t = length (slots t)"

text \<open>\<open>wrapping_add(1).max(1)\<close>: zero is never a local id.\<close>

definition following_id :: "u32 \<Rightarrow> u32" where
  "following_id n = max (n + 1) 1"

definition allocate :: "channel_table \<Rightarrow> channel_id option \<times> channel_table" where
  "allocate t = (case position (\<lambda>s. s = None) (slots t) of
      None \<Rightarrow> (None, t)
    | Some slot \<Rightarrow>
        (Some \<lparr>ch_slot = slot, ch_local = next_local_id t\<rparr>, t\<lparr>next_local_id := following_id (next_local_id t)\<rparr>))"

text \<open>
  Putting a channel into its slot; an index past the table panics (\<open>None\<close>).  The check that
  the slot is free is a debug assertion and not part of a release build.
\<close>

definition fill :: "channel_id \<Rightarrow> channel_slot \<Rightarrow> channel_table \<Rightarrow> channel_table option" where
  "fill ch s t = (if ch_slot ch < length (slots t) then Some (t\<lparr>slots := (slots t)[ch_slot ch := Some s]\<rparr>) else None)"

definition insert_opening :: "channel_id \<Rightarrow> channel_table \<Rightarrow> channel_table option" where
  "insert_opening ch t = fill ch (slot_opening (ch_local ch) (table_policy t)) t"

definition insert_accepted :: "channel_id \<Rightarrow> u32 \<Rightarrow> u32 \<Rightarrow> channel_table \<Rightarrow> channel_table option" where
  "insert_accepted ch remote credit t =
     fill ch (slot_accepted \<lparr>ids_local = ch_local ch, ids_remote = remote\<rparr> credit (table_policy t)) t"

definition table_get :: "channel_table \<Rightarrow> channel_id \<Rightarrow> channel_slot option" where
  "table_get t ch =
     (if ch_slot ch < length (slots t) then
        (case slots t ! ch_slot ch of
           Some s \<Rightarrow> if slot_local s = ch_local ch then Some s else None
         | None \<Rightarrow> None)
      else None)"

text \<open>\<open>get_mut\<close> and a change through it.\<close>

definition table_put :: "channel_id \<Rightarrow> channel_slot \<Rightarrow> channel_table \<Rightarrow> channel_table" where
  "table_put ch s t = (case table_get t ch of
      Some _ \<Rightarrow> t\<lparr>slots := (slots t)[ch_slot ch := Some s]\<rparr>
    | None \<Rightarrow> t)"

definition table_ids :: "channel_table \<Rightarrow> channel_id \<Rightarrow> 'e error + channel_ids" where
  "table_ids t ch = (case Option.bind (table_get t ch) slot_ids of Some ids \<Rightarrow> Inr ids | None \<Rightarrow> Inl ChannelClosed)"

definition table_free :: "channel_id \<Rightarrow> channel_table \<Rightarrow> channel_slot option \<times> channel_table" where
  "table_free ch t = (case table_get t ch of
      None \<Rightarrow> (None, t)
    | Some s \<Rightarrow> (Some s, t\<lparr>slots := (slots t)[ch_slot ch := None]\<rparr>))"

definition close_remote :: "u32 \<Rightarrow> channel_table \<Rightarrow> usize option \<times> channel_table" where
  "close_remote remote t =
     (if remote = 0 then (None, t)
      else case position (\<lambda>s. case Option.bind s slot_ids of Some ids \<Rightarrow> ids_remote ids = remote | None \<Rightarrow> False) (slots t) of
        None \<Rightarrow> (None, t)
      | Some idx \<Rightarrow> (Some idx, t\<lparr>slots := (slots t)[idx := map_option apply_close (slots t ! idx)]\<rparr>))"

definition fault_of :: "usize \<Rightarrow> channel_slot \<Rightarrow> u32 \<Rightarrow> channel_fault \<Rightarrow> dispatch_outcome" where
  "fault_of idx s remote fault =
     ChannelFaulted idx \<lparr>ids_local = slot_local s, ids_remote = remote\<rparr> (slot_state s = OpeningState) fault"

text \<open>What a packet addressed to a channel does to its slot.\<close>

definition dispatch_slot :: "packet \<Rightarrow> usize \<Rightarrow> channel_slot \<Rightarrow> dispatch_outcome \<times> channel_slot" where
  "dispatch_slot pkt idx s = (case command pkt of
      Write \<Rightarrow>
        if is_failed s then (Unmatched, s)
        else (case apply_write (data pkt) s of
                Some (Now a, s') \<Rightarrow> (AckWrite idx a, s')
              | Some (Hold, s') \<Rightarrow> (DataBuffered idx, s')
              | None \<Rightarrow> (fault_of idx s (arg0 pkt) RxOverflow, s))
    | Ready \<Rightarrow>
        if is_failed s then (Unmatched, s)
        else (case (if slot_state s = OpeningState then accept_open_ready (arg0 pkt) (data pkt) s
                    else apply_ready (data pkt) s) of
                Inr s' \<Rightarrow> (CreditGranted idx, s')
              | Inl e \<Rightarrow> (fault_of idx s (arg0 pkt) (ProtocolFault e), s))
    | Close \<Rightarrow> (SlotClosed idx, apply_close s)
    | _ \<Rightarrow> (Unmatched, s))"

definition is_ours :: "u32 \<Rightarrow> channel_slot option \<Rightarrow> bool" where
  "is_ours local s = (case s of Some s \<Rightarrow> slot_local s = local | None \<Rightarrow> False)"

definition dispatch :: "packet \<Rightarrow> channel_table \<Rightarrow> dispatch_outcome \<times> channel_table" where
  "dispatch pkt t =
     (if command pkt \<in> {Connect, Auth, StartTls} then (Unmatched, t)
      else if command pkt = Open then (IncomingOpen (arg0 pkt) (arg1 pkt) (data pkt), t)
      else if command pkt = Close \<and> arg1 pkt = 0 then
        (case close_remote (arg0 pkt) t of
           (Some idx, t') \<Rightarrow> (SlotClosed idx, t')
         | (None, t') \<Rightarrow> (CancelPendingOpen (arg0 pkt), t'))
      else case (if command pkt \<in> {Write, Ready, Close} then position (is_ours (arg1 pkt)) (slots t) else None) of
        Some idx \<Rightarrow>
          (case slots t ! idx of
             Some s \<Rightarrow> (case dispatch_slot pkt idx s of (r, s') \<Rightarrow> (r, t\<lparr>slots := (slots t)[idx := Some s']\<rparr>))
           | None \<Rightarrow> (Unmatched, t))
      | None \<Rightarrow>
          (if command pkt = Ready \<and> arg0 pkt \<noteq> 0 \<and> arg1 pkt \<noteq> 0
           then (StrayReady \<lparr>ids_local = arg1 pkt, ids_remote = arg0 pkt\<rparr>, t)
           else (Unmatched, t)))"

section \<open>The incoming queue\<close>

record pending_open =
  po_remote :: u32
  po_credit :: u32
  po_destination :: bytes

type_synonym incoming_queue = "pending_open list"

definition push_back :: "pending_open \<Rightarrow> incoming_queue \<Rightarrow> incoming_queue" where
  "push_back p q = q @ [p]"

definition push_front :: "pending_open \<Rightarrow> incoming_queue \<Rightarrow> incoming_queue" where
  "push_front p q = p # q"

definition pop_front :: "incoming_queue \<Rightarrow> pending_open option \<times> incoming_queue" where
  "pop_front q = (case q of [] \<Rightarrow> (None, []) | p # q' \<Rightarrow> (Some p, q'))"

definition withdraw :: "u32 \<Rightarrow> incoming_queue \<Rightarrow> incoming_queue" where
  "withdraw remote q = filter (\<lambda>p. po_remote p \<noteq> remote) q"

section \<open>The contract of the table\<close>

locale handle_map =
  fixes ok :: "'t \<Rightarrow> bool" and lookup :: "'t \<Rightarrow> channel_id \<Rightarrow> channel_slot option"
    and alloc :: "'t \<Rightarrow> channel_id option \<times> 't" and put :: "channel_id \<Rightarrow> channel_slot \<Rightarrow> 't \<Rightarrow> 't option"
    and release :: "channel_id \<Rightarrow> 't \<Rightarrow> channel_slot option \<times> 't"
  assumes alloc_ok: "ok t \<Longrightarrow> alloc t = (r, t') \<Longrightarrow> ok t' \<and> lookup t' = lookup t"
    and put_ok: "ok t \<Longrightarrow> alloc t = (Some ch, t1) \<Longrightarrow> slot_local s = ch_local ch \<Longrightarrow>
      \<exists>t2. put ch s t1 = Some t2 \<and> ok t2 \<and> lookup t2 = (lookup t)(ch \<mapsto> s)"
    and release_ok: "ok t \<Longrightarrow> release ch t = (freed, t') \<Longrightarrow> ok t' \<and> freed = lookup t ch \<and> lookup t' = (lookup t)(ch := None)"
begin

text \<open>Opening a channel and giving it up again leaves every other handle as it was.\<close>

lemma open_release:
  assumes "ok t" and "alloc t = (Some ch, t1)" and "slot_local s = ch_local ch" and "lookup t ch = None"
  shows "\<exists>t2 t3. put ch s t1 = Some t2 \<and> release ch t2 = (Some s, t3) \<and> ok t3 \<and> lookup t3 = lookup t"
proof -
  obtain t2 where t2: "put ch s t1 = Some t2" "ok t2" "lookup t2 = (lookup t)(ch \<mapsto> s)"
    using put_ok [OF assms(1-3)] by blast
  obtain r t3 where t3: "release ch t2 = (r, t3)" by force
  have "r = Some s" "ok t3" "lookup t3 = lookup t"
    using release_ok [OF t2(2) t3] t2(3) assms(4) by (auto simp: fun_eq_iff)
  then show ?thesis using t2(1) t3 by blast
qed

end

section \<open>The table is such a map\<close>

lemma position_nth: "position P xs = Some k \<Longrightarrow> k < length xs \<and> P (xs ! k)"
  using position_Some by blast

lemma allocate_Some:
  assumes "allocate t = (Some ch, t1)"
  shows "ch_slot ch < length (slots t)" and "slots t ! ch_slot ch = None" and "ch_local ch = next_local_id t"
    and "t1 = t\<lparr>next_local_id := following_id (next_local_id t)\<rparr>"
  using assms by (auto simp: allocate_def dest: position_nth split: option.splits)

lemma table_get_next [simp]: "table_get (t\<lparr>next_local_id := n\<rparr>) = table_get t"
  by (auto simp: table_get_def fun_eq_iff)

lemma allocate_get: "allocate t = (r, t') \<Longrightarrow> table_get t' = table_get t"
  by (auto simp: allocate_def split: option.splits)

lemma channel_id_eq: "ch_slot a = ch_slot b \<Longrightarrow> ch_local a = ch_local b \<Longrightarrow> a = (b :: channel_id)"
  by simp

lemma table_get_fill:
  assumes "fill ch s t = Some t'" and "slots t ! ch_slot ch = None" and "slot_local s = ch_local ch"
  shows "table_get t' = (table_get t)(ch \<mapsto> s)"
proof
  fix x
  show "table_get t' x = ((table_get t)(ch \<mapsto> s)) x"
    using assms channel_id_eq [of x ch]
    by (cases "ch_slot x = ch_slot ch") (auto simp: fill_def table_get_def split: if_splits option.splits)
qed

lemma table_get_free:
  assumes "table_free ch t = (r, t')"
  shows "r = table_get t ch" and "table_get t' = (table_get t)(ch := None)"
proof -
  show r: "r = table_get t ch" using assms by (auto simp: table_free_def split: option.splits)
  show "table_get t' = (table_get t)(ch := None)"
  proof
    fix x
    show "table_get t' x = ((table_get t)(ch := None)) x"
    proof (cases "table_get t ch")
      case None
      then show ?thesis using assms by (auto simp: table_free_def)
    next
      case (Some s)
      then have "ch_slot ch < length (slots t)" "slots t ! ch_slot ch = Some s" "slot_local s = ch_local ch"
        by (auto simp: table_get_def split: if_splits option.splits)
      moreover have "t' = t\<lparr>slots := (slots t)[ch_slot ch := None]\<rparr>" using assms Some by (simp add: table_free_def)
      ultimately show ?thesis
        using channel_id_eq [of x ch] by (cases "ch_slot x = ch_slot ch") (auto simp: table_get_def)
    qed
  qed
qed

lemma table_get_put:
  assumes "table_get t ch = Some s0" and "slot_local s = ch_local ch"
  shows "table_get (table_put ch s t) = (table_get t)(ch \<mapsto> s)"
proof
  fix x
  have "ch_slot ch < length (slots t)" "slots t ! ch_slot ch = Some s0" "slot_local s0 = ch_local ch"
    using assms by (auto simp: table_get_def split: if_splits option.splits)
  then show "table_get (table_put ch s t) x = ((table_get t)(ch \<mapsto> s)) x"
    using assms(2) channel_id_eq [of x ch]
    by (cases "ch_slot x = ch_slot ch") (auto simp: table_put_def table_get_def)
qed

interpretation handles: handle_map "\<lambda>t. True" table_get allocate fill table_free
proof unfold_locales
  fix t t1 :: channel_table and ch and s :: channel_slot
  assume a: "allocate t = (Some ch, t1)" and l: "slot_local s = ch_local ch"
  note al = allocate_Some [OF a]
  obtain t2 where t2: "fill ch s t1 = Some t2" using al by (auto simp: fill_def)
  moreover have "table_get t2 = (table_get t1)(ch \<mapsto> s)" using t2 al l by (intro table_get_fill) simp_all
  ultimately show "\<exists>t2. fill ch s t1 = Some t2 \<and> True \<and> table_get t2 = (table_get t)(ch \<mapsto> s)"
    using allocate_get [OF a] by simp
qed (use allocate_get table_get_free in auto)

section \<open>Local ids\<close>

lemma following_id_nonzero [simp]: "following_id n \<noteq> 0"
  by (auto simp: following_id_def max_def)

lemma unat_following_id:
  assumes "n \<noteq> 0"
  shows "unat (following_id n) = unat n mod (2 ^ 32 - 1) + 1"
proof (cases "n = - 1")
  case True
  then show ?thesis by (simp add: following_id_def unsigned_minus_1_eq_mask mask_eq_exp_minus_1)
next
  case False
  then have nz: "n + 1 \<noteq> 0" by (metis add.commute add_eq_0_iff2)
  then have u: "unat (n + 1) = unat n + 1" using unatSuc [of n] by (simp add: add.commute)
  then have "following_id n = n + 1" by (simp add: following_id_def max_def word_le_nat_alt unat_eq_0)
  moreover have "unat n + 1 < 2 ^ 32" using u unat_u32_lt [of "n + 1"] by simp
  ultimately show ?thesis using u by simp
qed

lemma following_ids:
  assumes "n \<noteq> 0"
  shows "(following_id ^^ k) n \<noteq> 0" and "unat ((following_id ^^ k) n) = (unat n - 1 + k) mod (2 ^ 32 - 1) + 1"
proof -
  have "(following_id ^^ k) n \<noteq> 0 \<and> unat ((following_id ^^ k) n) = (unat n - 1 + k) mod (2 ^ 32 - 1) + 1"
  proof (induction k)
    case 0
    have "0 < unat n" "unat n < 2 ^ 32" using assms unat_u32_lt [of n] by (auto simp: unat_gt_0)
    then show ?case using assms by simp
  next
    case (Suc k)
    then show ?case
      using unat_following_id [of "(following_id ^^ k) n"] by (simp add: mod_Suc_eq mod_add_left_eq)
  qed
  then show "(following_id ^^ k) n \<noteq> 0" "unat ((following_id ^^ k) n) = (unat n - 1 + k) mod (2 ^ 32 - 1) + 1"
    by blast+
qed

lemma following_ids_fresh:
  assumes "n \<noteq> 0" and "0 < k" and "k < 2 ^ 32 - 1"
  shows "(following_id ^^ k) n \<noteq> n"
proof
  assume eq: "(following_id ^^ k) n = n"
  have n: "0 < unat n" "unat n < 2 ^ 32" using assms(1) unat_u32_lt [of n] by (auto simp: unat_gt_0)
  have "(unat n - 1 + k) mod (2 ^ 32 - 1) = unat n - 1" using following_ids(2) [OF assms(1), of k] eq n by simp
  moreover have "(unat n - 1 + k) mod (2 ^ 32 - 1) =
      (if unat n - 1 + k < 2 ^ 32 - 1 then unat n - 1 + k else unat n - 1 + k - (2 ^ 32 - 1))"
    using n assms(3) by (auto simp: mod_if)
  ultimately show False using n assms(2,3) by (auto split: if_splits)
qed

section \<open>Runs\<close>

text \<open>
  What a connection does with its table: open a channel (with the slot it is filled with),
  give one up, change a slot through its handle, dispatch a packet.
\<close>

datatype table_op = TakeSlot "channel_id \<Rightarrow> channel_slot" | GiveUp channel_id | Change channel_id channel_slot | Handle packet

fun table_step :: "table_op \<Rightarrow> channel_table \<Rightarrow> channel_table option" where
  "table_step (TakeSlot mk) t = (case allocate t of
      (None, t') \<Rightarrow> Some t'
    | (Some ch, t') \<Rightarrow> fill ch ((mk ch)\<lparr>slot_local := ch_local ch\<rparr>) t')"
| "table_step (GiveUp ch) t = Some (snd (table_free ch t))"
| "table_step (Change ch s) t = Some (table_put ch (s\<lparr>slot_local := ch_local ch\<rparr>) t)"
| "table_step (Handle pkt) t = Some (snd (dispatch pkt t))"

fun table_run :: "table_op list \<Rightarrow> channel_table \<Rightarrow> channel_table option" where
  "table_run [] t = Some t"
| "table_run (a # as) t = Option.bind (table_step a t) (table_run as)"

definition allocations :: "table_op list \<Rightarrow> nat" where
  "allocations as = length (filter (\<lambda>a. \<exists>mk. a = TakeSlot mk) as)"

lemma dispatch_slot_local: "dispatch_slot pkt idx s = (r, s') \<Longrightarrow> slot_local s' = slot_local s"
  by (auto simp: dispatch_slot_def slot_op_defs Let_def split: command.splits if_splits option.splits sum.splits
      ack_decision.splits ack_mode.splits)

text \<open>Dispatching changes one slot at most, and never whom it belongs to.\<close>

lemma dispatch_slots:
  assumes "dispatch pkt t = (r, t')"
  obtains "t' = t"
  | idx s s' where "idx < length (slots t)" and "slots t ! idx = Some s" and "t' = t\<lparr>slots := (slots t)[idx := Some s']\<rparr>"
      and "slot_local s' = slot_local s" and "command pkt \<in> {Write, Ready, Close}" and "r = Unmatched \<longrightarrow> s' = s"
      and "slot_local s = arg1 pkt \<and> (r, s') = dispatch_slot pkt idx s \<or>
        command pkt = Close \<and> arg1 pkt = 0 \<and> slot_remote s = Some (arg0 pkt) \<and> s' = apply_close s \<and> r = SlotClosed idx"
proof (cases "t' = t")
  case changed: False
  show thesis
  proof (cases "command pkt = Close \<and> arg1 pkt = 0")
    case True
    define P where "P s \<longleftrightarrow> (case Option.bind s slot_ids of Some ids \<Rightarrow> ids_remote ids = arg0 pkt | None \<Rightarrow> False)" for s
    obtain idx where p: "position P (slots t) = Some idx" and r: "r = SlotClosed idx"
      and t': "t' = t\<lparr>slots := (slots t)[idx := map_option apply_close (slots t ! idx)]\<rparr>"
      using assms changed True
      by (auto simp: dispatch_def close_remote_def P_def [abs_def] split: if_splits option.splits)
    obtain s where s: "slots t ! idx = Some s" "slot_remote s = Some (arg0 pkt)"
      using position_nth [OF p] by (auto simp: P_def slot_ids_def split: option.splits bind_splits)
    show thesis
      using that(2) [of idx s "apply_close s"] position_nth [OF p] s t' r True by (auto simp: apply_close_def)
  next
    case False
    then obtain idx s where p: "position (is_ours (arg1 pkt)) (slots t) = Some idx" and c: "command pkt \<in> {Write, Ready, Close}"
      and s: "slots t ! idx = Some s"
      using assms changed
      by (auto simp: dispatch_def split: if_splits option.splits)
    obtain s' where d: "dispatch_slot pkt idx s = (r, s')" and t': "t' = t\<lparr>slots := (slots t)[idx := Some s']\<rparr>"
      using assms changed False p c s by (auto simp: dispatch_def split: if_splits prod.splits)
    have "slot_local s = arg1 pkt" using position_nth [OF p] s by (simp add: is_ours_def)
    moreover have "r = Unmatched \<longrightarrow> s' = s"
      using d c by (auto simp: dispatch_slot_def fault_of_def split: if_splits option.splits sum.splits ack_decision.splits)
    ultimately show thesis
      using that(2) [of idx s s'] position_nth [OF p] s t' d c dispatch_slot_local [OF d] by simp
  qed
qed (rule that(1))

lemma dispatch_next [simp]: "next_local_id (snd (dispatch pkt t)) = next_local_id t"
  by (cases "dispatch pkt t") (auto elim: dispatch_slots)

lemma dispatch_get_None: "table_get t ch = None \<Longrightarrow> table_get (snd (dispatch pkt t)) ch = None"
proof (cases "dispatch pkt t" rule: prod.exhaust)
  case (Pair r t')
  assume none: "table_get t ch = None"
  from Pair show ?thesis
  proof (cases rule: dispatch_slots)
    case 1
    then show ?thesis using none Pair by simp
  next
    case (2 idx s s')
    then show ?thesis using none Pair by (cases "ch_slot ch = idx") (auto simp: table_get_def split: if_splits)
  qed
qed

lemma stale_step:
  assumes "table_step a t = Some t'" and "table_get t ch = None" and "ch_local ch \<noteq> 0"
    and "next_local_id t = (following_id ^^ k) (ch_local ch)" and "0 < k" and "k < 2 ^ 32 - 1"
  shows "table_get t' ch = None \<and>
    next_local_id t' = (following_id ^^ (k + (if \<exists>mk. a = TakeSlot mk then 1 else 0))) (ch_local ch) \<or>
    table_get t' ch = None \<and> next_local_id t' = (following_id ^^ k) (ch_local ch)"
  using assms(1)
proof (cases a)
  case (TakeSlot mk)
  show ?thesis
  proof (cases "allocate t")
    case (Pair o1 t1)
    show ?thesis
    proof (cases o1)
      case None
      then have "t' = t" using assms(1) TakeSlot Pair by (auto simp: allocate_def split: option.splits)
      then show ?thesis using assms by simp
    next
      case (Some c)
      note al = allocate_Some [OF Pair [unfolded Some]]
      have f: "fill c ((mk c)\<lparr>slot_local := ch_local c\<rparr>) t1 = Some t'" using assms(1) TakeSlot Pair Some by simp
      have "table_get t' = (table_get t1)(c \<mapsto> (mk c)\<lparr>slot_local := ch_local c\<rparr>)"
        using f al by (intro table_get_fill) simp_all
      moreover have "c \<noteq> ch" using al(3) following_ids_fresh [OF assms(3,5,6)] assms(4) by auto
      moreover have "next_local_id t' = following_id (next_local_id t)" using f al(4) by (auto simp: fill_def split: if_splits)
      ultimately show ?thesis using assms al(4) TakeSlot by simp
    qed
  qed
next
  case (GiveUp c)
  then have "t' = snd (table_free c t)" using assms(1) by simp
  then show ?thesis
    using assms(2,4) table_get_free(2) [of c t "fst (table_free c t)" t'] GiveUp
    by (auto simp: table_free_def split: option.splits)
next
  case (Change c s)
  then have t': "t' = table_put c (s\<lparr>slot_local := ch_local c\<rparr>) t" using assms(1) by simp
  show ?thesis
  proof (cases "table_get t c")
    case None
    then show ?thesis using assms Change t' by (simp add: table_put_def)
  next
    case (Some s0)
    then have "c \<noteq> ch" using assms(2) by auto
    then have "table_get t' ch = None"
      using table_get_put [OF Some, of "s\<lparr>slot_local := ch_local c\<rparr>"] t' assms(2) by auto
    moreover have "next_local_id t' = next_local_id t" using t' Some by (simp add: table_put_def)
    ultimately show ?thesis using assms(4) by simp
  qed
next
  case (Handle pkt)
  then show ?thesis using assms dispatch_get_None [OF assms(2), of pkt] by auto
qed

lemma stale_run:
  assumes "table_run as t = Some t'" and "table_get t ch = None" and "ch_local ch \<noteq> 0"
    and "next_local_id t = (following_id ^^ k) (ch_local ch)" and "0 < k" and "k + allocations as < 2 ^ 32 - 1"
  shows "table_get t' ch = None"
  using assms
proof (induction as arbitrary: t k)
  case (Cons a as)
  then obtain t1 where t1: "table_step a t = Some t1" "table_run as t1 = Some t'" by (auto split: bind_splits)
  have "allocations (a # as) = (if \<exists>mk. a = TakeSlot mk then 1 else 0) + allocations as" by (simp add: allocations_def)
  with Cons.prems(6) have k: "k < 2 ^ 32 - 1" "k + (if \<exists>mk. a = TakeSlot mk then 1 else 0) + allocations as < 2 ^ 32 - 1"
    "k + allocations as < 2 ^ 32 - 1" by auto
  from stale_step [OF t1(1) Cons.prems(2-5) k(1)] show ?case
  proof
    assume "table_get t1 ch = None \<and> next_local_id t1 = (following_id ^^ (k + (if \<exists>mk. a = TakeSlot mk then 1 else 0))) (ch_local ch)"
    then show ?thesis
      using Cons.IH [OF t1(2) _ Cons.prems(3) _ _ k(2)] Cons.prems(5) by blast
  next
    assume "table_get t1 ch = None \<and> next_local_id t1 = (following_id ^^ k) (ch_local ch)"
    then show ?thesis using Cons.IH [OF t1(2) _ Cons.prems(3) _ Cons.prems(5) k(3)] by blast
  qed
qed simp

lemma run_next:
  "table_run as t = Some t' \<Longrightarrow> \<exists>k \<le> allocations as. next_local_id t' = (following_id ^^ k) (next_local_id t)"
proof (induction as arbitrary: t)
  case (Cons a as)
  then obtain t1 where t1: "table_step a t = Some t1" "table_run as t1 = Some t'" by (auto split: bind_splits)
  obtain k where k: "k \<le> allocations as" "next_local_id t' = (following_id ^^ k) (next_local_id t1)"
    using Cons.IH [OF t1(2)] by blast
  have "next_local_id t1 = next_local_id t \<or> (\<exists>mk. a = TakeSlot mk) \<and> next_local_id t1 = following_id (next_local_id t)"
    using t1(1)
    by (cases a) (auto simp: allocate_def fill_def table_free_def table_put_def split: option.splits if_splits prod.splits)
  then show ?case
  proof
    assume "next_local_id t1 = next_local_id t"
    then show ?thesis using k by (auto simp: allocations_def intro!: exI [of _ k])
  next
    assume a: "(\<exists>mk. a = TakeSlot mk) \<and> next_local_id t1 = following_id (next_local_id t)"
    then have "next_local_id t' = (following_id ^^ Suc k) (next_local_id t)" using k(2) by (simp add: funpow_swap1)
    then show ?thesis using k(1) a by (intro exI [of _ "Suc k"]) (auto simp: allocations_def)
  qed
qed (auto intro: exI [of _ 0])

lemma table_run_append: "table_run (as @ bs) t = Option.bind (table_run as t) (table_run bs)"
  by (induction as arbitrary: t) (auto split: bind_splits)

section \<open>Properties\<close>

text \<open>
  C28: the channel table is a map from handles to channels.  A freshly allocated handle can
  always be filled; afterwards it resolves to exactly what was put there and every other
  handle to what it did before, and giving a handle up removes it alone.
\<close>

theorem table_is_handle_map:
  assumes "allocate t = (Some ch, t1)" and "slot_local s = ch_local ch"
  shows "\<exists>t2. fill ch s t1 = Some t2 \<and> table_get t2 = (table_get t)(ch \<mapsto> s) \<and>
    (\<forall>c. fst (table_free c t2) = table_get t2 c \<and> table_get (snd (table_free c t2)) = (table_get t2)(c := None))"
proof -
  obtain t2 where "fill ch s t1 = Some t2" "table_get t2 = (table_get t)(ch \<mapsto> s)"
    using handles.put_ok [OF TrueI assms] by blast
  then show ?thesis using table_get_free [of _ t2] by (metis prod.collapse)
qed

definition sample_table :: channel_table where
  "sample_table = table_new 2 (policy_of True embedded)"

lemma sample_allocate:
  "allocate sample_table = (Some \<lparr>ch_slot = 0, ch_local = 1\<rparr>, sample_table\<lparr>next_local_id := 2\<rparr>)"
proof -
  have "following_id 1 = 2" by code_simp
  then show ?thesis by (simp add: allocate_def sample_table_def table_new_def numeral_2_eq_2)
qed

theorem table_is_handle_map_witness:
  "\<exists>t2. fill \<lparr>ch_slot = 0, ch_local = 1\<rparr> (slot_opening 1 (policy_of True embedded)) (sample_table\<lparr>next_local_id := 2\<rparr>) = Some t2 \<and>
     table_get t2 \<lparr>ch_slot = 0, ch_local = 1\<rparr> = Some (slot_opening 1 (policy_of True embedded)) \<and>
     table_get (snd (table_free \<lparr>ch_slot = 0, ch_local = 1\<rparr> t2)) \<lparr>ch_slot = 0, ch_local = 1\<rparr> = None"
proof -
  have "slot_local (slot_opening 1 (policy_of True embedded)) = ch_local \<lparr>ch_slot = 0, ch_local = 1\<rparr>"
    by (simp add: slot_opening_def)
  from table_is_handle_map [OF sample_allocate this] show ?thesis by auto
qed

text \<open>
  C29: a stale handle never aliases a later channel.  Once a channel has been given up, its
  handle resolves to nothing however many channels are opened, closed, changed and
  dispatched to afterwards -- as long as fewer than \<open>2 ^ 32 - 2\<close> channels have been
  allocated since it was issued.
\<close>

theorem stale_handle_never_resolves:
  assumes "allocate t = (Some ch, t1)" and "next_local_id t \<noteq> 0"
    and "table_run (earlier @ GiveUp ch # later) t1 = Some t'" and "allocations (earlier @ later) < 2 ^ 32 - 2"
  shows "table_get t' ch = None"
proof -
  note al = allocate_Some [OF assms(1)]
  obtain t2 where t2: "table_run earlier t1 = Some t2" "table_run (GiveUp ch # later) t2 = Some t'"
    using assms(3) by (auto simp: table_run_append split: bind_splits)
  obtain k where k: "k \<le> allocations earlier" "next_local_id t2 = (following_id ^^ k) (next_local_id t1)"
    using run_next [OF t2(1)] by blast
  define t3 where "t3 = snd (table_free ch t2)"
  have t3: "table_run later t3 = Some t'" using t2(2) by (simp add: t3_def)
  have "table_get t3 ch = None"
    using table_get_free(2) [of ch t2 "fst (table_free ch t2)" t3] by (simp add: t3_def)
  moreover have "next_local_id t3 = (following_id ^^ Suc k) (ch_local ch)"
    using k(2) al(3,4) by (simp add: t3_def table_free_def funpow_swap1 split: option.splits)
  moreover have "Suc k + allocations later < 2 ^ 32 - 1" using k(1) assms(4) by (simp add: allocations_def)
  ultimately show ?thesis using stale_run [OF t3, of ch "Suc k"] assms(2) al(3) by simp
qed

theorem stale_handle_never_resolves_witness:
  "\<exists>t'. table_run ([TakeSlot (\<lambda>ch. slot_opening (ch_local ch) (policy_of True embedded))] @
       GiveUp \<lparr>ch_slot = 0, ch_local = 1\<rparr> # [TakeSlot (\<lambda>ch. slot_opening (ch_local ch) (policy_of True embedded))])
       (sample_table\<lparr>next_local_id := 2\<rparr>) = Some t' \<and>
     table_get t' \<lparr>ch_slot = 0, ch_local = 1\<rparr> = None"
proof -
  define mk :: "channel_id \<Rightarrow> channel_slot" where "mk = (\<lambda>ch. slot_opening (ch_local ch) (policy_of True embedded))"
  have "\<exists>t'. table_run ([TakeSlot mk] @ GiveUp \<lparr>ch_slot = 0, ch_local = 1\<rparr> # [TakeSlot mk]) (sample_table\<lparr>next_local_id := 2\<rparr>) = Some t'"
    by (simp add: allocate_def sample_table_def table_new_def fill_def table_free_def table_get_def numeral_2_eq_2
        mk_def slot_opening_def)
  then obtain t' where r: "table_run ([TakeSlot mk] @ GiveUp \<lparr>ch_slot = 0, ch_local = 1\<rparr> # [TakeSlot mk]) (sample_table\<lparr>next_local_id := 2\<rparr>) = Some t'"
    by blast
  have "next_local_id sample_table \<noteq> 0" by (simp add: sample_table_def table_new_def)
  from stale_handle_never_resolves [OF sample_allocate this r] show ?thesis
    using r by (auto simp: allocations_def mk_def)
qed



text \<open>
  C31: a packet touches only the channel it is addressed to.  Whatever arrives, the other
  handles resolve to exactly the channels they did before, and the table keeps its size and
  its id counter.
\<close>

theorem dispatch_isolates:
  assumes "table_get t ch = Some s" and "slot_local s \<noteq> arg1 pkt"
    and "\<not> (command pkt = Close \<and> arg1 pkt = 0 \<and> slot_remote s = Some (arg0 pkt))"
  shows "table_get (snd (dispatch pkt t)) ch = Some s \<and> length (slots (snd (dispatch pkt t))) = length (slots t) \<and>
    next_local_id (snd (dispatch pkt t)) = next_local_id t"
proof (cases "dispatch pkt t" rule: prod.exhaust)
  case (Pair r t')
  then show ?thesis
  proof (cases rule: dispatch_slots)
    case 1
    then show ?thesis using assms Pair by simp
  next
    case (2 idx s0 s')
    then have "idx \<noteq> ch_slot ch" using assms by (auto simp: table_get_def split: if_splits)
    then have "table_get t' ch = table_get t ch" using 2(3) by (simp add: table_get_def)
    then show ?thesis using 2(3) assms(1) Pair by simp
  qed
qed

theorem dispatch_isolates_witness:
  "table_get (snd (dispatch \<lparr>command = Write, arg0 = 5, arg1 = 2, data = [1]\<rparr>
     \<lparr>slots = [Some (slot_opening 1 (policy_of True embedded)), Some (slot_opening 2 (policy_of True embedded))],
      next_local_id = 3, table_policy = policy_of True embedded\<rparr>)) \<lparr>ch_slot = 0, ch_local = 1\<rparr>
   = Some (slot_opening 1 (policy_of True embedded))"
proof -
  have "table_get \<lparr>slots = [Some (slot_opening 1 (policy_of True embedded)), Some (slot_opening 2 (policy_of True embedded))],
      next_local_id = 3, table_policy = policy_of True embedded\<rparr> \<lparr>ch_slot = 0, ch_local = 1\<rparr>
      = Some (slot_opening 1 (policy_of True embedded))"
    by (simp add: table_get_def slot_opening_def)
  from dispatch_isolates [OF this, of "\<lparr>command = Write, arg0 = 5, arg1 = 2, data = [1]\<rparr>"] show ?thesis
    by (simp add: slot_opening_def)
qed

end
