(* ===== verification/Negotiation.thy ===== *)
theory Negotiation
  imports Device_Banner Channel_Table
begin

text \<open>
  What a handshake settles for the life of a connection (\<open>base/negotiated.rs\<close>): the payload
  limit, the protocol version, the flow-control mode and the parsed banner of the device.
\<close>

record negotiated =
  neg_max_payload :: u32
  protocol_version :: u32
  neg_config :: config
  delayed_ack :: bool
  neg_banner :: device_banner

definition negotiated_new :: "bytes \<Rightarrow> packet \<Rightarrow> config \<Rightarrow> protocol_error + negotiated" where
  "negotiated_new host_banner cnxn cfg =
     (let delayed = has_feature host_banner DELAYED_ACK \<and> has_feature (data cnxn) DELAYED_ACK in
      case from_bytes (data cnxn) (max_banner_properties cfg) of
        Inl e \<Rightarrow> Inl e
      | Inr banner \<Rightarrow>
          Inr \<lparr>neg_max_payload = min (arg1 cnxn) MAX_PAYLOAD, protocol_version = min (arg0 cnxn) ADB_VERSION,
               neg_config = cfg, delayed_ack = delayed, neg_banner = banner\<rparr>)"

definition ack_mode_of :: "negotiated \<Rightarrow> ack_mode" where
  "ack_mode_of n = (if delayed_ack n then Delayed else Classic)"

definition rx_policy_of :: "negotiated \<Rightarrow> rx_policy" where
  "rx_policy_of n = \<lparr>policy_ack = ack_mode_of n, policy_cap = rx_cap (neg_config n),
     policy_watermark = rx_watermark (neg_config n)\<rparr>"

definition neg_checksum :: "negotiated \<Rightarrow> checksum" where
  "neg_checksum n = checksum_for_version (protocol_version n)"

definition advertised_credit :: "negotiated \<Rightarrow> u32 option" where
  "advertised_credit n = (if delayed_ack n then Some (advertised_ack_bytes (neg_config n)) else None)"

definition advertises :: "negotiated \<Rightarrow> feature \<Rightarrow> bool" where
  "advertises n f = banner_has_feature (neg_banner n) f"

definition require_feature :: "negotiated \<Rightarrow> feature \<Rightarrow> 'e error + unit" where
  "require_feature n f = (if advertises n f then Inr () else Inl (MissingFeature f))"

lemma rx_policy_of_eq: "rx_policy_of n = policy_of (delayed_ack n) (neg_config n)"
  by (simp add: rx_policy_of_def policy_of_def ack_mode_of_def)

lemma negotiated_new_Inr:
  assumes "negotiated_new banner cnxn cfg = Inr n"
  shows "neg_max_payload n = min (arg1 cnxn) MAX_PAYLOAD" and "protocol_version n = min (arg0 cnxn) ADB_VERSION"
    and "neg_config n = cfg" and "from_bytes (data cnxn) (max_banner_properties cfg) = Inr (neg_banner n)"
    and "delayed_ack n \<longleftrightarrow> has_feature banner DELAYED_ACK \<and> has_feature (data cnxn) DELAYED_ACK"
  using assms by (auto simp: negotiated_new_def Let_def split: sum.splits)

end
