(* ===== verification/Looping.thy ===== *)
theory Looping
  imports Wire
begin

text \<open>
  The control flow of the operations that wait: \<open>loop\<close>, and \<open>?\<close> and \<open>.await\<close> inside and
  outside of one.  A loop that never ends is \<open>None\<close>.
\<close>

section \<open>Awaiting\<close>

text \<open>
  \<open>.await\<close> without \<open>?\<close>: an error is a value for what follows, but a dropped future and a
  panic are not.
\<close>

definition awaited ::
  "('e, 'a) outcome \<times> 's \<Rightarrow> ('e error + 'a \<Rightarrow> 's \<Rightarrow> ('e, 'b) outcome \<times> 's) \<Rightarrow> ('e, 'b) outcome \<times> 's" where
  "awaited r f = (case r of
      (Ok a, s) \<Rightarrow> f (Inr a) s
    | (Err e, s) \<Rightarrow> f (Inl e) s
    | (Cancelled, s) \<Rightarrow> (Cancelled, s)
    | (Panicked, s) \<Rightarrow> (Panicked, s))"

text \<open>\<open>?\<close> in front of a loop.\<close>

definition loop_then ::
  "('e, 'a) outcome \<times> 's \<Rightarrow> ('a \<Rightarrow> 's \<Rightarrow> (('e, 'b) outcome \<times> 's) option) \<Rightarrow> (('e, 'b) outcome \<times> 's) option" where
  "loop_then r f = (case r of
      (Ok a, s) \<Rightarrow> f a s
    | (Err e, s) \<Rightarrow> Some (Err e, s)
    | (Cancelled, s) \<Rightarrow> Some (Cancelled, s)
    | (Panicked, s) \<Rightarrow> Some (Panicked, s))"

lemma loop_then_mono [partial_function_mono]:
  assumes "\<And>a s. mono_option (\<lambda>f. g f a s)"
  shows "mono_option (\<lambda>f. loop_then r (g f))"
  unfolding loop_then_def
  using assms by (auto split: prod.split outcome.split simp: monotone_def flat_ord_def fun_ord_def)

section \<open>Loops\<close>

text \<open>
  One round of a loop ends with a value to return (\<open>Some\<close>) or goes round again (\<open>None\<close>).
\<close>

partial_function (option) looping :: "('s \<Rightarrow> 'r option \<times> 's) \<Rightarrow> 's \<Rightarrow> ('r \<times> 's) option" where
  "looping body s = (case body s of (Some r, s') \<Rightarrow> Some (r, s') | (None, s') \<Rightarrow> looping body s')"

text \<open>\<open>?\<close> in the body of a loop.\<close>

definition try_in ::
  "('e, 'a) outcome \<times> 's \<Rightarrow> ('a \<Rightarrow> 's \<Rightarrow> ('e, 'b) outcome option \<times> 's) \<Rightarrow> ('e, 'b) outcome option \<times> 's" where
  "try_in r f = (case r of
      (Ok a, s) \<Rightarrow> f a s
    | (Err e, s) \<Rightarrow> (Some (Err e), s)
    | (Cancelled, s) \<Rightarrow> (Some Cancelled, s)
    | (Panicked, s) \<Rightarrow> (Some Panicked, s))"

definition leave :: "'r \<times> 's \<Rightarrow> 'r option \<times> 's" where
  "leave r = (Some (fst r), snd r)"

section \<open>What holds all the way through\<close>

lemma and_then_keeps:
  assumes "P (snd r)" and "\<And>a s. r = (Ok a, s) \<Longrightarrow> P s \<Longrightarrow> P (snd (f a s))"
  shows "P (snd (and_then r f))"
  using assms by (cases r) (auto simp: and_then_def split: outcome.splits)

lemma awaited_keeps:
  assumes "P (snd r)" and "\<And>a s. P s \<Longrightarrow> P (snd (f a s))"
  shows "P (snd (awaited r f))"
  using assms by (cases r) (auto simp: awaited_def split: outcome.splits)

lemma try_in_keeps:
  assumes "P (snd r)" and "\<And>a s. r = (Ok a, s) \<Longrightarrow> P s \<Longrightarrow> P (snd (f a s))"
  shows "P (snd (try_in r f))"
  using assms by (cases r) (auto simp: try_in_def split: outcome.splits)

lemma loop_then_keeps:
  assumes "loop_then r f = Some y" and "P (snd r)" and "\<And>a s. r = (Ok a, s) \<Longrightarrow> P s \<Longrightarrow> f a s = Some y \<Longrightarrow> P (snd y)"
  shows "P (snd y)"
  using assms by (cases r) (auto simp: loop_then_def split: outcome.splits)

lemma leave_simps [simp]: "snd (leave r) = snd r" "fst (leave r) = Some (fst r)"
  by (simp_all add: leave_def)

lemma and_then_Ok [simp]: "and_then (Ok a, s) f = f a s"
  by (simp add: and_then_def)

lemma awaited_simps [simp]: "awaited (Ok a, s) f = f (Inr a) s" "awaited (Err e, s) f = f (Inl e) s"
  by (simp_all add: awaited_def)

lemma loop_then_Ok [simp]: "loop_then (Ok a, s) f = f a s"
  by (simp add: loop_then_def)

lemma try_in_Ok [simp]: "try_in (Ok a, s) f = f a s"
  by (simp add: try_in_def)

text \<open>
  A loop that returns went through states that all satisfy what every round that goes on
  preserves, and its last round is one that returns.
\<close>

lemma looping_last:
  assumes "looping body s = Some (r, s')" and "I s"
    and "\<And>s s1. I s \<Longrightarrow> body s = (None, s1) \<Longrightarrow> I s1"
  shows "\<exists>s1. I s1 \<and> body s1 = (Some r, s')"
proof -
  have "looping body s = Some y \<Longrightarrow> I s \<Longrightarrow> (\<And>s s1. I s \<Longrightarrow> body s = (None, s1) \<Longrightarrow> I s1) \<Longrightarrow>
      \<exists>s1. I s1 \<and> body s1 = (Some (fst y), snd y)" for y
  proof (induction rule: looping.raw_induct [rotated, consumes 1, case_names step])
    case (step f body s y)
    show ?case
    proof (cases "body s")
      case (Pair a s1)
      then show ?thesis using step.IH [of body s1 y] step.hyps step.prems by (cases a) auto
    qed
  qed
  from this [of "(r, s')"] show ?thesis using assms by auto
qed

lemma looping_keeps:
  assumes "looping body s = Some y" and "P s" and "\<And>s. P s \<Longrightarrow> P (snd (body s))"
  shows "P (snd y)"
  using looping_last [of body s "fst y" "snd y" P] assms by (metis prod.collapse snd_conv)

text \<open>A loop whose every further round lowers a measure returns.\<close>

lemma looping_returns:
  assumes "I s" and "\<And>s s1. I s \<Longrightarrow> body s = (None, s1) \<Longrightarrow> I s1 \<and> m s1 < (m s :: nat)"
  shows "\<exists>r s'. looping body s = Some (r, s')"
  using assms(1)
proof (induction "m s" arbitrary: s rule: less_induct)
  case less
  show ?case
  proof (cases "body s")
    case (Pair a s1)
    then show ?thesis
      using less.hyps [of s1] less.prems assms(2) [of s s1] by (cases a) (auto simp: looping.simps [of body s])
  qed
qed

end
