(* ===== verification/Connection.thy ===== *)
theory Connection
  imports Negotiation Mock_Transport Looping
begin

text \<open>
  A connection and its operations (\<open>base/connection.rs\<close>, \<open>base/connection/accept.rs\<close>):
  opening, reading, writing and closing channels, acting on packets meant for others while
  waiting, and deciding on the channels the device asks for.  The loops that wait for a
  packet are partial functions: \<open>None\<close> is a wait that never ends.  Over a transport whose
  peer sends finitely many bytes none of them is reached.
\<close>

section \<open>The code\<close>

record 't connection = "'t wire" +
  table :: channel_table
  conn_neg :: negotiated
  incoming :: incoming_queue

definition inbound_limit :: "'t connection \<Rightarrow> u32" where
  "inbound_limit c = max_payload (neg_config (conn_neg c))"

definition conn_checksum :: "'t connection \<Rightarrow> checksum" where
  "conn_checksum c = neg_checksum (conn_neg c)"

definition send_okay :: "('t, 'e) transport_ops \<Rightarrow> pending_ack \<Rightarrow> 't connection \<Rightarrow> ('e, unit) outcome \<times> 't connection" where
  "send_okay io ack c = send_okay_to io ack (ack_mode_of (conn_neg c)) (conn_checksum c) c"

definition act_on :: "('t, 'e) transport_ops \<Rightarrow> packet \<Rightarrow> 't connection \<Rightarrow> ('e, unit) outcome \<times> 't connection" where
  "act_on io pkt c =
     (let cs = conn_checksum c in
      case dispatch pkt (table c) of (outcome, t) \<Rightarrow>
        let c = c\<lparr>table := t\<rparr> in
        case outcome of
          AckWrite _ ack \<Rightarrow> send_okay io ack c
        | IncomingOpen remote credit destination \<Rightarrow>
            if length (incoming c) \<ge> table_len (table c) then send_pkt io (packet_refuse remote) cs c
            else (Ok (), c\<lparr>incoming := push_back \<lparr>po_remote = remote, po_credit = credit,
                            po_destination = destination\<rparr> (incoming c)\<rparr>)
        | CancelPendingOpen remote \<Rightarrow> (Ok (), c\<lparr>incoming := withdraw remote (incoming c)\<rparr>)
        | StrayReady ids \<Rightarrow> send_pkt io (packet_close ids) cs c
        | ChannelFaulted _ _ _ fault \<Rightarrow> (Err (fault_error fault), c)
        | _ \<Rightarrow> (Ok (), c))"

definition conn_dispatch :: "('t, 'e) transport_ops \<Rightarrow> packet \<Rightarrow> 't connection \<Rightarrow> ('e, unit) outcome \<times> 't connection" where
  "conn_dispatch io pkt c = (case act_on io pkt c of
      (Err e, c') \<Rightarrow> if connection_gone io e then (Ok (), c') else (Err e, c')
    | acted \<Rightarrow> acted)"

text \<open>The arm of \<open>await_open_ack\<close> for the READY of the channel being opened.\<close>

definition open_answered ::
  "('t, 'e) transport_ops \<Rightarrow> channel_id \<Rightarrow> packet \<Rightarrow> 't connection \<Rightarrow> ('e, channel_id) outcome \<times> 't connection" where
  "open_answered io ch pkt c =
     (let remote = arg0 pkt in
      case insert_opening ch (table c) of
        None \<Rightarrow> (Panicked, c)
      | Some t \<Rightarrow>
          (case accept_open_ready remote (data pkt) (slot_opening (ch_local ch) (table_policy (table c))) of
             Inr slot \<Rightarrow> (Ok ch, c\<lparr>table := table_put ch slot t\<rparr>)
           | Inl e \<Rightarrow>
               let c = c\<lparr>table := snd (table_free ch t)\<rparr> in
               and_then (send_pkt io (packet_close \<lparr>ids_local = ch_local ch, ids_remote = remote\<rparr>) (conn_checksum c) c)
                 (\<lambda>_ c. (Err (Protocol e), c))))"

definition await_open_round ::
  "('t, 'e) transport_ops \<Rightarrow> channel_id \<Rightarrow> 't connection \<Rightarrow> ('e, channel_id) outcome option \<times> 't connection" where
  "await_open_round io ch c =
     try_in (recv_pkt io (inbound_limit c) c) (\<lambda>pkt c.
       if command pkt = Ready \<and> arg1 pkt = ch_local ch then leave (open_answered io ch pkt c)
       else if command pkt = Close \<and> arg1 pkt = ch_local ch then (Some (Err ChannelClosed), c)
       else try_in (conn_dispatch io pkt c) (\<lambda>_ c. (None, c)))"

definition await_open_ack ::
  "('t, 'e) transport_ops \<Rightarrow> channel_id \<Rightarrow> 't connection \<Rightarrow> (('e, channel_id) outcome \<times> 't connection) option" where
  "await_open_ack io ch c = looping (await_open_round io ch) c"

definition open_channel ::
  "('t, 'e) transport_ops \<Rightarrow> bytes \<Rightarrow> 't connection \<Rightarrow> (('e, channel_id) outcome \<times> 't connection) option" where
  "open_channel io destination c =
     loop_then (check_desync c, c) (\<lambda>_ c.
       case allocate (table c) of
         (None, t) \<Rightarrow> Some (Err NoFreeChannels, c\<lparr>table := t\<rparr>)
       | (Some ch, t) \<Rightarrow>
           let c = c\<lparr>table := t\<rparr>; credit = (case advertised_credit (conn_neg c) of Some n \<Rightarrow> n | None \<Rightarrow> 0) in
           loop_then (send_open io (ch_local ch) credit destination (conn_checksum c) c)
             (\<lambda>_ c. await_open_ack io ch c))"

subsection \<open>Reading\<close>

definition take_now :: "channel_id \<Rightarrow> usize \<Rightarrow> 't connection \<Rightarrow> ('e, bytes option) outcome \<times> 't connection" where
  "take_now ch len c = (case table_get (table c) ch of
      None \<Rightarrow> (Err ChannelClosed, c)
    | Some s \<Rightarrow>
        (case take_buffered len s of
           (Inl e, s) \<Rightarrow> (Err e, c\<lparr>table := table_put ch s (table c)\<rparr>)
         | (Inr taken, s) \<Rightarrow> (Ok taken, c\<lparr>table := table_put ch s (table c)\<rparr>)))"

text \<open>An acknowledgement that is owed goes out; that it failed is left to the next call.\<close>

definition okay_if ::
  "('t, 'e) transport_ops \<Rightarrow> pending_ack option \<Rightarrow> 't connection \<Rightarrow> ('e, unit) outcome \<times> 't connection" where
  "okay_if io ack c = (case ack of None \<Rightarrow> (Ok (), c) | Some ack \<Rightarrow> awaited (send_okay io ack c) (\<lambda>_ c. (Ok (), c)))"

definition conn_take_buffered ::
  "('t, 'e) transport_ops \<Rightarrow> channel_id \<Rightarrow> usize \<Rightarrow> 't connection \<Rightarrow> ('e, bytes option) outcome \<times> 't connection" where
  "conn_take_buffered io ch len c =
     and_then (if \<not> (case table_get (table c) ch of Some s \<Rightarrow> has_data s | None \<Rightarrow> False)
               then (check_desync c, c) else (Ok (), c)) (\<lambda>_ c.
     case table_get (table c) ch of
       None \<Rightarrow> (Err ChannelClosed, c)
     | Some s \<Rightarrow>
         (case settle_take len s of (ack, s) \<Rightarrow>
            and_then (okay_if io ack (c\<lparr>table := table_put ch s (table c)\<rparr>)) (\<lambda>_ c. take_now ch len c)))"

datatype 'i select_result = Data bytes | SelectInterrupted 'i

text \<open>The arm of \<open>recv_data\<close> that hands a payload straight to the reader.\<close>

definition deliver_direct ::
  "('t, 'e) transport_ops \<Rightarrow> channel_id \<Rightarrow> bytes \<Rightarrow> 't connection \<Rightarrow> ('e, 'i select_result) outcome \<times> 't connection" where
  "deliver_direct io ch payload c =
     (case table_get (table c) ch of
        None \<Rightarrow> (Ok (Data payload), c)
      | Some s \<Rightarrow>
          (case deliver (length payload) s of (ack, s) \<Rightarrow>
             and_then (okay_if io ack (c\<lparr>table := table_put ch s (table c)\<rparr>)) (\<lambda>_ c. (Ok (Data payload), c))))"

definition close_here :: "channel_id \<Rightarrow> 't connection \<Rightarrow> 't connection" where
  "close_here ch c = (case table_get (table c) ch of
      Some s \<Rightarrow> c\<lparr>table := table_put ch (apply_close s) (table c)\<rparr>
    | None \<Rightarrow> c)"

text \<open>
  The other packets are dispatched; what that buffered for this channel is taken before an
  error of the dispatch is reported.
\<close>

definition taken_or_failed :: "'e error + bytes option \<Rightarrow> 'e error + unit \<Rightarrow> ('e, bytes option) outcome" where
  "taken_or_failed taken dispatched =
     (case (taken, dispatched) of
        (Inr (Some d), _) \<Rightarrow> Ok (Some d)
      | (_, Inl e) \<Rightarrow> Err e
      | (Inl e, _) \<Rightarrow> Err e
      | (Inr None, Inr _) \<Rightarrow> Ok None)"

definition dispatch_and_take ::
  "('t, 'e) transport_ops \<Rightarrow> channel_id \<Rightarrow> usize \<Rightarrow> packet \<Rightarrow> 't connection \<Rightarrow> ('e, bytes option) outcome \<times> 't connection" where
  "dispatch_and_take io ch len pkt c =
     awaited (conn_dispatch io pkt c) (\<lambda>dispatched c.
     awaited (conn_take_buffered io ch len c) (\<lambda>taken c. (taken_or_failed taken dispatched, c)))"

definition recv_data_round ::
  "('t, 'e) transport_ops \<Rightarrow> ('t \<Rightarrow> 'i option) \<Rightarrow> bool \<Rightarrow> channel_id \<Rightarrow> channel_ids \<Rightarrow> usize \<Rightarrow> 't connection
    \<Rightarrow> ('e, 'i select_result) outcome option \<times> 't connection" where
  "recv_data_round io interrupt race ch ids len c =
     try_in (recv_pkt_or io interrupt race (inbound_limit c) c) (\<lambda>received c.
       case received of
         Interrupted v \<Rightarrow> (Some (Ok (SelectInterrupted v)), c)
       | Packet pkt \<Rightarrow>
           if command pkt = Write \<and> arg1 pkt = ids_local ids \<and> length (data pkt) \<le> len
           then leave (deliver_direct io ch (data pkt) c)
           else if command pkt = Close \<and> closed_by ids pkt then (Some (Err ChannelClosed), close_here ch c)
           else try_in (dispatch_and_take io ch len pkt c) (\<lambda>taken c. (map_option (\<lambda>d. Ok (Data d)) taken, c)))"

definition recv_data ::
  "('t, 'e) transport_ops \<Rightarrow> ('t \<Rightarrow> 'i option) \<Rightarrow> bool \<Rightarrow> channel_id \<Rightarrow> usize \<Rightarrow> 't connection
    \<Rightarrow> (('e, 'i select_result) outcome \<times> 't connection) option" where
  "recv_data io interrupt race ch len c =
     loop_then (conn_take_buffered io ch len c) (\<lambda>taken c.
       case taken of
         Some d \<Rightarrow> Some (Ok (Data d), c)
       | None \<Rightarrow>
           (case table_ids (table c) ch of
              Inl e \<Rightarrow> Some (Err e, c)
            | Inr ids \<Rightarrow> looping (recv_data_round io interrupt race ch ids len) c))"

definition select_channel ::
  "('t, 'e) transport_ops \<Rightarrow> ('t \<Rightarrow> 'i option) \<Rightarrow> channel_id \<Rightarrow> usize \<Rightarrow> 't connection
    \<Rightarrow> (('e, 'i select_result) outcome \<times> 't connection) option" where
  "select_channel io interrupt ch len c = recv_data io interrupt (t_cancel_safe io (transport c)) ch len c"

text \<open>\<open>match never {}\<close>: the interrupt of a plain read has no value.\<close>

definition read_channel ::
  "('t, 'e) transport_ops \<Rightarrow> channel_id \<Rightarrow> usize \<Rightarrow> 't connection \<Rightarrow> (('e, bytes) outcome \<times> 't connection) option" where
  "read_channel io ch len c =
     Option.bind (recv_data io never True ch len c) (\<lambda>r. loop_then r (\<lambda>selected c.
       case selected of Data d \<Rightarrow> Some (Ok d, c) | SelectInterrupted _ \<Rightarrow> None))"

subsection \<open>Writing and closing\<close>

definition wait_ack_round ::
  "('t, 'e) transport_ops \<Rightarrow> channel_id \<Rightarrow> 't connection \<Rightarrow> ('e, unit) outcome option \<times> 't connection" where
  "wait_ack_round io ch c = (case table_get (table c) ch of
      None \<Rightarrow> (Some (Err ChannelClosed), c)
    | Some slot \<Rightarrow>
        if is_closed slot then (Some (Err ChannelClosed), c)
        else if budget slot \<noteq> None then (Some (Ok ()), c)
        else (case table_ids (table c) ch of
            Inl e \<Rightarrow> (Some (Err e), c)
          | Inr ids \<Rightarrow>
              try_in (recv_pkt io (inbound_limit c) c) (\<lambda>pkt c.
                if command pkt = Ready \<and> arg1 pkt = ids_local ids then
                  (case table_get (table c) ch of
                     None \<Rightarrow> (None, c)
                   | Some slot \<Rightarrow>
                       (case apply_ready (data pkt) slot of
                          Inl e \<Rightarrow> (Some (Err (Protocol e)), c)
                        | Inr slot \<Rightarrow> (None, c\<lparr>table := table_put ch slot (table c)\<rparr>)))
                else if command pkt = Close \<and> closed_by ids pkt then (Some (Err ChannelClosed), close_here ch c)
                else try_in (conn_dispatch io pkt c) (\<lambda>_ c. (None, c)))))"

definition wait_ack ::
  "('t, 'e) transport_ops \<Rightarrow> channel_id \<Rightarrow> 't connection \<Rightarrow> (('e, unit) outcome \<times> 't connection) option" where
  "wait_ack io ch c = looping (wait_ack_round io ch) c"

text \<open>
  One round of the loop of \<open>write_channel\<close>, once \<open>wait_ack\<close> let it through: a chunk no larger
  than the payload limit and the budget goes out and is spent.  It returns its size.
\<close>

definition write_chunk ::
  "('t, 'e) transport_ops \<Rightarrow> channel_id \<Rightarrow> bytes \<Rightarrow> 't connection \<Rightarrow> ('e, usize) outcome \<times> 't connection" where
  "write_chunk io ch rest c =
     (case table_get (table c) ch of
        None \<Rightarrow> (Err ChannelClosed, c)
      | Some slot \<Rightarrow>
          let credit = (case budget slot of Some b \<Rightarrow> b | None \<Rightarrow> 0);
              n = min (min (length rest) (max (unat (neg_max_payload (conn_neg c))) 1)) credit in
          (case table_ids (table c) ch of
             Inl e \<Rightarrow> (Err e, c)
           | Inr ids \<Rightarrow>
               and_then (send_raw io Write ids (take n rest) (conn_checksum c) c) (\<lambda>_ c.
                 (case table_get (table c) ch of
                    None \<Rightarrow> (Err ChannelClosed, c)
                  | Some slot \<Rightarrow> (Ok n, c\<lparr>table := table_put ch (spend n slot) (table c)\<rparr>)))))"

partial_function (option) write_loop ::
  "('t, 'e) transport_ops \<Rightarrow> channel_id \<Rightarrow> bytes \<Rightarrow> 't connection \<Rightarrow> (('e, unit) outcome \<times> 't connection) option" where
  "write_loop io ch rest c =
     (if rest = [] then Some (Ok (), c)
      else Option.bind (wait_ack io ch c) (\<lambda>r. loop_then r (\<lambda>_ c.
        loop_then (write_chunk io ch rest c) (\<lambda>n c. write_loop io ch (drop n rest) c))))"

definition write_channel ::
  "('t, 'e) transport_ops \<Rightarrow> channel_id \<Rightarrow> bytes \<Rightarrow> 't connection \<Rightarrow> (('e, unit) outcome \<times> 't connection) option" where
  "write_channel io ch payload c =
     loop_then (check_desync c, c) (\<lambda>_ c. if payload = [] then Some (Ok (), c) else write_loop io ch payload c)"

definition close_channel ::
  "('t, 'e) transport_ops \<Rightarrow> channel_id \<Rightarrow> 't connection \<Rightarrow> ('e, unit) outcome \<times> 't connection" where
  "close_channel io ch c =
     and_then (check_desync c, c) (\<lambda>_ c.
       (case table_ids (table c) ch of
          Inl e \<Rightarrow> (Err e, c)
        | Inr ids \<Rightarrow>
            let c = c\<lparr>table := snd (table_free ch (table c))\<rparr> in
            send_pkt io (packet_close ids) (conn_checksum c) c))"

subsection \<open>Channels the device asks for\<close>

text \<open>
  An undecided request, borrowing the connection.  Dropping it runs \<open>incoming_drop\<close>: that
  is what ends \<open>accept\<close> and \<open>reject\<close>, whichever way they leave.
\<close>

record 't incoming =
  in_conn :: "'t connection"
  in_pending :: "pending_open option"
  in_reserved :: "channel_id option"

definition incoming_drop :: "'t incoming \<Rightarrow> 't connection" where
  "incoming_drop i =
     (let c = in_conn i;
          c = (case in_reserved i of Some ch \<Rightarrow> c\<lparr>table := snd (table_free ch (table c))\<rparr> | None \<Rightarrow> c)
      in case in_pending i of Some p \<Rightarrow> c\<lparr>incoming := push_front p (incoming c)\<rparr> | None \<Rightarrow> c)"

definition try_accept_incoming :: "'t connection \<Rightarrow> 't incoming option" where
  "try_accept_incoming c = (case pop_front (incoming c) of
      (None, _) \<Rightarrow> None
    | (Some p, q) \<Rightarrow> Some \<lparr>in_conn = c\<lparr>incoming := q\<rparr>, in_pending = Some p, in_reserved = None\<rparr>)"

text \<open>The request itself is returned as a value; on every other way out the connection is.\<close>

definition accept_round ::
  "('t, 'e) transport_ops \<Rightarrow> 't connection \<Rightarrow> ('e, 't incoming) outcome option \<times> 't connection" where
  "accept_round io c = (case try_accept_incoming c of
      Some i \<Rightarrow> (Some (Ok i), in_conn i)
    | None \<Rightarrow>
        try_in (recv_pkt io (inbound_limit c) c) (\<lambda>pkt c.
          try_in (conn_dispatch io pkt c) (\<lambda>_ c. (None, c))))"

definition accept_incoming ::
  "('t, 'e) transport_ops \<Rightarrow> 't connection \<Rightarrow> (('e, 't incoming) outcome \<times> 't connection) option" where
  "accept_incoming io c = loop_then (check_desync c, c) (\<lambda>_ c. looping (accept_round io) c)"

definition answer :: "('t, 'e) transport_ops \<Rightarrow> packet \<Rightarrow> 't incoming \<Rightarrow> ('e, unit) outcome \<times> 't incoming" where
  "answer io verdict i =
     (case send_pkt io verdict (conn_checksum (in_conn i)) (in_conn i) of
        (sent, c) \<Rightarrow>
          let decided = (case sent of Ok _ \<Rightarrow> True | Err e \<Rightarrow> connection_gone io e | _ \<Rightarrow> False)
          in (sent, i\<lparr>in_conn := c, in_pending := (if decided then None else in_pending i)\<rparr>))"

definition accept_body :: "('t, 'e) transport_ops \<Rightarrow> 't incoming \<Rightarrow> ('e, channel_id) outcome \<times> 't incoming" where
  "accept_body io i = (case in_pending i of
      None \<Rightarrow> (Panicked, i)
    | Some p \<Rightarrow>
        let c = in_conn i in
        (case allocate (table c) of
           (None, t) \<Rightarrow>
             and_then (answer io (packet_refuse (po_remote p)) (i\<lparr>in_conn := c\<lparr>table := t\<rparr>\<rparr>))
               (\<lambda>_ i. (Err NoFreeChannels, i))
         | (Some ch, t) \<Rightarrow>
             (case insert_accepted ch (po_remote p) (po_credit p) t of
                None \<Rightarrow> (Panicked, i\<lparr>in_conn := c\<lparr>table := t\<rparr>\<rparr>)
              | Some t \<Rightarrow>
                  let payload = (case advertised_credit (conn_neg c) of Some n \<Rightarrow> u32_to_le n | None \<Rightarrow> []) in
                  and_then (answer io (packet_new Ready (ch_local ch) (po_remote p) payload)
                      (i\<lparr>in_conn := c\<lparr>table := t\<rparr>, in_reserved := Some ch\<rparr>))
                    (\<lambda>_ i. (Ok ch, i\<lparr>in_reserved := None\<rparr>)))))"

definition accept :: "('t, 'e) transport_ops \<Rightarrow> 't incoming \<Rightarrow> ('e, channel_id) outcome \<times> 't connection" where
  "accept io i = (case accept_body io i of (r, i) \<Rightarrow> (r, incoming_drop i))"

definition reject :: "('t, 'e) transport_ops \<Rightarrow> 't incoming \<Rightarrow> ('e, unit) outcome \<times> 't connection" where
  "reject io i = (case in_pending i of
      None \<Rightarrow> (Panicked, incoming_drop i)
    | Some p \<Rightarrow> (case answer io (packet_refuse (po_remote p)) i of (r, i) \<Rightarrow> (r, incoming_drop i)))"

section \<open>What an operation can do to a connection while it waits\<close>

text \<open>
  Every operation that waits for the device -- to open, to read, to write, to accept -- is a
  sequence of turns: it moves bytes, applies an operation to the slot of a live channel,
  dispatches a packet, or changes the queue of requests.
\<close>

inductive turn :: "'t connection \<Rightarrow> 't connection \<Rightarrow> bool" where
  turn_wire: "turn c (c\<lparr>transport := t, recv_buf := b, desync := d\<rparr>)"
| turn_slot: "table_get (table c) ch = Some s \<Longrightarrow> \<forall>f. a \<noteq> FailOp f \<Longrightarrow>
    turn c (c\<lparr>table := table_put ch (slot_step a s) (table c)\<rparr>)"
| turn_dispatch: "turn c (c\<lparr>table := snd (dispatch pkt (table c))\<rparr>)"
| turn_queue: "length (incoming c) < table_len (table c) \<Longrightarrow> turn c (c\<lparr>incoming := push_back p (incoming c)\<rparr>)"
| turn_withdraw: "turn c (c\<lparr>incoming := withdraw remote (incoming c)\<rparr>)"

abbreviation turns :: "'t connection \<Rightarrow> 't connection \<Rightarrow> bool" where
  "turns \<equiv> turn\<^sup>*\<^sup>*"

subsection \<open>Moving bytes\<close>

lemma send_encoded_frame: "\<exists>t d. snd (send_encoded io k a0 a1 payload cs w) = w\<lparr>transport := t, desync := d\<rparr>"
proof -
  have "\<exists>t d. w = w\<lparr>transport := t, desync := d\<rparr>" by (intro exI [of _ "transport w"] exI [of _ "desync w"]) simp
  then show ?thesis
    by (auto simp: send_encoded_def and_then_def check_desync_def send_frame_def Let_def
        split: prod.splits sum.splits)
qed

lemma recv_pkt_or_frame: "\<exists>t b. snd (recv_pkt_or io interrupt race mp w) = w\<lparr>transport := t, recv_buf := b\<rparr>"
  by (auto simp: recv_pkt_or_def split: prod.splits)

lemma recv_pkt_snd: "snd (recv_pkt io mp w) = snd (recv_pkt_or io never True mp w)"
  by (auto simp: recv_pkt_def split: prod.splits outcome.splits received.splits)

lemma turns_send: "turns c0 c \<Longrightarrow> turns c0 (snd (send_encoded io k a0 a1 payload cs c))"
proof -
  assume c: "turns c0 c"
  obtain t d where "snd (send_encoded io k a0 a1 payload cs c) = c\<lparr>transport := t, desync := d\<rparr>"
    using send_encoded_frame [of io k a0 a1 payload cs c] by blast
  moreover have "turn c (c\<lparr>transport := t, desync := d\<rparr>)" using turn_wire [of c _ "recv_buf c"] by simp
  ultimately show ?thesis using c by simp
qed

lemma turns_recv: "turns c0 c \<Longrightarrow> turns c0 (snd (recv_pkt_or io interrupt race mp c))"
proof -
  assume c: "turns c0 c"
  obtain t b where "snd (recv_pkt_or io interrupt race mp c) = c\<lparr>transport := t, recv_buf := b\<rparr>"
    using recv_pkt_or_frame [of io interrupt race mp c] by blast
  moreover have "turn c (c\<lparr>transport := t, recv_buf := b\<rparr>)" using turn_wire [of c "desync c"] by simp
  ultimately show ?thesis using c by simp
qed

lemma turns_recv_pkt: "turns c0 c \<Longrightarrow> turns c0 (snd (recv_pkt io mp c))"
  unfolding recv_pkt_snd by (rule turns_recv)

lemmas send_defs = send_okay_def send_okay_to_def send_raw_def send_pkt_def send_open_def

lemma turns_sends:
  assumes "turns c0 c"
  shows "turns c0 (snd (send_okay io ack c))" and "turns c0 (snd (send_pkt io pkt cs c))"
    and "turns c0 (snd (send_raw io k ids payload cs c))" and "turns c0 (snd (send_open io l credit dest cs c))"
  using turns_send [OF assms] by (simp_all add: send_defs)

subsection \<open>Waiting\<close>

lemma turns_act_on:
  assumes "turns c0 c"
  shows "turns c0 (snd (act_on io pkt c))"
proof -
  obtain r t where d: "dispatch pkt (table c) = (r, t)" by force
  have t: "turns c0 (c\<lparr>table := t\<rparr>)" using assms turn_dispatch [of c pkt] d by (auto intro: rtranclp.rtrancl_into_rtrancl)
  show ?thesis
  proof (cases r)
    case (IncomingOpen remote credit destination)
    then show ?thesis
      using d turns_sends(2) [OF t] rtranclp.rtrancl_into_rtrancl [OF t turn_queue [of "c\<lparr>table := t\<rparr>"]]
      by (auto simp: act_on_def Let_def)
  next
    case (CancelPendingOpen remote)
    then show ?thesis
      using d rtranclp.rtrancl_into_rtrancl [OF t turn_withdraw [of "c\<lparr>table := t\<rparr>"]] by (simp add: act_on_def)
  qed (use d t turns_sends [OF t] in \<open>simp_all add: act_on_def Let_def\<close>)
qed

lemma conn_dispatch_snd: "snd (conn_dispatch io pkt c) = snd (act_on io pkt c)"
  by (auto simp: conn_dispatch_def split: prod.splits outcome.splits)

lemma turns_dispatch: "turns c0 c \<Longrightarrow> turns c0 (snd (conn_dispatch io pkt c))"
  unfolding conn_dispatch_snd by (rule turns_act_on)

lemma turns_slot:
  "turns c0 c \<Longrightarrow> table_get (table c) ch = Some s \<Longrightarrow> s' = slot_step a s \<Longrightarrow> \<forall>f. a \<noteq> FailOp f \<Longrightarrow>
    turns c0 (c\<lparr>table := table_put ch s' (table c)\<rparr>)"
  by (metis rtranclp.rtrancl_into_rtrancl turn_slot)

lemma take_buffered_step:
  "take_buffered n s = ((r :: 'e error + bytes option), s') \<Longrightarrow> s' = slot_step (TakeOp n) s"
  by (auto simp: take_buffered_def Let_def split: if_splits)

lemma turns_take_now: "turns c0 c \<Longrightarrow> turns c0 (snd (take_now ch len c))"
  by (auto simp: take_now_def split: option.split prod.split sum.split
      intro: turns_slot [where a = "TakeOp len"] take_buffered_step)

lemma turns_okay_if: "turns c0 c \<Longrightarrow> turns c0 (snd (okay_if io ack c))"
  unfolding okay_if_def by (auto split: option.split intro!: awaited_keeps [where P = "turns c0"] turns_sends)

lemma turns_take:
  assumes "turns c0 c"
  shows "turns c0 (snd (conn_take_buffered io ch len c))"
  unfolding conn_take_buffered_def
proof (rule and_then_keeps, goal_cases)
  case 1
  then show ?case using assms by simp
next
  case (2 a c1)
  show ?case
  proof (cases "table_get (table c1) ch")
    case (Some s)
    obtain ack s1 where st: "settle_take len s = (ack, s1)" by force
    have "turns c0 (c1\<lparr>table := table_put ch s1 (table c1)\<rparr>)"
      using 2(2) Some st by (intro turns_slot [where a = "SettleOp len"]) auto
    then show ?thesis
      using Some st by (auto intro!: and_then_keeps [where P = "turns c0"] turns_okay_if turns_take_now)
  qed (use 2 in simp)
qed

lemma turns_dispatch_and_take: "turns c0 c \<Longrightarrow> turns c0 (snd (dispatch_and_take io ch len pkt c))"
  unfolding dispatch_and_take_def
  by (rule awaited_keeps [where P = "turns c0"], erule turns_dispatch, rule awaited_keeps [where P = "turns c0"], erule turns_take)
    simp

lemma turns_deliver:
  assumes "turns c0 c"
  shows "turns c0 (snd (deliver_direct io ch payload c))"
proof (cases "table_get (table c) ch")
  case (Some s)
  obtain ack s1 where d: "deliver (length payload) s = (ack, s1)" by force
  have "turns c0 (c\<lparr>table := table_put ch s1 (table c)\<rparr>)"
    using assms Some d by (intro turns_slot [where a = "DeliverOp (length payload)"]) auto
  then show ?thesis
    using Some d by (auto simp: deliver_direct_def intro!: and_then_keeps [where P = "turns c0"] turns_okay_if)
qed (simp add: deliver_direct_def assms)

lemma turns_close_here: "turns c0 c \<Longrightarrow> turns c0 (close_here ch c)"
  by (auto simp: close_here_def split: option.split intro: turns_slot [where a = CloseOp])

lemma turns_recv_data_round: "turns c0 c \<Longrightarrow> turns c0 (snd (recv_data_round io interrupt race ch ids len c))"
  unfolding recv_data_round_def
  by (rule try_in_keeps [where P = "turns c0"], erule turns_recv)
    (auto split: received.split intro: turns_deliver turns_close_here
      intro!: try_in_keeps [where P = "turns c0"] turns_dispatch_and_take)

lemma turns_ready:
  "apply_ready p s = Inr s' \<Longrightarrow> table_get (table c) ch = Some s \<Longrightarrow> turns c0 c \<Longrightarrow>
    turns c0 (c\<lparr>table := table_put ch s' (table c)\<rparr>)"
  by (rule turns_slot [where a = "ReadyOp p"]) auto

lemma turns_spend:
  "table_get (table c) ch = Some s \<Longrightarrow> turns c0 c \<Longrightarrow> turns c0 (c\<lparr>table := table_put ch (spend n s) (table c)\<rparr>)"
  by (rule turns_slot [where a = "SpendOp n"]) auto

lemma turns_wait_ack_round: "turns c0 c \<Longrightarrow> turns c0 (snd (wait_ack_round io ch c))"
  unfolding wait_ack_round_def
  by (auto split: option.split sum.split
      intro!: try_in_keeps [where P = "turns c0"] turns_recv_pkt turns_close_here turns_dispatch
      intro: turns_ready)

lemma turns_wait_ack: "wait_ack io ch c = Some y \<Longrightarrow> turns c0 c \<Longrightarrow> turns c0 (snd y)"
  unfolding wait_ack_def by (rule looping_keeps [where P = "turns c0"]) (auto intro: turns_wait_ack_round)

lemma turns_recv_data: "recv_data io interrupt race ch len c = Some y \<Longrightarrow> turns c0 c \<Longrightarrow> turns c0 (snd y)"
  unfolding recv_data_def
  by (erule loop_then_keeps [where P = "turns c0"], erule turns_take)
    (auto split: option.splits sum.splits intro: looping_keeps [where P = "turns c0"] turns_recv_data_round)

lemma turns_write_chunk: "turns c0 c \<Longrightarrow> turns c0 (snd (write_chunk io ch rest c))"
  unfolding write_chunk_def Let_def
  by (auto split: option.split sum.split
      intro!: and_then_keeps [where P = "turns c0"] turns_sends intro: turns_spend)

lemma turns_write_loop: "write_loop io ch rest c = Some y \<Longrightarrow> turns c0 c \<Longrightarrow> turns c0 (snd y)"
proof (induction rule: write_loop.raw_induct [rotated, consumes 1, case_names step])
  case (step f io ch rest c y)
  show ?case
  proof (cases "rest = []")
    case False
    then obtain r where r: "wait_ack io ch c = Some r"
      and y: "loop_then r (\<lambda>_ c. loop_then (write_chunk io ch rest c) (\<lambda>n c. f io ch (drop n rest) c)) = Some y"
      using step.hyps by (auto simp: bind_eq_Some_conv)
    have "turns c0 (snd r)" by (rule turns_wait_ack [OF r step.prems])
    then show ?thesis
      using loop_then_keeps [OF y, of "turns c0"] step.IH turns_write_chunk
        loop_then_keeps [of "write_chunk io ch rest c1" "\<lambda>n c. f io ch (drop n rest) c" y "turns c0" for c1]
      by blast
  qed (use step in auto)
qed

lemma turns_write_channel: "write_channel io ch payload c = Some y \<Longrightarrow> turns c0 c \<Longrightarrow> turns c0 (snd y)"
  unfolding write_channel_def
  by (erule loop_then_keeps [where P = "turns c0"]) (auto split: if_splits intro: turns_write_loop)

lemma turns_await_round:
  assumes "await_open_round io ch c = (r, c1)" and "turns c0 c"
  shows "(\<exists>pkt c2. turns c0 c2 \<and> command pkt = Ready \<and> arg1 pkt = ch_local ch \<and>
      (r, c1) = leave (open_answered io ch pkt c2)) \<or> turns c0 c1 \<and> (\<forall>ch. r \<noteq> Some (Ok ch))"
proof (cases "recv_pkt io (inbound_limit c) c")
  case (Pair q c2)
  have c2: "turns c0 c2" using turns_recv_pkt [OF assms(2), of io "inbound_limit c"] Pair by simp
  show ?thesis
  proof (cases q)
    case (Ok pkt)
    show ?thesis
    proof (cases "command pkt = Ready \<and> arg1 pkt = ch_local ch")
      case True
      then show ?thesis using assms(1) Pair Ok c2 by (intro disjI1 exI [of _ pkt] exI [of _ c2]) (simp add: await_open_round_def)
    next
      case False
      obtain d c3 where "conn_dispatch io pkt c2 = (d, c3)" by force
      then show ?thesis using False assms(1) Pair Ok c2 turns_dispatch [OF c2, of io pkt]
        by (cases d) (auto simp: await_open_round_def try_in_def split: if_splits)
    qed
  qed (use assms(1) Pair c2 in \<open>auto simp: await_open_round_def try_in_def\<close>)
qed

section \<open>The invariant of a connection\<close>

definition slots_ok :: "channel_table \<Rightarrow> bool" where
  "slots_ok t \<longleftrightarrow> (\<forall>s. Some s \<in> set (slots t) \<longrightarrow> slot_ok s \<and> policy s = table_policy t \<and> failed s = None)"

definition conn_ok :: "'t connection \<Rightarrow> bool" where
  "conn_ok c \<longleftrightarrow> length (incoming c) \<le> table_len (table c) \<and> table_policy (table c) = rx_policy_of (conn_neg c) \<and>
     next_local_id (table c) \<noteq> 0 \<and> slots_ok (table c)"

text \<open>Which slots are taken, and by which local ids.\<close>

definition layout :: "channel_table \<Rightarrow> u32 option list" where
  "layout t = map (map_option slot_local) (slots t)"

lemma layout_len: "layout t = layout t' \<Longrightarrow> table_len t = table_len t'"
  unfolding layout_def table_len_def by (metis length_map)

lemma layout_get: "layout t = layout t' \<Longrightarrow> table_get t ch = None \<longleftrightarrow> table_get t' ch = None"
proof -
  have *: "table_get t ch = None \<longleftrightarrow> \<not> (ch_slot ch < length (layout t) \<and> layout t ! ch_slot ch = Some (ch_local ch))" for t
    by (auto simp: table_get_def layout_def split: option.splits)
  show "layout t = layout t' \<Longrightarrow> table_get t ch = None \<longleftrightarrow> table_get t' ch = None" by (simp add: *)
qed

lemma slot_step_failed: "\<forall>f. a \<noteq> FailOp f \<Longrightarrow> failed (slot_step a s) = failed s"
  by (cases a) (auto simp: slot_op_defs Let_def split: option.splits if_splits sum.splits ack_mode.splits)

lemma slot_step_remote: "slot_remote s \<noteq> None \<Longrightarrow> slot_remote (slot_step a s) \<noteq> None"
  by (cases a) (auto simp: slot_op_defs Let_def split: option.splits if_splits sum.splits ack_mode.splits)

lemma dispatch_slot_step:
  assumes "dispatch_slot pkt idx s = (r, s')"
  shows "s' = s \<or> (\<exists>a. (\<forall>f. a \<noteq> FailOp f) \<and> s' = slot_step a s)"
proof (cases "command pkt")
  case Write
  then show ?thesis using assms
    by (auto simp: dispatch_slot_def split: if_splits option.splits prod.splits ack_decision.splits
        intro!: exI [of _ "WriteOp (data pkt)"])
next
  case Ready
  then show ?thesis using assms
    by (auto simp: dispatch_slot_def split: if_splits sum.splits
        intro: exI [of _ "OpenReady (arg0 pkt) (data pkt)"] exI [of _ "ReadyOp (data pkt)"])
next
  case Close
  then show ?thesis using assms by (auto simp: dispatch_slot_def intro!: exI [of _ CloseOp])
qed (use assms in \<open>auto simp: dispatch_slot_def\<close>)

lemma dispatch_step:
  assumes "dispatch pkt t = (r, t')"
  shows "t' = t \<or> (\<exists>i s a. i < length (slots t) \<and> slots t ! i = Some s \<and> (\<forall>f. a \<noteq> FailOp f) \<and>
    t' = t\<lparr>slots := (slots t)[i := Some (slot_step a s)]\<rparr>)"
  using assms
proof (cases rule: dispatch_slots)
  case (2 i s s')
  have "s' = s \<or> (\<exists>a. (\<forall>f. a \<noteq> FailOp f) \<and> s' = slot_step a s)"
  proof (cases "s' = apply_close s")
    case True
    then show ?thesis by (intro disjI2 exI [of _ CloseOp]) simp
  next
    case False
    then show ?thesis using 2(7) dispatch_slot_step [of pkt i s r s'] by auto
  qed
  then show ?thesis
  proof
    assume "s' = s"
    then have "t' = t" using 2(2,3) by (metis channel_table.surjective channel_table.update_convs(1) list_update_id)
    then show ?thesis by simp
  next
    assume "\<exists>a. (\<forall>f. a \<noteq> FailOp f) \<and> s' = slot_step a s"
    then show ?thesis using 2(1-3) by blast
  qed
qed simp

lemma slots_ok_update:
  assumes "slots_ok t" and "slots t ! i = Some s" and "i < length (slots t)" and "\<forall>f. a \<noteq> FailOp f"
  shows "slots_ok (t\<lparr>slots := (slots t)[i := Some (slot_step a s)]\<rparr>)"
proof -
  have "Some s \<in> set (slots t)" using assms(2,3) by (metis nth_mem)
  then have s: "slot_ok s" "policy s = table_policy t" "failed s = None" using assms(1) by (auto simp: slots_ok_def)
  have "slot_ok x \<and> policy x = table_policy t \<and> failed x = None" if "Some x \<in> set ((slots t)[i := Some (slot_step a s)])" for x
    using that set_update_subset_insert [of "slots t" i "Some (slot_step a s)"] assms(1)
      slot_step_ok [OF s(1)] slot_step_fixed(2) [of a s] slot_step_failed [OF assms(4)] s
    by (auto simp: slots_ok_def)
  then show ?thesis by (simp add: slots_ok_def)
qed

lemma layout_update:
  assumes "slots t ! i = Some s" and "i < length (slots t)"
  shows "layout (t\<lparr>slots := (slots t)[i := Some (slot_step a s)]\<rparr>) = layout t"
  using assms by (simp add: layout_def map_update slot_step_fixed list_update_same_conv)

lemma table_put_slots:
  assumes "table_get t ch = Some s"
  shows "ch_slot ch < length (slots t)" and "slots t ! ch_slot ch = Some s"
    and "table_put ch x t = t\<lparr>slots := (slots t)[ch_slot ch := Some x]\<rparr>"
  using assms by (auto simp: table_put_def table_get_def split: if_splits option.splits)

lemma turn_fixed:
  assumes "turn c c'"
  shows "conn_neg c' = conn_neg c \<and> layout (table c') = layout (table c) \<and>
    next_local_id (table c') = next_local_id (table c) \<and> table_policy (table c') = table_policy (table c)"
  using assms
proof cases
  case (turn_slot ch s a)
  then show ?thesis using table_put_slots [OF turn_slot(2)] layout_update [of "table c" "ch_slot ch" s a] by simp
next
  case (turn_dispatch pkt)
  then show ?thesis using dispatch_step [of pkt "table c" "fst (dispatch pkt (table c))" "snd (dispatch pkt (table c))"]
    by (auto simp: layout_update)
qed simp_all

lemma turn_ok:
  assumes "turn c c'" and "conn_ok c"
  shows "conn_ok c'"
proof -
  have fixed: "conn_neg c' = conn_neg c" "layout (table c') = layout (table c)"
      "next_local_id (table c') = next_local_id (table c)" "table_policy (table c') = table_policy (table c)"
    using turn_fixed [OF assms(1)] by blast+
  have ok: "slots_ok (table c)" "length (incoming c) \<le> table_len (table c)" using assms(2) by (auto simp: conn_ok_def)
  from assms(1) have "slots_ok (table c') \<and> length (incoming c') \<le> table_len (table c)"
  proof cases
    case (turn_slot ch s a)
    then show ?thesis using ok table_put_slots [OF turn_slot(2)] slots_ok_update by simp
  next
    case (turn_dispatch pkt)
    then show ?thesis
      using ok dispatch_step [of pkt "table c" "fst (dispatch pkt (table c))" "snd (dispatch pkt (table c))"]
      by (auto intro: slots_ok_update)
  next
    case (turn_withdraw remote)
    then show ?thesis
      using ok le_trans [OF length_filter_le] by (simp add: withdraw_def)
  qed (use ok in \<open>simp_all add: push_back_def\<close>)
  then show ?thesis using fixed layout_len [OF fixed(2)] assms(2) by (simp add: conn_ok_def)
qed

lemma turns_fixed:
  assumes "turns c c'"
  shows "conn_neg c' = conn_neg c" and "layout (table c') = layout (table c)"
    and "next_local_id (table c') = next_local_id (table c)" and "table_policy (table c') = table_policy (table c)"
  using assms by (induction rule: rtranclp_induct; use turn_fixed in fastforce)+

lemma turns_ok: "turns c c' \<Longrightarrow> conn_ok c \<Longrightarrow> conn_ok c'"
  by (induction rule: rtranclp_induct) (auto intro: turn_ok)

subsection \<open>Filling and freeing slots\<close>

lemma slots_ok_fill:
  assumes "slots_ok t" and "fill ch s t = Some t'" and "slot_ok s" and "policy s = table_policy t" and "failed s = None"
  shows "slots_ok t'" and "table_policy t' = table_policy t" and "next_local_id t' = next_local_id t" and "table_len t' = table_len t"
proof -
  have t': "t' = t\<lparr>slots := (slots t)[ch_slot ch := Some s]\<rparr>" using assms(2) by (simp add: fill_def split: if_splits)
  show "slots_ok t'"
    using assms set_update_subset_insert [of "slots t" "ch_slot ch" "Some s"] by (auto simp: slots_ok_def t')
  show "table_policy t' = table_policy t" "next_local_id t' = next_local_id t" "table_len t' = table_len t"
    by (simp_all add: t' table_len_def)
qed

lemma slots_ok_free:
  assumes "slots_ok t"
  shows "slots_ok (snd (table_free ch t))" and "table_policy (snd (table_free ch t)) = table_policy t"
    and "next_local_id (snd (table_free ch t)) = next_local_id t" and "table_len (snd (table_free ch t)) = table_len t"
proof -
  show "slots_ok (snd (table_free ch t))"
    using assms set_update_subset_insert [of "slots t" "ch_slot ch" None]
    by (auto simp: slots_ok_def table_free_def split: option.splits)
qed (auto simp: table_free_def table_len_def split: option.splits)

lemma slots_ok_allocate:
  assumes "allocate t = (r, t')"
  shows "slots_ok t' = slots_ok t" and "table_policy t' = table_policy t" and "table_len t' = table_len t"
    and "next_local_id t \<noteq> 0 \<Longrightarrow> next_local_id t' \<noteq> 0" and "layout t' = layout t"
proof -
  have "following_id n \<noteq> 0" for n :: u32 using following_id_nonzero by simp
  then show "next_local_id t \<noteq> 0 \<Longrightarrow> next_local_id t' \<noteq> 0" using assms by (auto simp: allocate_def split: option.splits)
qed (use assms in \<open>auto simp: allocate_def slots_ok_def table_len_def layout_def split: option.splits\<close>)

lemma conn_ok_free: "conn_ok c \<Longrightarrow> conn_ok (c\<lparr>table := snd (table_free ch (table c))\<rparr>)"
  using slots_ok_free [of "table c" ch] by (simp add: conn_ok_def)

lemma conn_ok_allocate: "conn_ok c \<Longrightarrow> allocate (table c) = (r, t) \<Longrightarrow> conn_ok (c\<lparr>table := t\<rparr>)"
  using slots_ok_allocate [of "table c" r t] by (simp add: conn_ok_def)

lemma conn_ok_fill:
  "conn_ok c \<Longrightarrow> fill ch s (table c) = Some t \<Longrightarrow> slot_ok s \<Longrightarrow> policy s = table_policy (table c) \<Longrightarrow> failed s = None \<Longrightarrow>
    conn_ok (c\<lparr>table := t\<rparr>)"
  using slots_ok_fill [of "table c" ch s t] by (simp add: conn_ok_def)

lemma fresh_slots:
  "slot_ok (slot_opening l p)" "policy (slot_opening l p) = p" "failed (slot_opening l p) = None"
  "slot_ok (slot_accepted ids n p)" "policy (slot_accepted ids n p) = p" "failed (slot_accepted ids n p) = None"
  by (simp_all add: slot_opening_def slot_accepted_def Let_def slot_ok_def held_def)

section \<open>Opening, closing, deciding\<close>

lemma write_all_no_panic: "fst (write_all io buf t) \<noteq> Panicked"
proof (induction io buf t rule: write_all.induct)
  case (1 io buf t)
  then show ?case by (subst write_all.simps) (auto split: prod.splits polled.splits)
qed

lemma send_encoded_no_panic: "fst (send_encoded io k a0 a1 payload cs w) \<noteq> Panicked"
proof -
  have "fst (write_frame io h p t) \<noteq> Panicked" for h p t
    using write_all_no_panic [of io h t] write_all_no_panic [of io p]
    by (auto simp: write_frame_def and_then_def split: prod.splits outcome.splits polled.splits if_splits) (metis fst_conv)+
  then show ?thesis
    by (auto simp: send_encoded_def and_then_def check_desync_def send_frame_def Let_def split: prod.splits sum.splits)
      (metis fst_conv)
qed

lemma wire_frame_ok:
  "conn_ok c \<Longrightarrow> conn_ok (snd (send_pkt io pkt cs c))"
  using turns_ok [OF turns_sends(2) [OF rtranclp.rtrancl_refl]] .

text \<open>Opening is an allocation, turns, and at the end a filled slot or none.\<close>

lemma open_answered_cases:
  assumes "open_answered io ch pkt c = (r, c')"
  obtains (panic) "r = Panicked" and "c' = c" and "insert_opening ch (table c) = None"
  | (opened) t s where "r = Ok ch" and "insert_opening ch (table c) = Some t" and "c' = c\<lparr>table := table_put ch s t\<rparr>"
      and "accept_open_ready (arg0 pkt) (data pkt) (slot_opening (ch_local ch) (table_policy (table c))) = Inr s"
  | (refused) t where "insert_opening ch (table c) = Some t" and "\<forall>x. r \<noteq> Ok x"
      and "turns (c\<lparr>table := snd (table_free ch t)\<rparr>) c'"
proof (cases "insert_opening ch (table c)")
  case None
  then show thesis using assms panic by (auto simp: open_answered_def)
next
  case (Some t)
  show thesis
  proof (cases "accept_open_ready (arg0 pkt) (data pkt) (slot_opening (ch_local ch) (table_policy (table c)))")
    case (Inr s)
    then show thesis using assms Some opened by (auto simp: open_answered_def)
  next
    case (Inl e)
    define c1 where "c1 = c\<lparr>table := snd (table_free ch t)\<rparr>"
    define sent where "sent = send_pkt io (packet_close \<lparr>ids_local = ch_local ch, ids_remote = arg0 pkt\<rparr>) (conn_checksum c1) c1"
    have "and_then sent (\<lambda>_ c. (Err (Protocol e), c)) = (r, c')"
      using assms Some Inl by (simp add: open_answered_def Let_def c1_def sent_def)
    moreover have "turns c1 (snd sent)" unfolding sent_def by (rule turns_sends) simp
    ultimately have "\<forall>x. r \<noteq> Ok x" "turns c1 c'" by (auto simp: and_then_def split: outcome.splits prod.splits)
    then show thesis using refused [OF Some] by (simp add: c1_def)
  qed
qed

lemma accept_open_ready_ok:
  assumes "accept_open_ready remote p s = Inr s'"
  shows "slot_remote s' = Some remote" and "slot_state s' = OpenState" and "slot_local s' = slot_local s" and "s' = slot_step (OpenReady remote p) s"
  using assms by (auto simp: accept_open_ready_def Let_def split: if_splits sum.splits)

lemma layout_nth: "i < length (slots t) \<Longrightarrow> layout t ! i = map_option slot_local (slots t ! i)"
  by (simp add: layout_def)

lemma fill_free:
  assumes "fill ch s t = Some t'" and "slots t ! ch_slot ch = None" and "slot_local s = ch_local ch"
  shows "snd (table_free ch t') = t"
proof -
  have "t' = t\<lparr>slots := (slots t)[ch_slot ch := Some s]\<rparr>" "ch_slot ch < length (slots t)"
    using assms(1) by (auto simp: fill_def split: if_splits)
  then show ?thesis using assms(2,3) list_update_id [of "slots t" "ch_slot ch"] by (simp add: table_free_def table_get_def)
qed

lemma fill_put:
  assumes "fill ch s t = Some t'" and "slot_local s = ch_local ch"
  shows "fill ch x t = Some (table_put ch x t')"
  using assms by (auto simp: fill_def table_put_def table_get_def split: if_splits)

text \<open>
  What opening leaves behind: a channel in a slot that was free, with the device's id, or a
  connection that differs from the one before by turns and the id that was used up.
\<close>

lemma open_channel_cases:
  assumes "open_channel io dest c = Some (r, c')"
  obtains (refused) "\<forall>ch. r \<noteq> Ok ch" and "turns c c'"
  | (tried) ch t where "allocate (table c) = (Some ch, t)" and "\<forall>ch. r \<noteq> Ok ch" and "turns (c\<lparr>table := t\<rparr>) c'"
  | (opened) ch t c1 s and pkt :: packet where "r = Ok ch" and "allocate (table c) = (Some ch, t)" and "turns (c\<lparr>table := t\<rparr>) c1"
      and "fill ch s (table c1) = Some (table c')" and "c' = c1\<lparr>table := table c'\<rparr>"
      and "accept_open_ready (arg0 pkt) (data pkt) (slot_opening (ch_local ch) (table_policy (table c1))) = Inr s"
proof (cases "desync c")
  case True
  then have "(r, c') = (Err Desynchronized, c)" using assms by (simp add: open_channel_def check_desync_def loop_then_def)
  then show thesis using refused by simp
next
  case False
  obtain a t where al: "allocate (table c) = (a, t)" by force
  show thesis
  proof (cases a)
    case None
    then have "t = table c" using al by (auto simp: allocate_def split: option.splits)
    then have "(r, c') = (Err NoFreeChannels, c)" using assms False al None by (simp add: open_channel_def check_desync_def)
    then show thesis using refused by simp
  next
    case (Some ch)
    define c0 where "c0 = c\<lparr>table := t\<rparr>"
    define sent where "sent = send_open io (ch_local ch) (case advertised_credit (conn_neg c0) of Some n \<Rightarrow> n | None \<Rightarrow> 0)
      dest (conn_checksum c0) c0"
    have run: "loop_then sent (\<lambda>_ c. await_open_ack io ch c) = Some (r, c')"
      using assms False al Some by (simp add: open_channel_def check_desync_def Let_def c0_def sent_def)
    have turned: "turns c0 (snd sent)" unfolding sent_def by (rule turns_sends) simp
    show thesis
    proof (cases "fst sent")
      case (Ok u)
      then have "looping (await_open_round io ch) (snd sent) = Some (r, c')"
        using run by (cases sent) (simp add: await_open_ack_def)
      moreover have "turns c0 s1" if "turns c0 s" "await_open_round io ch s = (None, s1)" for s s1
        using turns_await_round [OF that(2,1)] by (auto simp: leave_def)
      ultimately obtain c2 where c2: "turns c0 c2" "await_open_round io ch c2 = (Some r, c')"
        using looping_last [of "await_open_round io ch" "snd sent" r c' "turns c0"] turned by blast
      show thesis
      proof (cases "turns c0 c' \<and> (\<forall>ch. r \<noteq> Ok ch)")
        case True
        then show thesis using tried [OF al [unfolded Some]] by (simp add: c0_def)
      next
        case False
        then obtain pkt c3 where l: "turns c0 c3" "(Some r, c') = leave (open_answered io ch pkt c3)"
          using turns_await_round [OF c2(2,1)] by blast
        then have c3: "turns c0 c3" "open_answered io ch pkt c3 = (r, c')"
          by (simp_all add: leave_def prod_eq_iff)
        have lay: "layout (table c3) = layout (table c)"
          using turns_fixed(2) [OF c3(1)] slots_ok_allocate(5) [OF al] by (simp add: c0_def)
        have len: "length (slots (table c3)) = length (slots (table c))" using layout_len [OF lay] by (simp add: table_len_def)
        have free: "slots (table c3) ! ch_slot ch = None"
          using allocate_Some(1,2) [OF al [unfolded Some]] layout_nth [of "ch_slot ch" "table c3"]
            layout_nth [of "ch_slot ch" "table c"] len lay by simp
        from c3(2) show thesis
        proof (cases rule: open_answered_cases)
          case panic
          then show thesis using c3(1) tried [OF al [unfolded Some]] by (simp add: c0_def)
        next
          case (opened t1 s)
          have "fill ch s (table c3) = Some (table_put ch s t1)"
            by (rule fill_put [OF opened(2) [unfolded insert_opening_def]]) (simp add: slot_opening_def)
          then show thesis
            using that(3) [of ch t c3 s pkt] al Some opened c3(1) by (simp add: c0_def)
        next
          case (refused t1)
          have "snd (table_free ch t1) = table c3"
            by (rule fill_free [OF refused(1) [unfolded insert_opening_def] free]) (simp add: slot_opening_def)
          then have "turns c3 c'" using refused(3) by simp
          then show thesis
            using rtranclp_trans [OF c3(1)] refused(2) tried [OF al [unfolded Some]] by (simp add: c0_def)
        qed
      qed
    qed (use run turned tried [OF al [unfolded Some]] in \<open>auto simp: loop_then_def c0_def split: prod.splits\<close>)
  qed
qed

text \<open>Answering a request never touches the table or the queue.\<close>

lemma answer_frame:
  assumes "answer io verdict i = (r, i')"
  shows "turns (in_conn i) (in_conn i')" and "table (in_conn i') = table (in_conn i)"
    and "incoming (in_conn i') = incoming (in_conn i)" and "in_reserved i' = in_reserved i"
    and "in_pending i' = (case r of Ok _ \<Rightarrow> None | Err e \<Rightarrow> if connection_gone io e then None else in_pending i | _ \<Rightarrow> in_pending i)"
    and "r \<noteq> Panicked" and "conn_neg (in_conn i') = conn_neg (in_conn i)"
proof -
  define sent where "sent = send_pkt io verdict (conn_checksum (in_conn i)) (in_conn i)"
  obtain t d where f: "snd sent = (in_conn i)\<lparr>transport := t, desync := d\<rparr>"
    unfolding sent_def send_pkt_def using send_encoded_frame [where w = "in_conn i"] by blast
  have a: "fst sent = r" "in_conn i' = snd sent" "in_reserved i' = in_reserved i"
      "in_pending i' = (if (case r of Ok _ \<Rightarrow> True | Err e \<Rightarrow> connection_gone io e | _ \<Rightarrow> False) then None else in_pending i)"
    using assms by (auto simp: answer_def sent_def Let_def split: prod.splits)
  show "turns (in_conn i) (in_conn i')" unfolding a(2) sent_def by (rule turns_sends) simp
  show "table (in_conn i') = table (in_conn i)" "incoming (in_conn i') = incoming (in_conn i)"
    "conn_neg (in_conn i') = conn_neg (in_conn i)" by (simp_all add: a(2) f)
  show "in_reserved i' = in_reserved i" by (fact a(3))
  show "in_pending i' = (case r of Ok _ \<Rightarrow> None | Err e \<Rightarrow> if connection_gone io e then None else in_pending i | _ \<Rightarrow> in_pending i)"
    by (simp add: a(4) split: outcome.splits)
  show "r \<noteq> Panicked" using a(1) unfolding sent_def send_pkt_def by (metis send_encoded_no_panic)
qed

lemma write_all_error: "write_all io buf t \<noteq> (Err NoFreeChannels, t')"
proof (induction io buf t rule: write_all.induct)
  case (1 io buf t)
  then show ?case by (subst write_all.simps) (auto split: prod.splits polled.splits)
qed

lemma send_encoded_error: "send_encoded io k a0 a1 payload cs w \<noteq> (Err NoFreeChannels, w')"
proof -
  have "write_frame io h p t \<noteq> (Err NoFreeChannels, t')" for h p t t'
    by (auto simp: write_frame_def and_then_def write_all_error split: prod.splits outcome.splits polled.splits if_splits)
  then show ?thesis
    by (auto simp: send_encoded_def and_then_def check_desync_def send_frame_def Let_def split: prod.splits sum.splits)
qed

lemma answer_error: "answer io verdict i \<noteq> (Err NoFreeChannels, i')"
  by (auto simp: answer_def send_pkt_def Let_def send_encoded_error split: prod.splits)

lemma try_accept_Some:
  assumes "try_accept_incoming c = Some i"
  obtains p q where "incoming c = p # q" and "i = \<lparr>in_conn = c\<lparr>incoming := q\<rparr>, in_pending = Some p, in_reserved = None\<rparr>"
  using assms by (auto simp: try_accept_incoming_def pop_front_def split: list.splits)

text \<open>The two ways \<open>accept\<close> goes: no slot is free, or one is reserved and the READY decides.\<close>

lemma accept_full:
  assumes "incoming c = p # q" and "allocate (table c) = (None, t)"
    and "accept io \<lparr>in_conn = c\<lparr>incoming := q\<rparr>, in_pending = Some p, in_reserved = None\<rparr> = (r, c')"
  shows "\<forall>ch. r \<noteq> Ok ch" and "r \<noteq> Panicked" and "table c' = table c"
    and "incoming c' = (case r of Err e \<Rightarrow> if e = NoFreeChannels \<or> connection_gone io e then q else p # q | _ \<Rightarrow> p # q)"
    and "conn_neg c' = conn_neg c"
proof -
  have t: "t = table c" using assms(2) by (auto simp: allocate_def split: option.splits)
  obtain s i' where a: "answer io (packet_refuse (po_remote p))
      \<lparr>in_conn = c\<lparr>incoming := q\<rparr>, in_pending = Some p, in_reserved = None\<rparr> = (s, i')" by force
  note f = answer_frame [OF a]
  have "(r, c') = (case s of Ok _ \<Rightarrow> (Err NoFreeChannels, incoming_drop i') | Err e \<Rightarrow> (Err e, incoming_drop i')
      | Cancelled \<Rightarrow> (Cancelled, incoming_drop i') | Panicked \<Rightarrow> (Panicked, incoming_drop i'))"
    using assms(2,3) a t by (auto simp: accept_def accept_body_def and_then_def split: outcome.splits)
  then show "\<forall>ch. r \<noteq> Ok ch" "r \<noteq> Panicked" "table c' = table c"
    "incoming c' = (case r of Err e \<Rightarrow> if e = NoFreeChannels \<or> connection_gone io e then q else p # q | _ \<Rightarrow> p # q)"
    "conn_neg c' = conn_neg c"
    using f answer_error [of io _ _ i'] a
    by (auto simp: incoming_drop_def Let_def push_front_def split: outcome.splits if_splits)
qed

lemma accept_reserved:
  assumes "incoming c = p # q" and "allocate (table c) = (Some ch, t)"
    and "accept io \<lparr>in_conn = c\<lparr>incoming := q\<rparr>, in_pending = Some p, in_reserved = None\<rparr> = (r, c')"
  defines "s \<equiv> slot_accepted \<lparr>ids_local = ch_local ch, ids_remote = po_remote p\<rparr> (po_credit p) (table_policy (table c))"
  shows "r \<noteq> Panicked" and "conn_neg c' = conn_neg c" and "r = Ok x \<Longrightarrow> x = ch"
    and "case r of Ok _ \<Rightarrow> fill ch s t = Some (table c') | _ \<Rightarrow> table c' = t"
    and "incoming c' = (case r of Ok _ \<Rightarrow> q | Err e \<Rightarrow> if connection_gone io e then q else p # q | _ \<Rightarrow> p # q)"
    and "r \<noteq> Err NoFreeChannels"
proof -
  note al = allocate_Some [OF assms(2)]
  have free: "slots t ! ch_slot ch = None" "table_policy t = table_policy (table c)" using al by simp_all
  obtain t1 where t1: "fill ch s t = Some t1" using al(1,4) by (simp add: fill_def)
  then have ins: "insert_accepted ch (po_remote p) (po_credit p) t = Some t1" using free by (simp add: insert_accepted_def s_def)
  have undone: "snd (table_free ch t1) = t"
    by (rule fill_free [OF t1 free(1)]) (simp add: s_def slot_accepted_def slot_opening_def Let_def)
  define payload where "payload = (case advertised_credit (conn_neg c) of Some n \<Rightarrow> u32_to_le n | None \<Rightarrow> [])"
  obtain sent i' where a: "answer io (packet_new Ready (ch_local ch) (po_remote p) payload)
      \<lparr>in_conn = c\<lparr>incoming := q, table := t1\<rparr>, in_pending = Some p, in_reserved = Some ch\<rparr> = (sent, i')" by force
  note f = answer_frame [OF a]
  have res: "(r, c') = (case sent of Ok _ \<Rightarrow> (Ok ch, incoming_drop (i'\<lparr>in_reserved := None\<rparr>)) | Err e \<Rightarrow> (Err e, incoming_drop i')
      | Cancelled \<Rightarrow> (Cancelled, incoming_drop i') | Panicked \<Rightarrow> (Panicked, incoming_drop i'))"
    using assms(2,3) a ins by (auto simp: accept_def accept_body_def and_then_def payload_def Let_def split: outcome.splits)
  then show "r \<noteq> Panicked" "conn_neg c' = conn_neg c" "r = Ok x \<Longrightarrow> x = ch"
    "case r of Ok _ \<Rightarrow> fill ch s t = Some (table c') | _ \<Rightarrow> table c' = t"
    "incoming c' = (case r of Ok _ \<Rightarrow> q | Err e \<Rightarrow> if connection_gone io e then q else p # q | _ \<Rightarrow> p # q)"
    using f t1 undone by (auto simp: incoming_drop_def Let_def push_front_def split: outcome.splits if_splits)
  show "r \<noteq> Err NoFreeChannels" using res answer_error [of io _ _ i'] a by (auto split: outcome.splits)
qed

lemma reject_cases:
  assumes "incoming c = p # q" and "reject io \<lparr>in_conn = c\<lparr>incoming := q\<rparr>, in_pending = Some p, in_reserved = None\<rparr> = (r, c')"
  shows "conn_neg c' = conn_neg c" and "table c' = table c" and "incoming c' \<in> {q, p # q}"
proof -
  obtain s i' where a: "answer io (packet_refuse (po_remote p))
      \<lparr>in_conn = c\<lparr>incoming := q\<rparr>, in_pending = Some p, in_reserved = None\<rparr> = (s, i')" by force
  then have "r = s" "c' = incoming_drop i'" using assms(2) by (auto simp: reject_def)
  then show "conn_neg c' = conn_neg c" "table c' = table c" "incoming c' \<in> {q, p # q}"
    using answer_frame [OF a] by (auto simp: incoming_drop_def Let_def push_front_def split: outcome.splits if_splits)
qed

section \<open>Whole lives of connections\<close>

text \<open>
  One call of the public interface, whatever its arguments and however it ends; a request
  that was handed out is accepted, rejected or dropped undecided.  (The value an interrupt
  carries plays no part, so it is a unit here.)
\<close>

inductive call :: "('t, 'e) transport_ops \<Rightarrow> 't connection \<Rightarrow> 't connection \<Rightarrow> bool" for io where
  call_open: "open_channel io destination c = Some (r, c') \<Longrightarrow> call io c c'"
| call_read: "read_channel io ch len c = Some (r, c') \<Longrightarrow> call io c c'"
| call_select: "select_channel io (interrupt :: 't \<Rightarrow> unit option) ch len c = Some (r, c') \<Longrightarrow> call io c c'"
| call_write: "write_channel io ch payload c = Some (r, c') \<Longrightarrow> call io c c'"
| call_close: "close_channel io ch c = (r, c') \<Longrightarrow> call io c c'"
| call_wait: "accept_incoming io c = Some (r, c') \<Longrightarrow> \<forall>i. r \<noteq> Ok i \<Longrightarrow> call io c c'"
| call_undecided: "accept_incoming io c = Some (Ok i, c1) \<Longrightarrow> c' = incoming_drop i \<Longrightarrow> call io c c'"
| call_accept: "accept_incoming io c = Some (Ok i, c1) \<Longrightarrow> accept io i = (r, c') \<Longrightarrow> call io c c'"
| call_reject: "accept_incoming io c = Some (Ok i, c1) \<Longrightarrow> reject io i = (r, c') \<Longrightarrow> call io c c'"
| call_try_accept: "try_accept_incoming c = Some i \<Longrightarrow> accept io i = (r, c') \<Longrightarrow> call io c c'"
| call_try_reject: "try_accept_incoming c = Some i \<Longrightarrow> reject io i = (r, c') \<Longrightarrow> call io c c'"

lemma accept_incoming_cases:
  assumes "accept_incoming io c = Some (r, c')"
  shows "turns c c' \<and> (\<forall>i. r \<noteq> Ok i) \<or> (\<exists>i c1. r = Ok i \<and> turns c c1 \<and> try_accept_incoming c1 = Some i)"
proof (cases "desync c")
  case False
  then have "looping (accept_round io) c = Some (r, c')" using assms by (simp add: accept_incoming_def check_desync_def)
  moreover have round: "turns c s1" if "turns c s" "accept_round io s = (q, s1)" "\<forall>i. q \<noteq> Some (Ok i)" for s s1 q
  proof (cases "try_accept_incoming s")
    case None
    then have "turns c (snd (accept_round io s))"
      using that(1) by (auto simp: accept_round_def intro!: try_in_keeps [where P = "turns c"] turns_recv_pkt turns_dispatch)
    then show ?thesis using that(2) by simp
  qed (use that in \<open>auto simp: accept_round_def\<close>)
  ultimately obtain c1 where c1: "turns c c1" "accept_round io c1 = (Some r, c')"
    using looping_last [of "accept_round io" c r c' "turns c"] by blast
  show ?thesis
  proof (cases "\<exists>i. r = Ok i")
    case False
    then show ?thesis using round [OF c1] by auto
  next
    case True
    then show ?thesis using c1
      by (auto simp: accept_round_def try_in_def split: option.splits prod.splits outcome.splits)
  qed
qed (use assms in \<open>auto simp: accept_incoming_def check_desync_def loop_then_def\<close>)

text \<open>What every call keeps.\<close>

definition kept :: "'t connection \<Rightarrow> 't connection \<Rightarrow> bool" where
  "kept c c' \<longleftrightarrow> conn_ok c' \<and> conn_neg c' = conn_neg c \<and> table_len (table c') = table_len (table c)"

lemma kept_turns: "conn_ok c \<Longrightarrow> turns c c' \<Longrightarrow> kept c c'"
  using turns_ok [of c c'] turns_fixed(1) [of c c'] layout_len [OF turns_fixed(2), of c c'] by (auto simp: kept_def)

lemma kept_trans: "kept c c1 \<Longrightarrow> kept c1 c2 \<Longrightarrow> kept c c2"
  by (auto simp: kept_def)

lemma kept_queue:
  assumes "conn_ok c" and "conn_neg c' = conn_neg c" and "table c' = table c" and "length (incoming c') \<le> length (incoming c)"
  shows "kept c c'"
  using assms by (auto simp: kept_def conn_ok_def)

lemma kept_open:
  assumes "conn_ok c" and "open_channel io destination c = Some (r, c')"
  shows "kept c c'"
  using assms(2)
proof (cases rule: open_channel_cases)
  case refused
  then show ?thesis using kept_turns [OF assms(1)] by blast
next
  case (tried ch t)
  have "kept c (c\<lparr>table := t\<rparr>)"
    using conn_ok_allocate [OF assms(1) tried(1)] slots_ok_allocate(3) [OF tried(1)] by (simp add: kept_def)
  then show ?thesis using kept_turns [OF _ tried(3)] kept_trans by (metis kept_def)
next
  case (opened ch t c1 s pkt)
  have "kept c (c\<lparr>table := t\<rparr>)"
    using conn_ok_allocate [OF assms(1) opened(2)] slots_ok_allocate(3) [OF opened(2)] by (simp add: kept_def)
  then have c1: "kept c c1" using kept_turns [OF _ opened(3)] kept_trans by (metis kept_def)
  note s = accept_open_ready_ok(4) [OF opened(6)]
  have "slot_ok s" "policy s = table_policy (table c1)" "failed s = None"
    using s slot_step_ok [OF fresh_slots(1)] slot_step_fixed(2) slot_step_failed [of "OpenReady (arg0 pkt) (data pkt)"]
    by (simp_all add: fresh_slots del: slot_step.simps)
  then have f: "conn_ok (c1\<lparr>table := table c'\<rparr>)" "table_len (table c') = table_len (table c1)"
    using conn_ok_fill [OF _ opened(4)] slots_ok_fill(4) [OF _ opened(4)] c1 by (auto simp: kept_def conn_ok_def)
  have "conn_ok c'" using f(1) by (subst opened(5))
  moreover have "conn_neg c' = conn_neg c1" by (subst opened(5)) simp
  ultimately have "kept c1 c'" using f(2) by (simp add: kept_def)
  then show ?thesis by (rule kept_trans [OF c1])
qed

lemma kept_decided:
  assumes "conn_ok c" and "try_accept_incoming c = Some i"
  shows "accept io i = (r, c') \<Longrightarrow> kept c c'" and "reject io i = (u, c') \<Longrightarrow> kept c c'" and "kept c (incoming_drop i)"
proof -
  obtain p q where i: "incoming c = p # q" "i = \<lparr>in_conn = c\<lparr>incoming := q\<rparr>, in_pending = Some p, in_reserved = None\<rparr>"
    using try_accept_Some [OF assms(2)] by blast
  show "reject io i = (u, c') \<Longrightarrow> kept c c'"
    using reject_cases [OF i(1), of io] i kept_queue [OF assms(1)] by (metis insertE length_Cons le_Suc_eq order_refl singletonD)
  show "kept c (incoming_drop i)" using i by (intro kept_queue [OF assms(1)]) (auto simp: incoming_drop_def push_front_def)
  assume acc: "accept io i = (r, c')"
  obtain a t where al: "allocate (table c) = (a, t)" by force
  show "kept c c'"
  proof (cases a)
    case None
    have "length (incoming c') \<le> length (incoming c)"
      using accept_full(4) [OF i(1) al [unfolded None] acc [unfolded i(2)]] i(1) by (auto split: outcome.splits if_splits)
    then show ?thesis using kept_queue [OF assms(1)] accept_full(3,5) [OF i(1) al [unfolded None] acc [unfolded i(2)]] by simp
  next
    case (Some ch)
    note r = accept_reserved [OF i(1) al [unfolded Some] acc [unfolded i(2)]]
    have ok: "conn_ok (c\<lparr>table := t\<rparr>)" by (rule conn_ok_allocate [OF assms(1) al])
    have len: "length (incoming c') \<le> length (incoming c)" using r(5) i(1) by (auto split: outcome.splits if_splits)
    have "slots_ok (table c') \<and> table_policy (table c') = table_policy t \<and> next_local_id (table c') = next_local_id t \<and>
        table_len (table c') = table_len t"
      using r(4) slots_ok_fill [of t ch _ "table c'"] fresh_slots(4-6) ok slots_ok_allocate(2) [OF al]
      by (auto simp: conn_ok_def split: outcome.splits)
    then show ?thesis using ok len r(2) slots_ok_allocate(3) [OF al] by (auto simp: kept_def conn_ok_def)
  qed
qed

lemma kept_waited:
  assumes "conn_ok c" and "accept_incoming io c = Some (Ok i, c1)"
  shows "accept io i = (r, c') \<Longrightarrow> kept c c'" and "reject io i = (u, c') \<Longrightarrow> kept c c'" and "kept c (incoming_drop i)"
proof -
  obtain c2 where c2: "turns c c2" "try_accept_incoming c2 = Some i" using accept_incoming_cases [OF assms(2)] by auto
  have "kept c c2" by (rule kept_turns [OF assms(1) c2(1)])
  moreover from this have "conn_ok c2" by (simp add: kept_def)
  ultimately show "accept io i = (r, c') \<Longrightarrow> kept c c'" "reject io i = (u, c') \<Longrightarrow> kept c c'" "kept c (incoming_drop i)"
    using kept_decided [OF _ c2(2)] kept_trans by blast+
qed

lemma call_kept:
  assumes "call io c c'" and "conn_ok c"
  shows "kept c c'"
  using assms
proof (induction rule: call.induct)
  case (call_open destination c r c')
  then show ?case by (auto intro: kept_open)
next
  case (call_read ch len c r c')
  then obtain y where y: "recv_data io never True ch len c = Some y" by (auto simp: read_channel_def bind_eq_Some_conv)
  then have "c' = snd y" using call_read(1)
    by (auto simp: read_channel_def loop_then_def split: prod.splits outcome.splits select_result.splits)
  then show ?case using kept_turns [OF call_read(2)] turns_recv_data [OF y] by blast
next
  case (call_select interrupt ch len c r c')
  then show ?case using kept_turns [OF call_select(2)] turns_recv_data [of io interrupt] by (fastforce simp: select_channel_def)
next
  case (call_write ch payload c r c')
  then show ?case using kept_turns [OF call_write(2)] turns_write_channel [OF call_write(1)] by fastforce
next
  case (call_close ch c r c')
  show ?case
  proof (cases "desync c \<or> (\<exists>e :: 'b error. table_ids (table c) ch = Inl e)")
    case True
    then have "c' = c" using call_close(1)
      by (auto simp: close_channel_def check_desync_def and_then_def table_ids_def split: option.splits if_splits)
    then show ?thesis using call_close(2) by (simp add: kept_def)
  next
    case False
    then obtain ids where "table_ids (table c) ch = (Inr ids :: 'b error + channel_ids)"
      by (cases "table_ids (table c) ch :: 'b error + channel_ids") auto
    then have "c' = snd (send_pkt io (packet_close ids) (conn_checksum c) (c\<lparr>table := snd (table_free ch (table c))\<rparr>))"
      using False call_close(1) by (auto simp: close_channel_def check_desync_def and_then_def conn_checksum_def)
    then have "turns (c\<lparr>table := snd (table_free ch (table c))\<rparr>) c'" by (simp add: turns_sends)
    moreover have "kept c (c\<lparr>table := snd (table_free ch (table c))\<rparr>)"
      using conn_ok_free [OF call_close(2)] slots_ok_free(4) [of "table c" ch] call_close(2) by (simp add: kept_def conn_ok_def)
    ultimately show ?thesis using kept_turns kept_trans by (metis kept_def)
  qed
next
  case (call_wait c r c')
  then show ?case using kept_turns accept_incoming_cases by blast
next
  case (call_undecided c i c1 c')
  then show ?case using kept_waited(3) by blast
next
  case (call_accept c i c1 r c')
  then show ?case using kept_waited(1) by blast
next
  case (call_reject c i c1 r c')
  then show ?case using kept_waited(2) by blast
qed (use kept_decided in blast)+

end
