(* ===== verification/Connection_Streams.thy ===== *)
theory Connection_Streams
  imports Connection
begin

text \<open>
  The operations of a connection against the bytes that cross its transport: every wait ends
  when the peer's bytes do, a channel reads exactly the payloads that arrived for it, and a
  write puts exactly its data on the wire, in chunks the device granted.
\<close>

section \<open>Over a transport with a finite input every wait ends\<close>

text \<open>
  What the peer has sent and no operation has taken yet.  Every round of every loop that goes
  on has taken at least one packet from it.
\<close>

definition backlog :: "('t \<Rightarrow> bytes) \<Rightarrow> ('t, 'z) wire_scheme \<Rightarrow> bytes" where
  "backlog inp w = recv_buf w @ inp (transport w)"

lemma accounted_append: "accounted r had left \<Longrightarrow> accounted r (had @ y) (left @ y)"
  by (induction r had left rule: accounted.induct) auto

lemma backlog_table [simp]: "backlog inp (c\<lparr>table := t\<rparr>) = backlog inp c" "backlog inp (c\<lparr>incoming := q\<rparr>) = backlog inp c"
  by (simp_all add: backlog_def)

context source
begin

lemma write_frame_inp: "inp (snd (write_frame io h payload t)) = inp t"
proof -
  have w: "inp (snd (write_all io buf t)) = inp t" for buf t using write_all_inp [of buf t] by (metis prod.collapse)
  show ?thesis
    unfolding write_frame_def
  proof (rule and_then_keeps [where P = "\<lambda>x. inp x = inp t"], rule w)
    fix t1 assume t1: "inp t1 = inp t"
    show "inp (snd (and_then (if payload \<noteq> [] then write_all io payload t1 else (Ok (), t1)) (\<lambda>_ t. case t_flush io t of
        (Done _, t') \<Rightarrow> (Ok (), t') | (Failed e, t') \<Rightarrow> (Err (Io e), t') | (Dropped, t') \<Rightarrow> (Cancelled, t')))) = inp t"
      by (rule and_then_keeps [where P = "\<lambda>x. inp x = inp t"])
        (use t1 w [of payload t1] flush_still in \<open>auto split: prod.split polled.split\<close>)
  qed
qed

lemma backlog_send: "backlog inp (snd (send_encoded io k a0 a1 payload cs w)) = backlog inp w"
proof (cases "\<not> desync w \<and> (\<exists>h. encode_header k a0 a1 payload cs = Inr h)")
  case True
  then obtain h where h: "\<not> desync w" "encode_header k a0 a1 payload cs = Inr h" by blast
  obtain r t where wf: "write_frame io h payload (transport w) = (r, t)" by force
  have "inp t = inp (transport w)" using write_frame_inp [of h payload "transport w"] wf by simp
  then show ?thesis using h wf by (simp add: send_encoded_def check_desync_def send_frame_def Let_def backlog_def)
next
  case False
  then have "snd (send_encoded io k a0 a1 payload cs w) = w"
    by (cases "encode_header k a0 a1 payload cs") (auto simp: send_encoded_def and_then_def check_desync_def)
  then show ?thesis by simp
qed

lemma backlog_sends [simp]:
  "backlog inp (snd (send_okay io ack c)) = backlog inp c" "backlog inp (snd (send_pkt io pkt cs c)) = backlog inp c"
  "backlog inp (snd (send_raw io k ids payload cs c)) = backlog inp c" "backlog inp (snd (send_open io l credit dest cs c)) = backlog inp c"
  by (simp_all add: send_defs backlog_send)

lemma backlog_dispatch [simp]: "backlog inp (snd (conn_dispatch io pkt c)) = backlog inp c"
  unfolding conn_dispatch_snd act_on_def
  by (auto simp: Let_def split: prod.splits dispatch_outcome.splits)

lemma backlog_take [simp]: "backlog inp (snd (conn_take_buffered io ch len c)) = backlog inp c"
  unfolding conn_take_buffered_def okay_if_def take_now_def
  by (auto split: option.split prod.split sum.split
      intro!: and_then_keeps [where P = "\<lambda>x. backlog inp x = backlog inp c"] awaited_keeps [where P = "\<lambda>x. backlog inp x = backlog inp c"])

lemma backlog_dispatch_and_take [simp]: "backlog inp (snd (dispatch_and_take io ch len pkt c)) = backlog inp c"
  unfolding dispatch_and_take_def
  by (auto intro!: awaited_keeps [where P = "\<lambda>x. backlog inp x = backlog inp c"])

lemma backlog_deliver [simp]: "backlog inp (snd (deliver_direct io ch payload c)) = backlog inp c"
  unfolding deliver_direct_def okay_if_def
  by (auto split: option.split prod.split
      intro!: and_then_keeps [where P = "\<lambda>x. backlog inp x = backlog inp c"] awaited_keeps [where P = "\<lambda>x. backlog inp x = backlog inp c"])

lemma backlog_recv_or:
  assumes "recv_pkt_or io interrupt race mp w = (r, w')"
  shows "accounted r (backlog inp w) (backlog inp w')"
proof -
  obtain x where "inp (transport w) = x @ inp (transport w')" "accounted r (recv_buf w @ x) (recv_buf w')"
    using recv_conserves [OF assms] by blast
  then show ?thesis using accounted_append [of r "recv_buf w @ x" "recv_buf w'" "inp (transport w')"] by (simp add: backlog_def)
qed

end

lemma encode_nonempty: "encode p cs = Inr w \<Longrightarrow> w \<noteq> []"
  by (auto dest: encode_length simp: MESSAGE_SIZE_def)

context source
begin

lemma recv_or_taken:
  assumes "recv_pkt_or io interrupt race mp w = (Ok (Packet p), w')"
  shows "\<exists>cs b. encode p cs = Inr b \<and> backlog inp w = b @ backlog inp w'"
  using backlog_recv_or [OF assms] by auto

lemma recv_pkt_taken:
  assumes "recv_pkt io mp w = (Ok p, w')"
  shows "\<exists>cs b. encode p cs = Inr b \<and> backlog inp w = b @ backlog inp w'"
  using assms recv_or_taken [of never True mp w p w']
  by (auto simp: recv_pkt_def split: prod.splits outcome.splits received.splits)

lemma recv_lowers:
  "recv_pkt io mp w = (Ok p, w') \<Longrightarrow> length (backlog inp w') < length (backlog inp w)"
  "recv_pkt_or io interrupt race mp w = (Ok (Packet p), w') \<Longrightarrow> length (backlog inp w') < length (backlog inp w)"
  using recv_pkt_taken [of mp w p w'] recv_or_taken [of interrupt race mp w p w'] encode_nonempty by fastforce+

lemma try_in_None: "try_in r f = (None, s') \<Longrightarrow> \<exists>a s. r = (Ok a, s) \<and> f a s = (None, s')"
  by (cases r) (auto simp: try_in_def split: outcome.splits)

lemma dispatch_lowers:
  assumes "try_in (conn_dispatch io pkt c) (\<lambda>_ c. (None, c)) = (None, c')"
  shows "backlog inp c' = backlog inp c"
  using try_in_None [OF assms] backlog_dispatch [of pkt c] by auto

lemma take_lowers:
  assumes "try_in (dispatch_and_take io ch len pkt c) (\<lambda>taken c. (map_option f taken, c)) = (None, c')"
  shows "backlog inp c' = backlog inp c"
  using try_in_None [OF assms] backlog_dispatch_and_take [of ch len pkt c] by auto

lemma rounds_lower:
  "await_open_round io ch c = (None, c') \<Longrightarrow> length (backlog inp c') < length (backlog inp c)"
  "accept_round io c = (None, c') \<Longrightarrow> length (backlog inp c') < length (backlog inp c)"
  "wait_ack_round io ch c = (None, c') \<Longrightarrow> length (backlog inp c') < length (backlog inp c)"
  "recv_data_round io interrupt race ch ids len c = (None, c') \<Longrightarrow> length (backlog inp c') < length (backlog inp c)"
proof -
  show "await_open_round io ch c = (None, c') \<Longrightarrow> length (backlog inp c') < length (backlog inp c)"
    unfolding await_open_round_def
    by (drule try_in_None) (auto simp: leave_def dest!: recv_lowers(1) dispatch_lowers split: if_splits)
  show "accept_round io c = (None, c') \<Longrightarrow> length (backlog inp c') < length (backlog inp c)"
    unfolding accept_round_def
    by (auto dest!: try_in_None [of "recv_pkt io mp w" for mp w] recv_lowers(1) dispatch_lowers split: option.splits)
  show "wait_ack_round io ch c = (None, c') \<Longrightarrow> length (backlog inp c') < length (backlog inp c)"
    unfolding wait_ack_round_def
    by (auto split: option.splits if_splits sum.splits dest!: try_in_None [of "recv_pkt io mp w" for mp w] recv_lowers(1) dispatch_lowers)
  assume "recv_data_round io interrupt race ch ids len c = (None, c')"
  from try_in_None [OF this [unfolded recv_data_round_def]] obtain received s
    where recv: "recv_pkt_or io interrupt race (inbound_limit c) c = (Ok received, s)"
      and goes_on: "(case received of
         Interrupted v \<Rightarrow> (Some (Ok (SelectInterrupted v)), s)
       | Packet pkt \<Rightarrow>
           if command pkt = Write \<and> arg1 pkt = ids_local ids \<and> length (data pkt) \<le> len
           then leave (deliver_direct io ch (data pkt) s)
           else if command pkt = Close \<and> closed_by ids pkt then (Some (Err ChannelClosed), close_here ch s)
           else try_in (dispatch_and_take io ch len pkt s) (\<lambda>taken c. (map_option (\<lambda>d. Ok (Data d)) taken, c))) = (None, c')"
    by blast
  then obtain pkt where pkt: "received = Packet pkt" by (cases received) auto
  then have "backlog inp c' = backlog inp s"
    using goes_on by (auto simp: leave_def dest: take_lowers split: if_split_asm)
  then show "length (backlog inp c') < length (backlog inp c)" using recv_lowers(2) [OF recv [unfolded pkt]] by simp
qed

lemma loops_return:
  "\<exists>r c'. await_open_ack io ch c = Some (r, c')" "\<exists>r c'. looping (accept_round io) c = Some (r, c')"
  "\<exists>r c'. wait_ack io ch c = Some (r, c')" "\<exists>r c'. looping (recv_data_round io interrupt race ch ids len) c = Some (r, c')"
  unfolding await_open_ack_def wait_ack_def
  by (rule looping_returns [where I = "\<lambda>_. True" and m = "\<lambda>c. length (backlog inp c)"]; use rounds_lower in blast)+

lemma open_returns: "\<exists>r c'. open_channel io dest c = Some (r, c')"
  using loops_return(1) by (auto simp: open_channel_def loop_then_def Let_def split: outcome.split prod.split option.split)

lemma recv_data_returns: "\<exists>r c'. recv_data io interrupt race ch len c = Some (r, c')"
  using loops_return(4) by (auto simp: recv_data_def loop_then_def split: outcome.split prod.split option.split sum.split)

lemma wait_ack_Ok:
  assumes "wait_ack io ch c = Some (Ok (), c')"
  shows "\<exists>s. table_get (table c') ch = Some s \<and> \<not> is_closed s \<and> budget s \<noteq> None"
proof -
  obtain c1 where "wait_ack_round io ch c1 = (Some (Ok ()), c')"
    using looping_last [of "wait_ack_round io ch" c "Ok ()" c' "\<lambda>_. True"] assms by (auto simp: wait_ack_def)
  then show ?thesis
    by (auto simp: wait_ack_round_def try_in_def split: option.splits if_splits sum.splits prod.splits outcome.splits)
qed

lemma budget_positive: "budget s = Some b \<Longrightarrow> 0 < b"
  by (auto simp: budget_def usize_max_def split: ack_mode.splits if_splits)

lemma write_chunk_Ok:
  assumes "write_chunk io ch rest c = (Ok n, c')" and "table_get (table c) ch = Some s" and "budget s \<noteq> None" and "rest \<noteq> []"
  shows "0 < n" and "n \<le> length rest"
proof -
  obtain b where b: "budget s = Some b" "0 < b" using assms(3) budget_positive by auto
  then have "n = min (min (length rest) (max (unat (neg_max_payload (conn_neg c))) 1)) b"
    using assms by (auto simp: write_chunk_def and_then_def Let_def split: sum.splits prod.splits outcome.splits option.splits)
  then show "0 < n" "n \<le> length rest" using b assms(4) by auto
qed

lemma write_loop_returns: "\<exists>r c'. write_loop io ch rest c = Some (r, c')"
proof (induction "length rest" arbitrary: rest c rule: less_induct)
  case less
  show ?case
  proof (cases "rest = []")
    case False
    obtain q c1 where w: "wait_ack io ch c = Some (q, c1)" using loops_return(3) by blast
    show ?thesis
    proof (cases q)
      case (Ok u)
      obtain s where s: "table_get (table c1) ch = Some s" "budget s \<noteq> None" using wait_ack_Ok [of ch c c1] w Ok by auto
      obtain m c2 where m: "write_chunk io ch rest c1 = (m, c2)" by force
      show ?thesis
      proof (cases m)
        case (Ok n)
        then have "length (drop n rest) < length rest" using write_chunk_Ok [OF m [unfolded Ok] s False] by simp
        then show ?thesis using less [of "drop n rest" c2] w \<open>q = Ok u\<close> m Ok False by (subst write_loop.simps) simp
      qed (use w Ok m False in \<open>subst write_loop.simps; simp add: loop_then_def\<close>)+
    qed (use w False in \<open>subst write_loop.simps; simp add: loop_then_def\<close>)+
  qed (simp add: write_loop.simps)
qed

end

section \<open>What a channel receives\<close>

definition mine :: "channel_id \<Rightarrow> packet \<Rightarrow> bool" where
  "mine ch p \<longleftrightarrow> command p = Write \<and> arg1 p = ch_local ch"

text \<open>The payloads that arrived for a channel among some packets, in order.\<close>

definition arrived :: "channel_id \<Rightarrow> packet list \<Rightarrow> bytes" where
  "arrived ch ps = concat (map data (filter (mine ch) ps))"

text \<open>Bytes that are the wire images of some packets.\<close>

definition images :: "packet list \<Rightarrow> bytes \<Rightarrow> bool" where
  "images ps b \<longleftrightarrow> (\<exists>ws. list_all2 (\<lambda>p w. \<exists>cs. encode p cs = Inr w) ps ws \<and> b = concat ws)"

text \<open>No other channel has the local id of \<open>ch\<close>.\<close>

definition lone :: "channel_id \<Rightarrow> channel_table \<Rightarrow> bool" where
  "lone ch t \<longleftrightarrow> (\<forall>i < length (layout t). layout t ! i = Some (ch_local ch) \<longrightarrow> i = ch_slot ch)"

lemma arrived_simps [simp]: "arrived ch [] = []" "arrived ch (ps @ qs) = arrived ch ps @ arrived ch qs"
  "arrived ch [p] = (if mine ch p then data p else [])"
  by (simp_all add: arrived_def)

lemma images_nil [simp]: "images [] []"
  by (auto simp: images_def)

lemma images_snoc: "images ps b \<Longrightarrow> encode p cs = Inr w \<Longrightarrow> images (ps @ [p]) (b @ w)"
proof -
  assume b: "images ps b" and w: "encode p cs = Inr w"
  from b obtain ws where "list_all2 (\<lambda>p w. \<exists>cs. encode p cs = Inr w) ps ws" "b = concat ws" by (auto simp: images_def)
  then show "images (ps @ [p]) (b @ w)"
    using w by (auto simp: images_def intro!: exI [of _ "ws @ [w]"] list_all2_appendI)
qed

lemma table_get_Some:
  assumes "table_get t ch = Some s"
  shows "ch_slot ch < length (slots t)" and "slots t ! ch_slot ch = Some s" and "slot_local s = ch_local ch"
  using assms by (auto simp: table_get_def split: if_splits option.splits)

lemma apply_write_rx: "apply_write p s = Some (d, s') \<Longrightarrow> rx_buf s' = rx_buf s @ p \<and> slot_remote s' = slot_remote s
    \<and> failed s' = failed s \<and> slot_local s' = slot_local s"
  by (auto simp: apply_write_def push_rx_def Let_def split: option.splits if_splits)

lemma dispatch_mine:
  assumes "lone ch t" and "table_get t ch = Some s" and "failed s = None" and "mine ch p"
  shows "dispatch p t = (case apply_write (data p) s of
      Some (Now a, s') \<Rightarrow> (AckWrite (ch_slot ch) a, t\<lparr>slots := (slots t)[ch_slot ch := Some s']\<rparr>)
    | Some (Hold, s') \<Rightarrow> (DataBuffered (ch_slot ch), t\<lparr>slots := (slots t)[ch_slot ch := Some s']\<rparr>)
    | None \<Rightarrow> (fault_of (ch_slot ch) s (arg0 p) RxOverflow, t))"
proof -
  note g = table_get_Some [OF assms(2)]
  have m: "command p = Write" "arg1 p = ch_local ch" using assms(4) by (auto simp: mine_def)
  have "is_ours (ch_local ch) (slots t ! ch_slot ch)" using g by (simp add: is_ours_def)
  then obtain i where i: "position (is_ours (ch_local ch)) (slots t) = Some i"
    using g(1) position_None [of "is_ours (ch_local ch)" "slots t"] nth_mem by (cases "position (is_ours (ch_local ch)) (slots t)") auto
  have "i < length (slots t)" "is_ours (ch_local ch) (slots t ! i)" using position_nth [OF i] by auto
  then have "layout t ! i = Some (ch_local ch)" "i < length (layout t)"
    by (auto simp: layout_def is_ours_def split: option.splits)
  then have "i = ch_slot ch" using assms(1) by (simp add: lone_def)
  moreover have "t\<lparr>slots := (slots t)[ch_slot ch := Some s]\<rparr> = t" using g(2) list_update_id [of "slots t" "ch_slot ch"] by simp
  ultimately show ?thesis using m i g(2) assms(3)
    by (auto simp: dispatch_def dispatch_slot_def is_failed_def split: option.splits ack_decision.splits prod.splits)
qed

lemma dispatch_slot_rx:
  assumes "(r, s') = dispatch_slot p i s" and "command p \<noteq> Write"
  shows "rx_buf s' = rx_buf s"
  using assms by (auto simp: dispatch_slot_def slot_op_defs Let_def split: command.splits if_splits sum.splits ack_mode.splits)

lemma dispatch_rx:
  assumes "dispatch p t = (r, t')" and "lone ch t" and "table_get t ch = Some s" and "failed s = None"
  obtains s' where "table_get t' ch = Some s'" and "failed s' = None" and "slot_remote s \<noteq> None \<longrightarrow> slot_remote s' \<noteq> None"
    and "rx_buf s' = rx_buf s @ arrived ch [p] \<or> rx_buf s' = rx_buf s \<and> (\<exists>i ids opening. r = ChannelFaulted i ids opening RxOverflow)"
proof (cases "mine ch p")
  case True
  note g = table_get_Some [OF assms(3)] and d = dispatch_mine [OF assms(2-4) True]
  show thesis
  proof (cases "apply_write (data p) s")
    case None
    then have "t' = t" "r = fault_of (ch_slot ch) s (arg0 p) RxOverflow" using d assms(1) by auto
    then show thesis using that assms(3,4) by (auto simp: fault_of_def)
  next
    case (Some q)
    obtain a s' where q: "q = (a, s')" by force
    then have "t' = t\<lparr>slots := (slots t)[ch_slot ch := Some s']\<rparr>"
      using d assms(1) Some by (auto split: ack_decision.splits)
    moreover note apply_write_rx [OF Some [unfolded q]]
    ultimately show thesis using that [of s'] g assms(4) True by (simp add: table_get_def)
  qed
next
  case False
  from assms(1) show thesis
  proof (cases rule: dispatch_slots)
    case 1
    then show thesis using that assms(3,4) False by simp
  next
    case (2 i s0 s1)
    note g = table_get_Some [OF assms(3)]
    show thesis
    proof (cases "i = ch_slot ch")
      case True
      then have s0: "s0 = s" using 2(2) g(2) by simp
      have "rx_buf s1 = rx_buf s \<and> failed s1 = failed s \<and> (slot_remote s \<noteq> None \<longrightarrow> slot_remote s1 \<noteq> None)"
      proof (cases "s1 = apply_close s")
        case False
        then have d: "slot_local s = arg1 p" "(r, s1) = dispatch_slot p i s" using 2(7) s0 by auto
        then have "command p \<noteq> Write" using \<open>\<not> mine ch p\<close> g(3) by (auto simp: mine_def)
        then show ?thesis
          using dispatch_slot_rx [OF d(2)] dispatch_slot_step [OF d(2) [symmetric]] slot_step_failed [of _ s] slot_step_remote [of s]
          by auto
      qed (simp add: apply_close_def)
      moreover have "table_get t' ch = Some s1" using 2(1,3,4) s0 g True by (simp add: table_get_def)
      ultimately show thesis using that [of s1] assms(4) False by simp
    next
      case other: False
      then have "table_get t' ch = table_get t ch" using 2(3) by (simp add: table_get_def)
      then show thesis using that assms(3,4) False by simp
    qed
  qed
qed

text \<open>A dropped send leaves the connection marked.\<close>

lemma send_cancelled: "send_encoded io k a0 a1 payload cs w = (Cancelled, w') \<Longrightarrow> desync w'"
  by (auto simp: send_encoded_def and_then_def check_desync_def send_frame_def Let_def
      split: prod.splits sum.splits outcome.splits if_splits)

lemma send_frame_table: "table (snd (send_encoded io k a0 a1 payload cs c)) = table c"
  using send_encoded_frame [of io k a0 a1 payload cs c] by auto

lemma act_on_table: "table (snd (act_on io p c)) = snd (dispatch p (table c))"
  by (auto simp: act_on_def Let_def send_defs send_frame_table split: prod.splits dispatch_outcome.splits)

lemma dispatch_table: "conn_dispatch io p c = (r, c') \<Longrightarrow> table c' = snd (dispatch p (table c))"
  using act_on_table [of io p c] conn_dispatch_snd [of io p c] by simp

lemma dispatch_overflow:
  "dispatch p (table c) = (ChannelFaulted i ids opening RxOverflow, t) \<Longrightarrow> fst (conn_dispatch io p c) = Err ChannelRxOverflow"
  by (simp add: conn_dispatch_def act_on_def connection_gone_def)

lemma dispatch_cancelled: "conn_dispatch io p c = (Cancelled, c') \<Longrightarrow> desync c'"
  by (auto simp: conn_dispatch_def act_on_def Let_def send_defs dest: send_cancelled
      split: prod.splits dispatch_outcome.splits outcome.splits if_splits)

lemma send_not_panicked: "send_encoded io k a0 a1 payload cs w \<noteq> (Panicked, w')"
  using send_encoded_no_panic [of io k a0 a1 payload cs w] by auto

lemma dispatch_no_panic: "conn_dispatch io p c \<noteq> (Panicked, c')"
  by (auto simp: conn_dispatch_def act_on_def Let_def send_defs send_not_panicked
      split: prod.splits dispatch_outcome.splits outcome.splits)

lemma settle_take_rx:
  "settle_take len s = (ack, s') \<Longrightarrow> rx_buf s' = rx_buf s \<and> slot_remote s' = slot_remote s \<and> failed s' = failed s
    \<and> slot_local s' = slot_local s"
  by (auto simp: settle_take_def Let_def split: option.splits if_splits)

lemma okay_if_frame:
  assumes "okay_if io ack c = (r, c')"
  shows "table c' = table c" and "r = Ok () \<or> r = Cancelled \<and> desync c'"
proof -
  have "table c' = table c \<and> (r = Ok () \<or> r = Cancelled \<and> desync c')"
  proof (cases ack)
    case (Some a)
    obtain q c1 where q: "send_okay io a c = (q, c1)" by force
    have "table (snd (send_okay io a c)) = table c" by (simp add: send_defs send_frame_table)
    moreover have "q \<noteq> Panicked" "q = Cancelled \<Longrightarrow> desync c1"
      using q by (auto simp: send_defs send_not_panicked dest: send_cancelled)
    ultimately have "table c1 = table c" "q \<noteq> Panicked" "q = Cancelled \<Longrightarrow> desync c1" using q by simp_all
    then show ?thesis using assms Some q by (cases q) (auto simp: okay_if_def awaited_def)
  qed (use assms in \<open>simp add: okay_if_def\<close>)
  then show "table c' = table c" "r = Ok () \<or> r = Cancelled \<and> desync c'" by blast+
qed

lemma put_layout:
  assumes "table_get t ch = Some s" and "slot_local s' = slot_local s"
  shows "layout (table_put ch s' t) = layout t"
  using table_put_slots(3) [OF assms(1), of s'] table_get_Some [OF assms(1)] assms(2)
  by (simp add: layout_def map_update list_update_same_conv)

text \<open>What taking from a channel's buffer does to it.\<close>

lemma take_rx:
  fixes io :: "('t, 'e) transport_ops"
  assumes "conn_take_buffered io ch len c = (r, c')" and "table_get (table c) ch = Some s"
  shows "r \<noteq> Panicked \<and> lone ch (table c') = lone ch (table c) \<and> (\<exists>s'. table_get (table c') ch = Some s' \<and> failed s' = failed s \<and> slot_remote s' = slot_remote s \<and>
    rx_buf s = (case r of Ok (Some d) \<Rightarrow> d | _ \<Rightarrow> []) @ rx_buf s' \<and> (r = Ok None \<longrightarrow> \<not> has_data s) \<and> (\<forall>d. r = Ok (Some d) \<longrightarrow> has_data s) \<and>
    (r = Cancelled \<longrightarrow> desync c'))"
proof (cases "\<not> has_data s \<and> desync c")
  case True
  then show ?thesis using assms by (auto simp: conn_take_buffered_def and_then_def check_desync_def)
next
  case False
  obtain ack s1 where st: "settle_take len s = (ack, s1)" by force
  define c1 where "c1 = c\<lparr>table := table_put ch s1 (table c)\<rparr>"
  obtain q c2 where ok: "okay_if io ack c1 = (q, c2)" by force
  have run: "and_then (q, c2) (\<lambda>_ c. take_now ch len c) = (r, c')"
    using assms st ok False by (cases "has_data s") (simp_all add: conn_take_buffered_def c1_def check_desync_def)
  note s1 = settle_take_rx [OF st]
  have get1: "table_get (table c2) ch = Some s1"
    using okay_if_frame(1) [OF ok] table_get_put [OF assms(2), of s1] table_get_Some(3) [OF assms(2)] s1 by (simp add: c1_def)
  have lay: "layout (table c2) = layout (table c)"
    using okay_if_frame(1) [OF ok] put_layout [OF assms(2)] s1 by (simp add: c1_def)
  show ?thesis
  proof (cases "q = Cancelled")
    case True
    then show ?thesis using run okay_if_frame(2) [OF ok] get1 s1 lay by (auto simp: and_then_def lone_def)
  next
    case False
    then have q: "take_now ch len c2 = (r, c')" using run okay_if_frame(2) [OF ok] by (auto simp: and_then_def)
    obtain u :: "'e error + bytes option" and s2 where t: "take_buffered len s1 = (u, s2)" by force
    have s2: "slot_local s2 = slot_local s1" "failed s2 = failed s1" "slot_remote s2 = slot_remote s1"
      "rx_buf s1 = (case u of Inr (Some d) \<Rightarrow> d | _ \<Rightarrow> []) @ rx_buf s2" "u = Inr None \<Longrightarrow> \<not> has_data s1" "u = Inr (Some d) \<Longrightarrow> has_data s1" for d
      using t by (auto simp: take_buffered_def Let_def split: if_splits)
    have c': "c' = c2\<lparr>table := table_put ch s2 (table c2)\<rparr>" "r = (case u of Inl e \<Rightarrow> Err e | Inr d \<Rightarrow> Ok d)"
      using q t get1 by (auto simp: take_now_def split: sum.splits)
    have "table_get (table c') ch = Some s2"
      using table_get_put [OF get1, of s2] table_get_Some(3) [OF get1] s2(1) c'(1) by simp
    moreover have "layout (table c') = layout (table c)"
      using lay put_layout [OF get1] s2(1) c'(1) by simp
    ultimately show ?thesis
      using s1 s2 c'(2) by (auto simp: lone_def has_data_def split: sum.splits)
  qed
qed

text \<open>
  One packet for somebody else, or too large to hand straight over, while the channel's buffer
  is empty.
\<close>

lemma dispatch_and_take_rx:
  fixes io :: "('t, 'e) transport_ops"
  assumes "dispatch_and_take io ch len p c = (r, c')" and "lone ch (table c)" and "table_get (table c) ch = Some s"
    and "failed s = None" and "rx_buf s = []" and "slot_remote s \<noteq> None"
  shows "(case r of Ok _ \<Rightarrow> (\<exists>s'. lone ch (table c') \<and> table_get (table c') ch = Some s' \<and> failed s' = None \<and>
      slot_remote s' \<noteq> None \<and> arrived ch [p] = (case r of Ok (Some d) \<Rightarrow> d | _ \<Rightarrow> []) @ rx_buf s' \<and> (r = Ok None \<longrightarrow> rx_buf s' = []))
    | Cancelled \<Rightarrow> desync c' | Panicked \<Rightarrow> False | Err _ \<Rightarrow> True)"
proof -
  obtain q c1 where q: "conn_dispatch io p c = (q, c1)" by force
  obtain o1 t1 where d: "dispatch p (table c) = (o1, t1)" by force
  have t1: "table c1 = t1" using dispatch_table [OF q] d by simp
  obtain s1 where s1: "table_get t1 ch = Some s1" "failed s1 = None" "slot_remote s \<noteq> None \<longrightarrow> slot_remote s1 \<noteq> None"
    "rx_buf s1 = rx_buf s @ arrived ch [p] \<or> rx_buf s1 = rx_buf s \<and> (\<exists>i ids opening. o1 = ChannelFaulted i ids opening RxOverflow)"
    by (rule dispatch_rx [OF d assms(2,3,4)])
  have over: "q = Err ChannelRxOverflow" if "o1 = ChannelFaulted i ids b RxOverflow" for i ids b
    using dispatch_overflow [OF d [unfolded that], of io] q by simp
  have "layout t1 = layout (table c)"
    using turns_fixed(2) [OF turns_dispatch [OF rtranclp.rtrancl_refl], of io p c] q t1 by simp
  then have lone1: "lone ch t1" using assms(2) by (simp add: lone_def)
  show ?thesis
  proof (cases "q = Cancelled")
    case True
    then show ?thesis using assms(1) q dispatch_cancelled [of io p c c1] by (auto simp: dispatch_and_take_def awaited_def)
  next
    case False
    define v where "v = (case q of Err e \<Rightarrow> Inl e | _ \<Rightarrow> Inr ())"
    obtain u c2 where u: "conn_take_buffered io ch len c1 = (u, c2)" by force
    have "q \<noteq> Panicked" using q dispatch_no_panic [of io p c c1] by auto
    then have run: "(r, c') = awaited (u, c2) (\<lambda>taken c. (taken_or_failed taken v, c))"
      using assms(1) q u False by (cases q) (auto simp: dispatch_and_take_def awaited_def v_def)
    have "table_get (table c1) ch = Some s1" using s1(1) t1 by simp
    from take_rx [OF u this] obtain s2 where s2: "u \<noteq> Panicked" "lone ch (table c2)" "table_get (table c2) ch = Some s2"
      "failed s2 = None" "slot_remote s2 \<noteq> None" "rx_buf s1 = (case u of Ok (Some d) \<Rightarrow> d | _ \<Rightarrow> []) @ rx_buf s2"
      "u = Ok None \<longrightarrow> \<not> has_data s1" "\<forall>d. u = Ok (Some d) \<longrightarrow> has_data s1" "u = Cancelled \<longrightarrow> desync c2"
      using s1 t1 lone1 assms(6) by auto
    show ?thesis
    proof (cases u)
      case (Ok taken)
      show ?thesis
      proof (cases taken)
        case None
        then have "rx_buf s1 = []" using s2(7) Ok s1(3) assms(6) by (simp add: has_data_def)
        moreover have "r = Ok None \<Longrightarrow> q = Ok ()"
          using run Ok None False \<open>q \<noteq> Panicked\<close> by (cases q) (auto simp: taken_or_failed_def v_def)
        ultimately show ?thesis
          using run Ok None s2 s1(4) over assms(5) by (cases v) (auto simp: taken_or_failed_def)
      next
        case (Some d)
        then have "rx_buf s1 \<noteq> []" using s2(8) Ok by (simp add: has_data_def)
        then have "arrived ch [p] = d @ rx_buf s2" using s1(4) assms(5) s2(6) Ok Some by (auto split: if_splits)
        then show ?thesis using run Ok Some s2 by (simp add: taken_or_failed_def)
      qed
    next
      case (Err e)
      then show ?thesis using run by (cases v) (auto simp: taken_or_failed_def)
    next
      case Cancelled
      then show ?thesis using run s2(9) by (simp add: awaited_def)
    qed (use s2(1) in simp)
  qed
qed

lemma deliver_direct_rx:
  assumes "deliver_direct io ch payload c = (r, c')" and "table_get (table c) ch = Some s"
  shows "r = Ok (Data payload) \<and> (\<exists>s'. table_get (table c') ch = Some s' \<and> rx_buf s' = rx_buf s) \<or> r = Cancelled \<and> desync c'"
proof -
  obtain ack s1 where d: "deliver (length payload) s = (ack, s1)" by force
  then have s1: "rx_buf s1 = rx_buf s" "slot_local s1 = slot_local s"
    by (auto simp: deliver_def slot_ack_def slot_ids_def split: if_splits option.splits)
  obtain q c1 where q: "okay_if io ack (c\<lparr>table := table_put ch s1 (table c)\<rparr>) = (q, c1)" by force
  have "table_get (table c1) ch = Some s1"
    using okay_if_frame(1) [OF q] table_get_put [OF assms(2), of s1] table_get_Some(3) [OF assms(2)] s1 by simp
  then show ?thesis
    using assms d q s1 okay_if_frame(2) [OF q] by (auto simp: deliver_direct_def and_then_def)
qed

context source
begin

text \<open>
  The loop of \<open>recv_data\<close> starts, and goes on, with an empty buffer and nothing arrived; the
  round that ends it accounts for what did.
\<close>

definition quiet_so_far :: "channel_id \<Rightarrow> 't connection \<Rightarrow> 't connection \<Rightarrow> bool" where
  "quiet_so_far ch c0 c \<longleftrightarrow> (\<exists>ps b s. images ps b \<and> backlog inp c0 = b @ backlog inp c \<and> arrived ch ps = [] \<and>
     lone ch (table c) \<and> table_get (table c) ch = Some s \<and> failed s = None \<and> rx_buf s = [] \<and> slot_remote s \<noteq> None)"

definition accounts_for :: "channel_id \<Rightarrow> 't connection \<Rightarrow> bytes \<Rightarrow> 't connection \<Rightarrow> bool" where
  "accounts_for ch c0 d c \<longleftrightarrow> (\<exists>ps b s. images ps b \<and> backlog inp c0 = b @ backlog inp c \<and>
     table_get (table c) ch = Some s \<and> arrived ch ps = d @ rx_buf s)"

lemma accounts_forI:
  "images ps b \<Longrightarrow> backlog inp c0 = b @ backlog inp c \<Longrightarrow> arrived ch ps = d @ rx_buf s \<Longrightarrow>
    table_get (table c) ch = Some s \<Longrightarrow> accounts_for ch c0 d c"
  unfolding accounts_for_def by blast

lemma quiet_so_farI:
  "images ps b \<Longrightarrow> backlog inp c0 = b @ backlog inp c \<Longrightarrow> arrived ch ps = [] \<Longrightarrow> lone ch (table c) \<Longrightarrow>
    table_get (table c) ch = Some s \<Longrightarrow> failed s = None \<Longrightarrow> rx_buf s = [] \<Longrightarrow> slot_remote s \<noteq> None \<Longrightarrow> quiet_so_far ch c0 c"
  unfolding quiet_so_far_def by blast

lemma recv_data_round_rx:
  fixes r :: "('e, 'i select_result) outcome option"
  assumes "recv_data_round io interrupt race ch ids len c = (r, c')" and "quiet_so_far ch c0 c" and "ids_local ids = ch_local ch"
  shows "case r of None \<Rightarrow> quiet_so_far ch c0 c' | Some (Ok (Data d)) \<Rightarrow> accounts_for ch c0 d c'
    | Some (Ok (SelectInterrupted v)) \<Rightarrow> accounts_for ch c0 [] c'
    | Some Cancelled \<Rightarrow> desync c' \<or> accounts_for ch c0 [] c' | _ \<Rightarrow> True"
proof -
  obtain ps b s where i: "images ps b" "backlog inp c0 = b @ backlog inp c" "arrived ch ps = []" "lone ch (table c)"
    "table_get (table c) ch = Some s" "failed s = None" "rx_buf s = []" "slot_remote s \<noteq> None"
    using assms(2) by (auto simp: quiet_so_far_def)
  obtain q c1 where q: "recv_pkt_or io interrupt race (inbound_limit c) c = (q, c1)" by force
  have t1: "table c1 = table c" using recv_pkt_or_frame [of io interrupt race "inbound_limit c" c] q by auto
  show ?thesis
  proof (cases "\<exists>p. q = Ok (Packet p)")
    case False
    have "q = Ok (Interrupted v) \<or> q = Cancelled \<Longrightarrow> accounts_for ch c0 [] c1" for v
      using backlog_recv_or [OF q] i t1 by (auto simp: accounts_for_def)
    then show ?thesis using assms(1) q False
      by (cases q) (auto simp: recv_data_round_def try_in_def split: received.splits)
  next
    case True
    then obtain p where p: "q = Ok (Packet p)" by blast
    obtain cs w where w: "encode p cs = Inr w" "backlog inp c = w @ backlog inp c1" using recv_or_taken [OF q [unfolded p]] by blast
    have im: "images (ps @ [p]) (b @ w)" "backlog inp c0 = (b @ w) @ backlog inp c1" "arrived ch (ps @ [p]) = arrived ch [p]"
      using images_snoc [OF i(1) w(1)] i(2,3) w(2) by simp_all
    show ?thesis
    proof (cases "command p = Write \<and> arg1 p = ids_local ids \<and> length (data p) \<le> len")
      case True
      then have m: "mine ch p" using assms(3) by (simp add: mine_def)
      obtain u c2 where u: "deliver_direct io ch (data p) c1 = (u :: ('e, 'i select_result) outcome, c2)" by force
      then have "r = Some u" "c' = c2" using assms(1) q p True by (auto simp: recv_data_round_def leave_def)
      moreover have "backlog inp c2 = backlog inp c1" by (metis backlog_deliver snd_conv u)
      moreover have "table_get (table c1) ch = Some s" using i(5) t1 by simp
      ultimately show ?thesis
        using deliver_direct_rx [OF u] i(7) im m accounts_forI [of "ps @ [p]" "b @ w" c0 c2 ch "data p"] by auto
    next
      case other: False
      show ?thesis
      proof (cases "command p = Close \<and> closed_by ids p")
        case True
        then show ?thesis using assms(1) q p other by (auto simp: recv_data_round_def)
      next
        case False
        obtain u c2 where u: "dispatch_and_take io ch len p c1 = (u, c2)" by force
        have run: "try_in (u, c2) (\<lambda>taken c. (map_option (\<lambda>d. Ok (Data d)) taken, c)) = (r, c')"
          using assms(1) q p other False u by (auto simp: recv_data_round_def)
        have b2: "backlog inp c2 = backlog inp c1" using backlog_dispatch_and_take [of ch len p c1] u by simp
        note rx = dispatch_and_take_rx [OF u _ _ i(6,7,8), unfolded t1, OF i(4,5)]
        show ?thesis
        proof (cases u)
          case (Ok taken)
          then have "r = map_option (\<lambda>d. Ok (Data d)) taken" "c' = c2" using run by auto
          then show ?thesis
            using rx Ok im b2 quiet_so_farI [of "ps @ [p]" "b @ w" c0 c2 ch] accounts_forI [of "ps @ [p]" "b @ w" c0 c2 ch]
            by (cases taken) auto
        qed (use run rx in \<open>auto simp: try_in_def\<close>)
      qed
    qed
  qed
qed

end

definition handed :: "('e, 'i select_result) outcome \<Rightarrow> bytes" where
  "handed r = (case r of Ok (Data d) \<Rightarrow> d | _ \<Rightarrow> [])"

context source
begin

lemma recv_data_accounts:
  fixes r :: "('e, 'i select_result) outcome"
  assumes "recv_data io interrupt race ch len c = Some (r, c')" and "lone ch (table c)" and "table_get (table c) ch = Some s"
    and "failed s = None" and "case r of Ok _ \<Rightarrow> True | Cancelled \<Rightarrow> \<not> desync c' | _ \<Rightarrow> False"
  shows "\<exists>ps b s'. images ps b \<and> backlog inp c = b @ backlog inp c' \<and> table_get (table c') ch = Some s' \<and>
    rx_buf s @ arrived ch ps = handed r @ rx_buf s'"
proof -
  obtain q c1 where q: "conn_take_buffered io ch len c = (q, c1)" by force
  obtain s1 where s1: "q \<noteq> Panicked" "lone ch (table c1)" "table_get (table c1) ch = Some s1" "failed s1 = None"
      "slot_remote s1 = slot_remote s" "rx_buf s = (case q of Ok (Some d) \<Rightarrow> d | _ \<Rightarrow> []) @ rx_buf s1"
      "q = Ok None \<longrightarrow> \<not> has_data s" "q = Cancelled \<longrightarrow> desync c1"
    using take_rx [OF q assms(3)] assms(2,4) by auto
  have b1: "backlog inp c1 = backlog inp c" using backlog_take [of ch len c] q by simp
  show ?thesis
  proof (cases "q = Ok None")
    case False
    then obtain d where "q = Ok (Some d)" "r = Ok (Data d)" "c' = c1"
      using assms(1,5) q s1(1,8) by (cases q) (auto simp: recv_data_def loop_then_def split: option.splits)
    then show ?thesis using s1 b1 by (intro exI [of _ "[]"] exI [of _ s1]) (auto simp: handed_def)
  next
    case True
    then obtain ids where ids: "table_ids (table c1) ch = (Inr ids :: 'e error + channel_ids)"
      and l: "looping (recv_data_round io interrupt race ch ids len) c1 = Some (r, c')"
      using assms(1,5) q by (auto simp: recv_data_def split: sum.splits)
    have id: "ids_local ids = ch_local ch" "slot_remote s1 \<noteq> None"
      using ids s1(3) table_get_Some(3) [OF s1(3)] by (auto simp: table_ids_def slot_ids_def split: option.splits)
    then have "rx_buf s = []" using True s1(5,7) by (simp add: has_data_def)
    then have start: "quiet_so_far ch c c1"
      using quiet_so_farI [OF images_nil, of c c1 ch s1] b1 s1 id True by simp
    have go_on: "quiet_so_far ch c y" if "quiet_so_far ch c x"
        "recv_data_round io interrupt race ch ids len x = (None :: ('e, 'i select_result) outcome option, y)" for x y
      using recv_data_round_rx [OF that(2,1) id(1)] by simp
    have "\<exists>c2. quiet_so_far ch c c2 \<and> recv_data_round io interrupt race ch ids len c2 = (Some r, c')"
      by (rule looping_last [OF l, where I = "quiet_so_far ch c"]) (fact start, erule (1) go_on)
    then obtain c2 where c2: "quiet_so_far ch c c2" "recv_data_round io interrupt race ch ids len c2 = (Some r, c')" by blast
    have "accounts_for ch c (handed r) c'"
      using recv_data_round_rx [OF c2(2,1) id(1)] assms(5) by (auto simp: handed_def split: outcome.splits select_result.splits)
    then show ?thesis using \<open>rx_buf s = []\<close> unfolding accounts_for_def by auto
  qed
qed

end

section \<open>What a connection puts on the wire\<close>

lemma loop_then_ends_Ok:
  "loop_then r f = Some y \<Longrightarrow> fst y = Ok v \<Longrightarrow> \<exists>a s. r = (Ok a, s) \<and> f a s = Some y"
  by (auto simp: loop_then_def split: prod.splits outcome.splits)

text \<open>
  What one send leaves on the wire: the whole image of a packet or, when it failed, the front
  of it.
\<close>

datatype piece = Whole (piece_packet: packet) | Part (piece_packet: packet) nat

definition wire_image :: "checksum \<Rightarrow> packet \<Rightarrow> bytes" where
  "wire_image cs p = (case encode p cs of Inr b \<Rightarrow> b | Inl _ \<Rightarrow> [])"

fun piece_bytes :: "checksum \<Rightarrow> piece \<Rightarrow> bytes" where
  "piece_bytes cs (Whole p) = wire_image cs p"
| "piece_bytes cs (Part p k) = take k (wire_image cs p)"

definition emitted :: "checksum \<Rightarrow> piece list \<Rightarrow> bytes" where
  "emitted cs xs = concat (map (piece_bytes cs) xs)"

text \<open>The writes among them.\<close>

definition chunks :: "piece list \<Rightarrow> packet list" where
  "chunks xs = filter (\<lambda>p. command p = Write) (map piece_packet xs)"

definition whole_writes :: "piece list \<Rightarrow> bool" where
  "whole_writes xs \<longleftrightarrow> (\<forall>x \<in> set xs. command (piece_packet x) = Write \<longrightarrow> x = Whole (piece_packet x))"

lemma emitted_simps [simp]: "emitted cs [] = []" "emitted cs (x # xs) = piece_bytes cs x @ emitted cs xs"
  "emitted cs (xs @ ys) = emitted cs xs @ emitted cs ys"
  by (simp_all add: emitted_def)

lemma chunks_simps [simp]: "chunks [] = []" "chunks (xs @ ys) = chunks xs @ chunks ys"
  "chunks (x # xs) = (if command (piece_packet x) = Write then [piece_packet x] else []) @ chunks xs"
  by (simp_all add: chunks_def)

lemma whole_writes_simps [simp]: "whole_writes []" "whole_writes (xs @ ys) \<longleftrightarrow> whole_writes xs \<and> whole_writes ys"
  "whole_writes (Whole p # xs) \<longleftrightarrow> whole_writes xs"
  by (auto simp: whole_writes_def)

text \<open>Everything sent on the way from \<open>c\<close> to \<open>c'\<close> by operations that send no data themselves.\<close>

definition only_replies :: "('t \<Rightarrow> bytes) \<Rightarrow> 't connection \<Rightarrow> 't connection \<Rightarrow> bool" where
  "only_replies out c c' \<longleftrightarrow> conn_neg c' = conn_neg c \<and> (\<exists>xs. out (transport c') = out (transport c) @ emitted (conn_checksum c) xs \<and> chunks xs = [])"

lemma only_replies_refl [simp]: "only_replies out c c"
  by (auto simp: only_replies_def intro: exI [of _ "[]"])

lemma only_replies_trans: "only_replies out c c1 \<Longrightarrow> only_replies out c1 c2 \<Longrightarrow> only_replies out c c2"
  unfolding only_replies_def conn_checksum_def by (metis append.assoc append_Nil chunks_simps(2) emitted_simps(3))

lemma only_replies_same:
  "conn_neg c1 = conn_neg c \<Longrightarrow> transport c1 = transport c \<Longrightarrow> only_replies out c c1"
  by (auto simp: only_replies_def intro: exI [of _ "[]"])

lemma only_replies_table: "only_replies out c c1 \<Longrightarrow> only_replies out c (c1\<lparr>table := t\<rparr>)"
  by (simp add: only_replies_def)

lemma only_replies_close: "only_replies out c c1 \<Longrightarrow> only_replies out c (close_here ch c1)"
  by (auto simp: close_here_def intro: only_replies_table split: option.split)

context sink
begin

lemma send_piece:
  assumes "send_encoded io k a0 a1 payload cs w = (r, w')"
  shows "\<exists>x. piece_packet x = packet_new k a0 a1 payload \<and> out (transport w') = out (transport w) @ piece_bytes cs x \<and>
    (r = Ok () \<longrightarrow> x = Whole (packet_new k a0 a1 payload))"
proof (cases "r = Ok ()")
  case True
  then show ?thesis using send_encoded_out(2) [OF assms] by (auto simp: wire_image_def intro!: exI [of _ "Whole (packet_new k a0 a1 payload)"])
next
  case False
  obtain k' where "out (transport w') = out (transport w) @ take k' (wire_image cs (packet_new k a0 a1 payload))"
    using send_encoded_out(1) [OF assms] by (auto simp: wire_image_def)
  then show ?thesis using False by (intro exI [of _ "Part (packet_new k a0 a1 payload) k'"]) simp
qed

lemma send_replies:
  assumes "send_encoded io k a0 a1 payload (conn_checksum c) c = (r, c')" and "k \<noteq> Write"
  shows "only_replies out c c'"
proof -
  obtain x where "piece_packet x = packet_new k a0 a1 payload" "out (transport c') = out (transport c) @ piece_bytes (conn_checksum c) x"
    using send_piece [OF assms(1)] by blast
  moreover have "conn_neg c' = conn_neg c" using send_encoded_frame [of io k a0 a1 payload "conn_checksum c" c] assms(1) by auto
  ultimately show ?thesis using assms(2) by (auto simp: only_replies_def packet_new_def intro!: exI [of _ "[x]"])
qed

lemma recv_or_replies: "recv_pkt_or io interrupt race mp c = (r, c') \<Longrightarrow> only_replies out c c'"
  by (auto simp: recv_pkt_or_def only_replies_def dest!: recv_loop_reads reads_out split: prod.splits intro!: exI [of _ "[]"])

lemma recv_replies: "only_replies out c (snd (recv_pkt io mp c))"
  unfolding recv_pkt_snd using recv_or_replies [of never True mp c] by (metis prod.collapse)

lemma dispatch_replies: "only_replies out c (snd (conn_dispatch io pkt c))"
proof -
  obtain r t where d: "dispatch pkt (table c) = (r, t)" by force
  define c1 where "c1 = c\<lparr>table := t\<rparr>"
  have send: "only_replies out c (snd (send_encoded io k a0 a1 payload (conn_checksum c1) c1))" if "k \<noteq> Write" for k a0 a1 payload
    using send_replies [of k a0 a1 payload c1] that only_replies_trans [OF only_replies_same [of c1 c]] by (auto simp: c1_def) (metis prod.collapse)
  have "conn_checksum c = conn_checksum c1" by (simp add: c1_def conn_checksum_def)
  then show ?thesis
    unfolding conn_dispatch_snd act_on_def Let_def d
    using send by (auto simp: send_defs packet_refuse_def packet_close_def packet_new_def c1_def
        intro!: only_replies_same split: dispatch_outcome.split)
qed

lemma wait_ack_replies:
  assumes "wait_ack io ch c = Some (r, c')"
  shows "only_replies out c c'"
proof -
  have "only_replies out c (snd (wait_ack_round io ch c1))" if "only_replies out c c1" for c1
    using that unfolding wait_ack_round_def
    by (auto split: option.split sum.split intro!: try_in_keeps [where P = "only_replies out c"]
        intro: only_replies_trans [OF _ recv_replies] only_replies_trans [OF _ dispatch_replies]
        only_replies_table only_replies_close)
  then show ?thesis using looping_keeps [of "wait_ack_round io ch" c "(r, c')" "only_replies out c"] assms by (simp add: wait_ack_def)
qed

text \<open>One chunk is one whole write packet of the channel, within the payload limit.\<close>

lemma write_chunk_piece:
  assumes "write_chunk io ch rest c = (Ok n, c')"
  shows "conn_neg c' = conn_neg c \<and> (\<exists>p. command p = Write \<and> arg0 p = ch_local ch \<and> data p = take n rest \<and>
    length (data p) \<le> max (unat (neg_max_payload (conn_neg c))) 1 \<and>
    out (transport c') = out (transport c) @ wire_image (conn_checksum c) p)"
proof -
  obtain slot where slot: "table_get (table c) ch = Some slot" using assms by (auto simp: write_chunk_def split: option.splits)
  define credit where "credit = (case budget slot of Some b \<Rightarrow> b | None \<Rightarrow> 0)"
  define m where "m = min (min (length rest) (max (unat (neg_max_payload (conn_neg c))) 1)) credit"
  obtain ids where ids: "table_ids (table c) ch = (Inr ids :: 'e error + channel_ids)"
    using assms slot by (cases "table_ids (table c) ch :: 'e error + channel_ids") (auto simp: write_chunk_def)
  obtain r c1 where sent: "send_raw io Write ids (take m rest) (conn_checksum c) c = (r, c1)" by force
  have "and_then (r, c1) (\<lambda>_ c. case table_get (table c) ch of
      None \<Rightarrow> (Err ChannelClosed, c)
    | Some slot \<Rightarrow> (Ok m, c\<lparr>table := table_put ch (spend m slot) (table c)\<rparr>)) = (Ok n, c')"
    using assms slot ids sent unfolding write_chunk_def Let_def m_def credit_def by simp
  then have r: "r = Ok ()" "n = m" "transport c' = transport c1" "conn_neg c' = conn_neg c1"
    by (cases r; cases "table_get (table c1) ch"; auto simp: and_then_def)+
  define p where "p = packet_new Write (ids_local ids) (ids_remote ids) (take m rest)"
  have "out (transport c1) = out (transport c) @ wire_image (conn_checksum c) p"
    using send_piece [OF sent [unfolded send_raw_def]] r(1) by (auto simp: p_def)
  moreover have "ids_local ids = ch_local ch"
    using ids slot table_get_Some(3) [OF slot] by (auto simp: table_ids_def slot_ids_def split: option.splits)
  moreover have "conn_neg c1 = conn_neg c"
    using sent send_encoded_frame [of io Write "ids_local ids" "ids_remote ids" "take m rest" "conn_checksum c" c] by (auto simp: send_raw_def)
  ultimately show ?thesis using r by (intro conjI exI [of _ p]) (simp_all add: p_def packet_new_def m_def)
qed

lemma write_loop_pieces:
  "write_loop ioa ch rest c = Some y \<Longrightarrow> ioa = io \<Longrightarrow> fst y = Ok () \<Longrightarrow>
    \<exists>xs. out (transport (snd y)) = out (transport c) @ emitted (conn_checksum c) xs \<and> whole_writes xs \<and>
      concat (map data (chunks xs)) = rest \<and>
      (\<forall>p \<in> set (chunks xs). arg0 p = ch_local ch \<and> length (data p) \<le> max (unat (neg_max_payload (conn_neg c))) 1)"
proof (induction rule: write_loop.raw_induct [rotated, consumes 1, case_names step])
  case (step f io' ch rest c y)
  show ?case
  proof (cases "rest = []")
    case True
    then show ?thesis using step.hyps by (auto intro!: exI [of _ "[]"])
  next
    case False
    then obtain q where q: "wait_ack io ch c = Some q"
      and l: "loop_then q (\<lambda>_ c. loop_then (write_chunk io ch rest c) (\<lambda>n c. f io ch (drop n rest) c)) = Some y"
      using step.hyps step.prems by (auto simp: bind_eq_Some_conv)
    obtain c1 where c1: "q = (Ok (), c1)" and y: "loop_then (write_chunk io ch rest c1) (\<lambda>n c. f io ch (drop n rest) c) = Some y"
      using loop_then_ends_Ok [OF l step.prems(2)] by auto
    obtain n c2 where c2: "write_chunk io ch rest c1 = (Ok n, c2)" and f: "f io ch (drop n rest) c2 = Some y"
      using loop_then_ends_Ok [OF y step.prems(2)] by blast
    obtain p where p: "conn_neg c2 = conn_neg c1" "command p = Write" "arg0 p = ch_local ch" "data p = take n rest"
      "length (data p) \<le> max (unat (neg_max_payload (conn_neg c1))) 1" "out (transport c2) = out (transport c1) @ wire_image (conn_checksum c1) p"
      using write_chunk_piece [OF c2] by blast
    obtain zs where zs: "conn_neg c1 = conn_neg c" "out (transport c1) = out (transport c) @ emitted (conn_checksum c) zs" "chunks zs = []"
      using wait_ack_replies [OF q [unfolded c1]] by (auto simp: only_replies_def)
    have cs: "conn_checksum c1 = conn_checksum c" "conn_checksum c2 = conn_checksum c" using zs(1) p(1) by (simp_all add: conn_checksum_def)
    obtain xs where xs: "out (transport (snd y)) = out (transport c2) @ emitted (conn_checksum c) xs" "whole_writes xs"
      "concat (map data (chunks xs)) = drop n rest"
      "\<forall>p \<in> set (chunks xs). arg0 p = ch_local ch \<and> length (data p) \<le> max (unat (neg_max_payload (conn_neg c))) 1"
      using step.IH [OF f refl step.prems(2)] cs p(1) zs(1) by auto
    have "whole_writes (zs @ [Whole p])" using zs(3) by (auto simp: whole_writes_def chunks_def filter_empty_conv)
    then show ?thesis
      using xs zs p cs by (intro exI [of _ "zs @ [Whole p] @ xs"]) auto
  qed
qed

end

end
