(* ===== verification/Connection_Props.thy ===== *)
theory Connection_Props
  imports Connection_Streams
begin

text \<open>
  What a connection guarantees its caller: the invariant every call keeps, that no wait is
  endless when the peer's bytes are finite, what a read and a write move, what happens to
  slots and requests when a call fails or is dropped, and that a call succeeds when the
  device does its part over a transport that works.
\<close>

section \<open>Transports that keep working\<close>

text \<open>A transport that takes what it is given, and hands over what the peer sent, while it is alive.\<close>

locale live_wire = live_source io inp alive for io :: "('t, 'e) transport_ops" and inp and alive +
  assumes write_live: "alive t \<Longrightarrow> buf \<noteq> [] \<Longrightarrow> \<exists>n t'. t_write io t buf = (Done n, t') \<and> 0 < n \<and> alive t'"
    and flush_live: "alive t \<Longrightarrow> \<exists>t'. t_flush io t = (Done (), t') \<and> alive t'"
begin

lemma write_all_live: "alive t \<Longrightarrow> \<exists>t'. write_all io buf t = (Ok (), t') \<and> alive t'"
proof (induction "length buf" arbitrary: buf t rule: less_induct)
  case less
  show ?case
  proof (cases "buf = []")
    case False
    then obtain n t1 where n: "t_write io t buf = (Done n, t1)" "0 < n" "alive t1" using write_live [OF less.prems] by blast
    then have "length (drop n buf) < length buf" using False by simp
    then show ?thesis using less.hyps [of "drop n buf" t1] n False by (subst write_all.simps) auto
  qed (use less.prems in \<open>simp add: write_all.simps\<close>)
qed

lemma send_live:
  assumes "alive (transport w)" and "\<not> desync w" and "length payload \<le> unat MAX_PAYLOAD"
  shows "\<exists>t'. send_encoded io k a0 a1 payload cs w = (Ok (), w\<lparr>transport := t'\<rparr>) \<and> alive t' \<and> inp t' = inp (transport w)"
proof -
  obtain h where h: "encode_header k a0 a1 payload cs = Inr h" using assms(3) by (simp add: encode_header_def)
  obtain t1 where t1: "write_all io h (transport w) = (Ok (), t1)" "alive t1" using write_all_live [OF assms(1)] by blast
  obtain t2 where t2: "(if payload \<noteq> [] then write_all io payload t1 else (Ok (), t1)) = (Ok (), t2)" "alive t2"
    using write_all_live [OF t1(2), of payload] t1(2) by (cases "payload = []") auto
  obtain t3 where t3: "t_flush io t2 = (Done (), t3)" "alive t3" using flush_live [OF t2(2)] by blast
  have "write_frame io h payload (transport w) = (Ok (), t3)"
    unfolding write_frame_def using t1 t2 t3 by (simp add: and_then_def)
  then have "send_encoded io k a0 a1 payload cs w = (Ok (), w\<lparr>transport := t3\<rparr>)"
    using assms(2) h by (simp add: send_encoded_def check_desync_def send_frame_def)
  moreover have "inp t3 = inp (transport w)"
    using backlog_send [of k a0 a1 payload cs w] calculation by (simp add: backlog_def)
  ultimately show ?thesis using t3(2) by blast
qed

lemma open_live:
  assumes "alive (transport c)" and "\<not> desync c" and "allocate (table c) = (Some ch, t)" and "length dest \<le> unat MAX_PAYLOAD"
    and "command p = Ready" and "arg1 p = ch_local ch" and "encode p cs = Inr w" and "length (data p) \<le> unat (inbound_limit c)"
    and "backlog inp c = w @ rest" and "policy_ack (table_policy (table c)) = Delayed \<longrightarrow> 4 \<le> length (data p)"
  shows "\<exists>c' s. open_channel io dest c = Some (Ok ch, c') \<and> backlog inp c' = rest \<and> table_get (table c') ch = Some s \<and>
    slot_remote s = Some (arg0 p) \<and> slot_state s = OpenState"
proof -
  note al = allocate_Some [OF assms(3)]
  define c1 where "c1 = c\<lparr>table := t\<rparr>"
  define credit where "credit = (case advertised_credit (conn_neg c) of Some n \<Rightarrow> n | None \<Rightarrow> 0)"
  have a1: "alive (transport c1)" "\<not> desync c1" using assms(1,2) by (simp_all add: c1_def)
  obtain t2 where t2: "send_open io (ch_local ch) credit dest (conn_checksum c1) c1 = (Ok (), c1\<lparr>transport := t2\<rparr>)"
    "alive t2" "inp t2 = inp (transport c1)" using send_live [OF a1 assms(4)] unfolding send_open_def by blast
  define c2 where "c2 = c1\<lparr>transport := t2\<rparr>"
  have "recv_buf c2 @ inp (transport c2) = w @ rest" using assms(9) t2(3) by (simp add: c2_def c1_def backlog_def)
  then obtain c3 where c3: "recv_pkt io (inbound_limit c2) c2 = (Ok p, c3)" "recv_buf c3 @ inp (transport c3) = rest"
    using recv_pkt_live [of c2 p cs w "inbound_limit c2" rest] t2(2) assms(7,8) by (auto simp: c2_def c1_def inbound_limit_def)
  have t3: "table c3 = t"
    using c3(1) recv_pkt_or_frame [of io never True "inbound_limit c2" c2] recv_pkt_snd [of io "inbound_limit c2" c2] by (auto simp: c2_def c1_def)
  have "\<exists>s. accept_open_ready (arg0 p) (data p) (slot_opening (ch_local ch) (table_policy t)) = Inr s"
    using assms(10) al(4) by (cases "policy_ack (table_policy t) = Delayed")
      (simp_all add: accept_open_ready_def parse_ready_credit_def slot_opening_def)
  then obtain s where s: "accept_open_ready (arg0 p) (data p) (slot_opening (ch_local ch) (table_policy t)) = Inr s" by blast
  obtain t4 where t4: "insert_opening ch t = Some t4" using al(1,4) by (simp add: insert_opening_def fill_def)
  define c4 where "c4 = c3\<lparr>table := table_put ch s t4\<rparr>"
  have "open_answered io ch p c3 = (Ok ch, c4)" using t3 t4 s by (simp add: open_answered_def c4_def)
  then have "await_open_ack io ch c2 = Some (Ok ch, c4)"
    unfolding await_open_ack_def by (subst looping.simps) (simp add: await_open_round_def c3 assms(5,6) leave_def)
  then have "open_channel io dest c = Some (Ok ch, c4)"
    using assms(2,3) t2(1) by (simp add: open_channel_def check_desync_def Let_def c1_def [symmetric] credit_def [symmetric] c2_def [symmetric])
  moreover have "table_get (table c4) ch = Some s"
  proof -
    have "table_get t4 ch = Some (slot_opening (ch_local ch) (table_policy t))"
      using t4 al(1,4) by (auto simp: insert_opening_def fill_def table_get_def slot_opening_def split: if_splits)
    from table_get_put [OF this, of s] show ?thesis using accept_open_ready_ok(3) [OF s] by (simp add: c4_def slot_opening_def)
  qed
  ultimately show ?thesis using c3(2) accept_open_ready_ok [OF s] by (auto simp: c4_def backlog_def)
qed

text \<open>With credit for all of it, a write goes out chunk by chunk without waiting.\<close>

lemma write_chunk_live:
  fixes rest :: bytes
  assumes "alive (transport c)" and "\<not> desync c" and "table_get (table c) ch = Some s" and "slot_remote s \<noteq> None"
    and "budget s = Some b" and "neg_max_payload (conn_neg c) \<le> MAX_PAYLOAD"
  defines "n \<equiv> min (min (length rest) (max (unat (neg_max_payload (conn_neg c))) 1)) b"
  shows "\<exists>t'. write_chunk io ch rest c = (Ok n, c\<lparr>transport := t', table := table_put ch (spend n s) (table c)\<rparr>) \<and> alive t' \<and>
    inp t' = inp (transport c)"
proof -
  obtain ids where ids: "table_ids (table c) ch = (Inr ids :: 'e error + channel_ids)"
    using assms(3,4) by (auto simp: table_ids_def slot_ids_def)
  have "unat (neg_max_payload (conn_neg c)) \<le> unat MAX_PAYLOAD" using assms(6) by (simp add: word_le_nat_alt)
  then have "length (take n rest) \<le> unat MAX_PAYLOAD" by (auto simp: n_def MAX_PAYLOAD_def)
  from send_live [OF assms(1,2) this] obtain t' where
    "send_raw io Write ids (take n rest) (conn_checksum c) c = (Ok (), c\<lparr>transport := t'\<rparr>)" "alive t'" "inp t' = inp (transport c)"
    unfolding send_raw_def by blast
  then show ?thesis using assms(3,5) ids by (auto simp: write_chunk_def Let_def n_def)
qed

lemma write_loop_live:
  assumes "alive (transport c)" and "\<not> desync c" and "table_get (table c) ch = Some s" and "slot_remote s \<noteq> None"
    and "\<not> is_closed s" and "policy_ack (policy s) = Delayed" and "int (length rest) \<le> send_budget s"
    and "send_budget s < 2 ^ 63" and "neg_max_payload (conn_neg c) \<le> MAX_PAYLOAD"
  shows "\<exists>t'. write_loop io ch rest c = Some (Ok (), c\<lparr>transport := t',
      table := table_put ch (s\<lparr>send_budget := send_budget s - int (length rest)\<rparr>) (table c)\<rparr>) \<and> alive t' \<and> inp t' = inp (transport c)"
  using assms
proof (induction "length rest" arbitrary: rest c s rule: less_induct)
  case less
  note put = table_put_slots(3) [OF less.prems(3)] and loc = table_get_Some [OF less.prems(3)]
  show ?case
  proof (cases "rest = []")
    case True
    have "table_put ch s (table c) = table c" using put [of s] loc(2) list_update_id [of "slots (table c)" "ch_slot ch"] by simp
    then show ?thesis using True less.prems(1) by (subst write_loop.simps) (auto intro!: exI [of _ "transport c"])
  next
    case False
    then have pos: "0 < send_budget s" using less.prems(7) by (cases rest) auto
    then have b: "budget s = Some (nat (send_budget s))" using less.prems(6) by (simp add: budget_def)
    define n where "n = min (min (length rest) (max (unat (neg_max_payload (conn_neg c))) 1)) (nat (send_budget s))"
    have n: "0 < n" "n \<le> length rest" using False pos by (auto simp: n_def)
    obtain t1 where t1: "write_chunk io ch rest c = (Ok n, c\<lparr>transport := t1, table := table_put ch (spend n s) (table c)\<rparr>)" "alive t1"
        "inp t1 = inp (transport c)"
      using write_chunk_live [OF less.prems(1-4) b less.prems(9), of rest] by (auto simp: n_def)
    define c1 where "c1 = c\<lparr>transport := t1, table := table_put ch (spend n s) (table c)\<rparr>"
    have w: "wait_ack io ch c = Some (Ok (), c)"
      unfolding wait_ack_def using less.prems(3,5) b by (subst looping.simps) (simp add: wait_ack_round_def)
    have spent: "spend n s = s\<lparr>send_budget := send_budget s - int n\<rparr>"
      using less.prems(6-8) n by (auto simp: spend_def i64_wrap_id)
    have get1: "table_get (table c1) ch = Some (spend n s)"
      using table_get_put [OF less.prems(3), of "spend n s"] loc(3) by (simp add: c1_def spent)
    define s' where "s' = s\<lparr>send_budget := send_budget s - int (length rest)\<rparr>"
    have s': "(spend n s)\<lparr>send_budget := send_budget (spend n s) - int (length (drop n rest))\<rparr> = s'"
      using n(2) by (simp add: spent s'_def of_nat_diff)
    have "\<exists>t'. write_loop io ch (drop n rest) c1 = Some (Ok (), c1\<lparr>transport := t',
        table := table_put ch ((spend n s)\<lparr>send_budget := send_budget (spend n s) - int (length (drop n rest))\<rparr>) (table c1)\<rparr>) \<and> alive t' \<and> inp t' = inp (transport c1)"
    proof (rule less.hyps)
      show "length (drop n rest) < length rest" using n False by simp
      show "int (length (drop n rest)) \<le> send_budget (spend n s)" "send_budget (spend n s) < 2 ^ 63"
        using spent less.prems(7,8) n by auto
    qed (use less.prems t1(2) get1 spent in \<open>simp_all add: c1_def is_closed_def\<close>)
    then obtain t' where t': "write_loop io ch (drop n rest) c1 = Some (Ok (), c1\<lparr>transport := t', table := table_put ch s' (table c1)\<rparr>)"
        "alive t'" "inp t' = inp (transport c1)" unfolding s' by blast
    have "table_put ch s' (table c1) = table_put ch s' (table c)"
      using table_put_slots(3) [OF get1, of s'] put by (simp add: c1_def)
    then have "write_loop io ch rest c = Some (Ok (), c\<lparr>transport := t', table := table_put ch s' (table c)\<rparr>)"
      using w t1(1) t'(1) False by (subst write_loop.simps) (simp add: c1_def)
    then show ?thesis unfolding s'_def [symmetric] using t'(2,3) t1(3) by (auto simp: c1_def)
  qed
qed

end

text \<open>The scripted transport is one, unless it was told to fail or to stall.\<close>

definition healthy :: "mock \<Rightarrow> bool" where
  "healthy m \<longleftrightarrow> read_failure m = None \<and> write_failure m = None \<and> failing_write m = None \<and> stall_write m = None \<and> stall_close_to m = None"

interpretation mock_wire: live_wire mock_io inbound healthy
proof unfold_locales
  fix t :: mock and n :: usize
  assume "healthy t" "inbound t \<noteq> []" "0 < n"
  then show "\<exists>d t'. t_read mock_io t n = (Done d, t') \<and> d \<noteq> [] \<and> healthy t'"
    by (auto simp: mock_defs healthy_def min_def)
next
  fix t :: mock and buf :: bytes
  assume "healthy t" "buf \<noteq> []"
  then show "\<exists>n t'. t_write mock_io t buf = (Done n, t') \<and> 0 < n \<and> healthy t'"
    by (auto simp: mock_defs healthy_def stalls_on_def)
qed (auto simp: mock_defs healthy_def)

section \<open>A connection over the scripted transport\<close>

definition sample_neg :: negotiated where
  "sample_neg = \<lparr>neg_max_payload = 2, protocol_version = ADB_VERSION, neg_config = embedded, delayed_ack = True,
     neg_banner = \<lparr>b_raw = [], b_state = (0, 0), b_serial = (0, 0), b_properties = [], b_features = []\<rparr>\<rparr>"

text \<open>One channel is open, with bytes to read and credit to write; one slot is free.\<close>

definition sample_slot :: channel_slot where
  "sample_slot = (slot_accepted \<lparr>ids_local = 4, ids_remote = 9\<rparr> 64 (rx_policy_of sample_neg))\<lparr>rx_buf := [1, 2, 3]\<rparr>"

definition sample_handle :: channel_id where
  "sample_handle = \<lparr>ch_slot = 0, ch_local = 4\<rparr>"

definition sample_conn :: "mock \<Rightarrow> mock connection" where
  "sample_conn m = \<lparr>transport = m, recv_buf = [], desync = False,
     table = \<lparr>slots = [Some sample_slot, None], next_local_id = 5, table_policy = rx_policy_of sample_neg\<rparr>,
     conn_neg = sample_neg, incoming = [\<lparr>po_remote = 7, po_credit = 32, po_destination = lit ''tcp:1''\<rparr>]\<rparr>"

lemma sample_simps [simp]:
  "table_get (table (sample_conn m)) sample_handle = Some sample_slot" "transport (sample_conn m) = m"
  "desync (sample_conn m) = False" "failed sample_slot = None" "rx_buf sample_slot = [1, 2, 3]"
  "recv_buf (sample_conn m) = []" "conn_neg (sample_conn m) = sample_neg"
  by (simp_all add: sample_conn_def sample_handle_def table_get_def sample_slot_def slot_accepted_def slot_opening_def Let_def)

lemma sample_policy: "rx_policy_of sample_neg = policy_of True embedded"
  by (simp add: rx_policy_of_eq sample_neg_def)

lemma sample_slot_simps [simp]: "slot_local sample_slot = 4" "slot_remote sample_slot = Some 9" "settled sample_slot = 0"
  "unacked sample_slot = 0" "send_budget sample_slot = 64" "policy sample_slot = policy_of True embedded"
  "slot_state sample_slot = OpenState"
  by (simp_all add: sample_slot_def slot_accepted_def slot_opening_def Let_def sample_policy policy_of_def)

lemma sample_put [simp]:
  "slot_local s = 4 \<Longrightarrow> table_get (table_put sample_handle s (table (sample_conn m))) sample_handle = Some s"
  using table_get_put [OF sample_simps(1), of s m] by (simp add: sample_handle_def)

lemma sample_ok: "conn_ok (sample_conn m)"
proof -
  have "slot_ok sample_slot" by (simp add: slot_ok_def held_def policy_of_def rx_cap_def embedded_def usize_max_def)
  then show ?thesis by (auto simp: conn_ok_def slots_ok_def sample_conn_def table_len_def sample_policy)
qed

lemma sample_lone: "lone sample_handle (table (sample_conn m))"
  by (auto simp: lone_def sample_conn_def layout_def sample_handle_def less_Suc_eq)

section \<open>A read that cannot be interrupted is not\<close>

lemma fill_staged_never:
  fixes io :: "('t, 'e) transport_ops"
  shows "fill_staged io never race t st \<noteq> (Overtaken v, st', t')"
proof (induction io "never :: 't \<Rightarrow> unit option" race t st arbitrary: st' t' rule: fill_staged.induct)
  case (1 io race t st)
  show ?case
  proof
    assume o: "fill_staged io never race t st = (Overtaken v, st', t')"
    obtain q t1 where q: "t_read io t (room st) = (q, t1)" by force
    show False
      using o 1 [OF _ q [symmetric]] q
      by (subst (asm) fill_staged.simps) (auto simp: never_def Let_def split: polled.splits if_splits bool.splits)
  qed
qed

lemma recv_loop_never:
  fixes io :: "('t, 'e) transport_ops"
  shows "recv_loop io never race mp t buf \<noteq> (Ok (Interrupted v), t', buf')"
proof (induction io "never :: 't \<Rightarrow> unit option" race mp t buf arbitrary: t' buf' rule: recv_loop.induct)
  case (1 io race mp t buf)
  show ?case
  proof
    assume o: "recv_loop io never race mp t buf = (Ok (Interrupted v), t', buf')"
    obtain d rest where d: "decode buf mp = (d, rest)" by force
    have dn: "d = Inr None" using o d by (subst (asm) recv_loop.simps) (auto split: sum.splits option.splits)
    obtain f st t1 where f: "fill_staged io never race t (staged_new buf) = (f, st, t1)" by (metis prod.exhaust)
    show False
    proof (cases f)
      case Filled
      then have "recv_loop io never race mp t1 (committed st) = (Ok (Interrupted v), t', buf')"
        using o d dn f by (subst (asm) recv_loop.simps) simp
      then show False using 1 [OF d [symmetric] dn refl f [symmetric] Filled refl] by blast
    next
      case (Overtaken u)
      then show False using f fill_staged_never [of io race t "staged_new buf" u st t1] by simp
    qed (use o d dn f in \<open>subst (asm) recv_loop.simps; simp\<close>)+
  qed
qed

lemma recv_data_never:
  assumes "recv_data io never race ch len c = Some (r, c')"
  shows "r \<noteq> Ok (SelectInterrupted v)"
proof
  assume r: "r = Ok (SelectInterrupted v)"
  have "looping (recv_data_round io never race ch ids len) c1 \<noteq> Some (Ok (SelectInterrupted v), c')" for ids c1
  proof
    assume "looping (recv_data_round io never race ch ids len) c1 = Some (Ok (SelectInterrupted v), c')"
    then obtain c2 where round: "recv_data_round io never race ch ids len c2 = (Some (Ok (SelectInterrupted v)), c')"
      using looping_last [of "recv_data_round io never race ch ids len" c1 _ c' "\<lambda>_. True"] by auto
    obtain q c3 where q: "recv_pkt_or io never race (inbound_limit c2) c2 = (q, c3)" by force
    have "q \<noteq> Ok (Interrupted u)" for u
      using q recv_loop_never [of io race "inbound_limit c2" "transport c2" "recv_buf c2"] by (auto simp: recv_pkt_or_def split: prod.splits)
    moreover have "fst (deliver_direct io ch d x) \<noteq> Ok (SelectInterrupted v)" for d x
      by (auto simp: deliver_direct_def and_then_def split: option.splits prod.splits outcome.splits)
    ultimately show False
      using round q by (cases q) (auto simp: recv_data_round_def leave_def try_in_def split: received.splits if_splits prod.splits outcome.splits)
  qed
  then show False
    using assms r by (auto simp: recv_data_def loop_then_def split: prod.splits outcome.splits option.splits sum.splits)
qed

section \<open>Properties\<close>

text \<open>
  C6: whatever sequence of calls a connection serves, however each of them ends, it never
  holds more undecided requests than it has slots, every channel's unread bytes stay within
  the configured cap with the settled part inside the buffer, and the size of the table and
  what was negotiated never change.
\<close>

theorem connection_invariant:
  assumes "conn_ok c0" and "(call io)\<^sup>*\<^sup>* c0 c"
  shows "length (incoming c) \<le> table_len (table c0) \<and> table_len (table c) = table_len (table c0) \<and> conn_neg c = conn_neg c0 \<and>
    (\<forall>ch s. table_get (table c) ch = Some s \<longrightarrow> settled s \<le> length (rx_buf s) \<and>
      (rx_cap (neg_config (conn_neg c0)) < usize_max \<longrightarrow> held s \<le> rx_cap (neg_config (conn_neg c0))))"
proof -
  from assms(2,1) have k: "kept c0 c"
    by (induction rule: rtranclp_induct) (auto simp: kept_def dest: call_kept)
  have "settled s \<le> length (rx_buf s) \<and> (rx_cap (neg_config (conn_neg c0)) < usize_max \<longrightarrow> held s \<le> rx_cap (neg_config (conn_neg c0)))"
    if "table_get (table c) ch = Some s" for ch s
  proof -
    have "Some s \<in> set (slots (table c))" using table_get_Some [OF that] by (metis nth_mem)
    then have "slot_ok s" "policy s = rx_policy_of (conn_neg c)" using k by (auto simp: kept_def conn_ok_def slots_ok_def)
    then show ?thesis using k by (auto simp: slot_ok_def rx_policy_of_def kept_def)
  qed
  then show ?thesis using k by (auto simp: kept_def conn_ok_def)
qed

theorem connection_invariant_witness:
  "\<exists>c. (call mock_io)\<^sup>*\<^sup>* (sample_conn mock_new) c \<and> length (incoming c) \<le> 2"
proof -
  obtain i where i: "try_accept_incoming (sample_conn mock_new) = Some i"
    by (auto simp: try_accept_incoming_def sample_conn_def pop_front_def)
  obtain r c where "accept mock_io i = (r, c)" by force
  then have "(call mock_io)\<^sup>*\<^sup>* (sample_conn mock_new) c" using call_try_accept [OF i] by blast
  from this connection_invariant [OF sample_ok this] show ?thesis by (auto simp: sample_conn_def table_len_def)
qed



text \<open>
  C7: reading a channel hands over exactly what arrived for it.  A read that returns data
  has consumed a whole number of packets, and the bytes that were buffered for the channel
  followed by the payloads of the writes to it among those packets are the data returned
  followed by what is still buffered: no byte is lost, repeated or taken from another
  channel.
\<close>

theorem read_channel_in_order:
  assumes "source io inp" and "read_channel io ch len c = Some (Ok d, c')" and "lone ch (table c)"
    and "table_get (table c) ch = Some s" and "failed s = None"
  shows "\<exists>ps b s'. images ps b \<and> backlog inp c = b @ backlog inp c' \<and> table_get (table c') ch = Some s' \<and>
    rx_buf s @ arrived ch ps = d @ rx_buf s'"
proof -
  obtain r c1 where r: "recv_data io never True ch len c = Some (r, c1)" using assms(2) by (auto simp: read_channel_def bind_eq_Some_conv)
  then have "r = Ok (Data d)" "c' = c1" using assms(2)
    by (auto simp: read_channel_def loop_then_def split: outcome.splits select_result.splits)
  then show ?thesis using source.recv_data_accounts [OF assms(1) r assms(3-5)] by (simp add: handed_def)
qed

theorem read_channel_in_order_witness:
  "\<exists>ps b s' c'. read_channel mock_io sample_handle 2 (sample_conn mock_new) = Some (Ok [1, 2], c') \<and> images ps b \<and>
     table_get (table c') sample_handle = Some s' \<and> [1, 2, 3] @ arrived sample_handle ps = [1, 2] @ rx_buf s'"
proof -
  have "\<exists>c'. read_channel mock_io sample_handle 2 (sample_conn mock_new) = Some (Ok [1, 2], c')"
    by (simp add: read_channel_def recv_data_def conn_take_buffered_def has_data_def settle_take_def slot_ids_def ack_len_of_def
        okay_if_def take_now_def take_buffered_def)
  then obtain c' where r: "read_channel mock_io sample_handle 2 (sample_conn mock_new) = Some (Ok [1, 2], c')" by blast
  from read_channel_in_order [OF mock_source.source_axioms r sample_lone sample_simps(1,4)] r show ?thesis
    unfolding sample_simps by blast
qed





text \<open>
  C32: opening a channel takes a slot only if it succeeds.  On success exactly the slot of
  the new handle, which was free, is filled, with a channel that is open and has the
  device's id; on every other way out -- refused, failed, dropped -- the same slots are
  held by the same channels as before.
\<close>

theorem open_channel_slots:
  assumes "open_channel io destination c = Some (r, c')"
  shows "case r of
      Ok ch \<Rightarrow> ch_slot ch < length (slots (table c)) \<and> slots (table c) ! ch_slot ch = None \<and>
        layout (table c') = (layout (table c))[ch_slot ch := Some (ch_local ch)] \<and>
        (\<exists>s. table_get (table c') ch = Some s \<and> slot_state s = OpenState \<and> slot_remote s \<noteq> None)
    | _ \<Rightarrow> layout (table c') = layout (table c)"
  using assms
proof (cases rule: open_channel_cases)
  case refused
  then show ?thesis using turns_fixed(2) [OF refused(2)] by (auto split: outcome.split)
next
  case (tried ch t)
  then show ?thesis using turns_fixed(2) [OF tried(3)] slots_ok_allocate(5) [OF tried(1)] by (auto split: outcome.split)
next
  case (opened ch t c1 s pkt)
  note al = allocate_Some [OF opened(2)] and s = accept_open_ready_ok [OF opened(6)]
  have lay: "layout (table c1) = layout (table c)"
    using turns_fixed(2) [OF opened(3)] slots_ok_allocate(5) [OF opened(2)] by simp
  have loc: "slot_local s = ch_local ch" using s(3) by (simp add: slot_opening_def)
  have f: "ch_slot ch < length (slots (table c1))" "table c' = (table c1)\<lparr>slots := (slots (table c1))[ch_slot ch := Some s]\<rparr>"
    using opened(4) by (auto simp: fill_def split: if_splits)
  have "layout (table c') = (layout (table c1))[ch_slot ch := Some (ch_local ch)]"
    unfolding f(2) layout_def using loc by (simp add: map_update)
  moreover have "table_get (table c') ch = Some s" unfolding f(2) table_get_def using f(1) loc by simp
  ultimately show ?thesis unfolding opened(1) lay using al(1,2) s(1,2) by simp
qed

theorem open_channel_slots_witness:
  "\<exists>r c'. open_channel mock_io (lit ''sync:'') (sample_conn mock_new) = Some (r, c') \<and>
     ((\<exists>ch. r = Ok ch) \<or> layout (table c') = [Some 4, None])"
proof -
  define c where "c = sample_conn mock_new"
  obtain r c' where r: "open_channel mock_io (lit ''sync:'') c = Some (r, c')" using mock_source.open_returns by (metis surj_pair)
  have "layout (table c) = [Some 4, None]" by (simp add: c_def sample_conn_def layout_def)
  then show ?thesis using r open_channel_slots [OF r] by (cases r) (auto simp: c_def [symmetric])
qed

text \<open>
  C33: a request of the device is decided once or not at all.  Accepting it either opens its
  channel in a free slot and takes the request off the queue, or leaves every handle
  resolving as before; and then the request is back at the head of the queue, unless it was
  answered with a refusal or the device is gone.
\<close>

theorem accept_decides_or_restores:
  assumes "try_accept_incoming c = Some i" and "accept io i = (r, c')"
  shows "\<exists>p q. incoming c = p # q \<and> (case r of
      Ok ch \<Rightarrow> incoming c' = q \<and> table_get (table c) ch = None \<and> table_get (table c') = (table_get (table c))(ch \<mapsto>
        slot_accepted \<lparr>ids_local = ch_local ch, ids_remote = po_remote p\<rparr> (po_credit p) (table_policy (table c)))
    | Err e \<Rightarrow> table_get (table c') = table_get (table c) \<and>
        incoming c' = (if e = NoFreeChannels \<or> connection_gone io e then q else p # q)
    | Cancelled \<Rightarrow> table_get (table c') = table_get (table c) \<and> incoming c' = p # q
    | Panicked \<Rightarrow> False)"
proof -
  obtain p q where i: "incoming c = p # q" "i = \<lparr>in_conn = c\<lparr>incoming := q\<rparr>, in_pending = Some p, in_reserved = None\<rparr>"
    using try_accept_Some [OF assms(1)] by blast
  note acc = assms(2) [unfolded i(2)]
  obtain a t where al: "allocate (table c) = (a, t)" by force
  note get = allocate_get [OF al]
  show ?thesis
  proof (cases a)
    case None
    note f = accept_full [OF i(1) al [unfolded None] acc]
    show ?thesis using f(1-4) i(1) by (cases r) simp_all
  next
    case (Some ch)
    note f = accept_reserved [OF i(1) al [unfolded Some] acc] and a = allocate_Some [OF al [unfolded Some]]
    have free: "table_get (table c) ch = None" using a(1,2) by (simp add: table_get_def)
    show ?thesis
    proof (cases r)
      case (Ok x)
      then have "x = ch" using f(3) by blast
      moreover have "table_get (table c') = (table_get t)(ch \<mapsto>
          slot_accepted \<lparr>ids_local = ch_local ch, ids_remote = po_remote p\<rparr> (po_credit p) (table_policy (table c)))"
        using f(4) Ok a(2,4) by (intro table_get_fill) (simp_all add: slot_accepted_def slot_opening_def Let_def)
      ultimately show ?thesis using f(5) Ok free get i(1) by simp
    next
      case (Err e)
      then show ?thesis using f(4-6) get i(1) by simp
    next
      case Cancelled
      then show ?thesis using f(4,5) get i(1) by simp
    next
      case Panicked
      then show ?thesis using f(1) by simp
    qed
  qed
qed

theorem accept_decides_or_restores_witness:
  "\<exists>i r c'. try_accept_incoming (sample_conn mock_new) = Some i \<and> accept mock_io i = (r, c') \<and> length (incoming c') \<le> 1"
proof -
  obtain i where i: "try_accept_incoming (sample_conn mock_new) = Some i"
    by (auto simp: try_accept_incoming_def sample_conn_def pop_front_def)
  obtain r c' where r: "accept mock_io i = (r, c')" by force
  from accept_decides_or_restores [OF i r] have "length (incoming c') \<le> 1"
    by (cases r) (auto simp: sample_conn_def split: if_splits)
  then show ?thesis using i r by blast
qed

lemma take_with_data:
  assumes "desync c" and "table_get (table c) ch = Some s" and "has_data s"
  shows "\<exists>n c'. conn_take_buffered io ch len c = (Ok (Some (take n (rx_buf s))), c') \<and> transport c' = transport c \<and>
    (settled s = 0 \<longrightarrow> n = min len (length (rx_buf s)))"
proof -
  obtain ack s1 where st: "settle_take len s = (ack, s1)" by (metis prod.exhaust)
  have s1: "slot_local s1 = slot_local s" "has_data s1" "rx_buf s1 = rx_buf s"
      "settled s = 0 \<Longrightarrow> min len (if settled s1 = 0 then length (rx_buf s) else settled s1) = min len (length (rx_buf s))"
    using st assms(3) by (auto simp: settle_take_def has_data_def slot_ids_def Let_def split: option.splits if_splits)
  define c1 where "c1 = c\<lparr>table := table_put ch s1 (table c)\<rparr>"
  have ok: "okay_if io ack c1 = (Ok (), c1)"
    using assms(1) by (cases ack) (simp_all add: okay_if_def send_okay_def send_okay_to_def send_raw_def send_encoded_def check_desync_def and_then_def c1_def)
  have get: "table_get (table c1) ch = Some s1"
    using table_get_put [OF assms(2), of s1] table_get_Some(3) [OF assms(2)] s1(1) by (simp add: c1_def)
  define n where "n = min len (if settled s1 = 0 then length (rx_buf s) else settled s1)"
  have "\<exists>c'. conn_take_buffered io ch len c = (Ok (Some (take n (rx_buf s))), c') \<and> transport c' = transport c"
    using assms(2,3) st ok get s1(2,3)
    by (simp add: conn_take_buffered_def c1_def [symmetric] take_now_def take_buffered_def Let_def n_def) (simp add: c1_def)
  moreover have "settled s = 0 \<longrightarrow> n = min len (length (rx_buf s))" using s1(4) by (simp add: n_def)
  ultimately show ?thesis by (intro exI [of _ n]) simp
qed



text \<open>
  C35: opening succeeds when the device agrees.  Over a transport that works, on a connection
  that is in step and has a free slot, a READY for the new channel as the next packet makes
  \<open>open_channel\<close> return the handle of an open channel with the device's id.
\<close>

theorem open_channel_succeeds:
  assumes "live_wire io inp alive" and "alive (transport c)" and "\<not> desync c" and "allocate (table c) = (Some ch, t)"
    and "length destination \<le> unat MAX_PAYLOAD"
    and "command p = Ready" and "arg1 p = ch_local ch" and "encode p cs = Inr w" and "length (data p) \<le> unat (inbound_limit c)"
    and "backlog inp c = w @ rest" and "policy_ack (table_policy (table c)) = Delayed \<longrightarrow> 4 \<le> length (data p)"
  shows "\<exists>c' s. open_channel io destination c = Some (Ok ch, c') \<and> backlog inp c' = rest \<and> table_get (table c') ch = Some s \<and>
    slot_remote s = Some (arg0 p) \<and> slot_state s = OpenState"
  by (rule live_wire.open_live [OF assms])

theorem open_channel_succeeds_witness:
  "\<exists>m c' s. feed \<lparr>command = Ready, arg0 = 3, arg1 = 5, data = [0, 1, 0, 0]\<rparr> mock_new = Some m \<and>
     open_channel mock_io (lit ''sync:'') (sample_conn m) = Some (Ok \<lparr>ch_slot = 1, ch_local = 5\<rparr>, c') \<and>
     table_get (table c') \<lparr>ch_slot = 1, ch_local = 5\<rparr> = Some s \<and> slot_state s = OpenState"
proof -
  define p :: packet where "p = \<lparr>command = Ready, arg0 = 3, arg1 = 5, data = [0, 1, 0, 0]\<rparr>"
  obtain w where w: "encode p Compute = Inr w" by (simp add: encode_def encode_header_def p_def)
  define m where "m = mock_new\<lparr>inbound := w\<rparr>"
  have al: "allocate (table (sample_conn m)) = (Some \<lparr>ch_slot = 1, ch_local = 5\<rparr>, (table (sample_conn m))\<lparr>next_local_id := following_id 5\<rparr>)"
    by (simp add: allocate_def sample_conn_def)
  have "\<exists>c' s. open_channel mock_io (lit ''sync:'') (sample_conn m) = Some (Ok \<lparr>ch_slot = 1, ch_local = 5\<rparr>, c') \<and> backlog inbound c' = [] \<and>
      table_get (table c') \<lparr>ch_slot = 1, ch_local = 5\<rparr> = Some s \<and> slot_remote s = Some (arg0 p) \<and> slot_state s = OpenState"
    by (rule open_channel_succeeds [OF mock_wire.live_wire_axioms _ _ al _ _ _ w])
      (simp_all add: healthy_def m_def mock_new_def p_def backlog_def inbound_limit_def sample_neg_def embedded_def lit_def)
  moreover have "feed p mock_new = Some m" using w by (simp add: feed_def m_def mock_new_def)
  ultimately show ?thesis unfolding p_def by blast
qed

text \<open>
  C36: a write with credit for all of its data completes.  Over a transport that works, on a
  connection that is in step, it returns success without waiting for the device, and exactly
  its length is taken off the credit.
\<close>

theorem write_channel_completes:
  assumes "live_wire io inp alive" and "alive (transport c)" and "\<not> desync c" and "table_get (table c) ch = Some s"
    and "slot_remote s \<noteq> None" and "\<not> is_closed s" and "policy_ack (policy s) = Delayed"
    and "int (length payload) \<le> send_budget s" and "send_budget s < 2 ^ 63" and "neg_max_payload (conn_neg c) \<le> MAX_PAYLOAD"
  shows "\<exists>c' s'. write_channel io ch payload c = Some (Ok (), c') \<and> table_get (table c') ch = Some s' \<and>
    send_budget s' = send_budget s - int (length payload)"
proof (cases "payload = []")
  case True
  then show ?thesis using assms(3,4) by (auto simp: write_channel_def check_desync_def)
next
  case False
  obtain t' where "write_loop io ch payload c = Some (Ok (), c\<lparr>transport := t',
      table := table_put ch (s\<lparr>send_budget := send_budget s - int (length payload)\<rparr>) (table c)\<rparr>)"
    using live_wire.write_loop_live [OF assms] by blast
  then show ?thesis
    using False assms(3) table_get_put [OF assms(4)] table_get_Some(3) [OF assms(4)] by (simp add: write_channel_def check_desync_def)
qed

theorem write_channel_completes_witness:
  "\<exists>c' s'. write_channel mock_io sample_handle [5, 6, 7] (sample_conn mock_new) = Some (Ok (), c') \<and>
     table_get (table c') sample_handle = Some s' \<and> send_budget s' = 61"
  using write_channel_completes [OF mock_wire.live_wire_axioms, of "sample_conn mock_new" sample_handle sample_slot "[5, 6, 7]"]
  by (simp add: healthy_def mock_new_def is_closed_def policy_of_def sample_neg_def MAX_PAYLOAD_def)

end
