(* ===== verification/Procedures.thy ===== *)
theory Procedures
  imports Looping
begin

text \<open>
  The services above a connection are written as procedures: functions on a state that
  return an outcome and the next state, or nothing when a wait inside them never ends.  This
  theory has their control flow -- \<open>?\<close>, \<open>.await\<close> and \<open>loop\<close> over calls that may wait -- and a
  calculus of total correctness for them: \<open>ends m s Q\<close> says that \<open>m\<close> returns from \<open>s\<close>, and
  what \<open>Q\<close> says about how.
\<close>

type_synonym ('s, 'e, 'a) proc = "'s \<Rightarrow> (('e, 'a) outcome \<times> 's) option"

section \<open>Control flow\<close>

definition ret :: "'a \<Rightarrow> ('s, 'e, 'a) proc" where
  "ret a s = Some (Ok a, s)"

definition raise :: "'e error \<Rightarrow> ('s, 'e, 'a) proc" where
  "raise e s = Some (Err e, s)"

definition of_result :: "'e error + 'a \<Rightarrow> ('s, 'e, 'a) proc" where
  "of_result r s = (case r of Inl e \<Rightarrow> Some (Err e, s) | Inr a \<Rightarrow> Some (Ok a, s))"

text \<open>\<open>m?; f\<close>.\<close>

definition then_do :: "('s, 'e, 'a) proc \<Rightarrow> ('a \<Rightarrow> ('s, 'e, 'b) proc) \<Rightarrow> ('s, 'e, 'b) proc" where
  "then_do m f s = Option.bind (m s) (\<lambda>r. loop_then r f)"

text \<open>\<open>m.await; f\<close>, where an error is a value; a dropped future and a panic are not.\<close>

definition await_do :: "('s, 'e, 'a) proc \<Rightarrow> ('e error + 'a \<Rightarrow> ('s, 'e, 'b) proc) \<Rightarrow> ('s, 'e, 'b) proc" where
  "await_do m f s = Option.bind (m s) (\<lambda>(r, s'). case r of
      Ok a \<Rightarrow> f (Inr a) s'
    | Err e \<Rightarrow> f (Inl e) s'
    | Cancelled \<Rightarrow> Some (Cancelled, s')
    | Panicked \<Rightarrow> Some (Panicked, s'))"

text \<open>
  A loop whose body may wait.  A round that returns \<open>Ok (Inl x)\<close> goes round again with the state
  and the accumulator \<open>x\<close> it left; \<open>Ok (Inr a)\<close> is \<open>break\<close>, an error leaves the procedure.
\<close>

partial_function (option) repeat_do :: "('x \<Rightarrow> ('s, 'e, 'x + 'a) proc) \<Rightarrow> 'x \<Rightarrow> ('s, 'e, 'a) proc" where
  "repeat_do body x s = Option.bind (body x s) (\<lambda>r. loop_then r (\<lambda>next s'. case next of
      Inl x' \<Rightarrow> repeat_do body x' s'
    | Inr a \<Rightarrow> Some (Ok a, s')))"

text \<open>A call on a part of the state.\<close>

definition on_part :: "('s \<Rightarrow> 'p) \<Rightarrow> ('p \<Rightarrow> 's \<Rightarrow> 's) \<Rightarrow> ('p, 'e, 'a) proc \<Rightarrow> ('s, 'e, 'a) proc" where
  "on_part get put m s = map_option (\<lambda>(r, p). (r, put p s)) (m (get s))"

lemmas proc_defs = ret_def raise_def of_result_def then_do_def await_do_def on_part_def

section \<open>Total correctness\<close>

definition ends :: "('s, 'e, 'a) proc \<Rightarrow> 's \<Rightarrow> (('e, 'a) outcome \<Rightarrow> 's \<Rightarrow> bool) \<Rightarrow> bool" where
  "ends m s Q \<longleftrightarrow> (\<exists>r s'. m s = Some (r, s') \<and> Q r s')"

text \<open>It returns a value, and the value and the state satisfy \<open>Q\<close>.\<close>

abbreviation succeeds :: "('s, 'e, 'a) proc \<Rightarrow> 's \<Rightarrow> ('a \<Rightarrow> 's \<Rightarrow> bool) \<Rightarrow> bool" where
  "succeeds m s Q \<equiv> ends m s (\<lambda>r s'. \<exists>a. r = Ok a \<and> Q a s')"

named_theorems ends_rules

lemma ends_mono: "ends m s Q \<Longrightarrow> (\<And>r s'. Q r s' \<Longrightarrow> Q' r s') \<Longrightarrow> ends m s Q'"
  by (auto simp: ends_def)

lemma succeeds_mono: "succeeds m s Q \<Longrightarrow> (\<And>a s'. Q a s' \<Longrightarrow> Q' a s') \<Longrightarrow> succeeds m s Q'"
  by (auto simp: ends_def)

lemma ends_at: "m s = m' s' \<Longrightarrow> ends m' s' Q \<Longrightarrow> ends m s Q"
  by (simp add: ends_def)

lemma ends_ret [ends_rules]: "ends (ret a) s Q \<longleftrightarrow> Q (Ok a) s"
  by (simp add: ends_def ret_def)

lemma ends_raise [ends_rules]: "ends (raise e) s Q \<longleftrightarrow> Q (Err e) s"
  by (simp add: ends_def raise_def)

lemma ends_of_result [ends_rules]: "ends (of_result r) s Q \<longleftrightarrow> (case r of Inl e \<Rightarrow> Q (Err e) s | Inr a \<Rightarrow> Q (Ok a) s)"
  by (simp add: ends_def of_result_def split: sum.split)

lemma ends_then:
  assumes "succeeds m s (\<lambda>a s'. ends (f a) s' Q)"
  shows "ends (then_do m f) s Q"
  using assms by (auto simp: ends_def then_do_def loop_then_def)

lemma ends_seq:
  assumes "succeeds m s P" and "\<And>a s'. P a s' \<Longrightarrow> ends (f a) s' Q"
  shows "ends (then_do m f) s Q"
  using assms by (intro ends_then) (auto simp: ends_def)

lemma ends_then_error:
  assumes "ends m s (\<lambda>r s'. \<exists>e. r = Err e \<and> Q (Err e) s')"
  shows "ends (then_do m f) s Q"
  using assms by (auto simp: ends_def then_do_def loop_then_def)

lemma ends_await:
  assumes "ends m s (\<lambda>r s'. (\<exists>a. r = Ok a \<and> ends (f (Inr a)) s' Q) \<or> (\<exists>e. r = Err e \<and> ends (f (Inl e)) s' Q))"
  shows "ends (await_do m f) s Q"
  using assms by (auto simp: ends_def await_do_def)

lemma ends_on_part:
  assumes "ends m (get s) (\<lambda>r p. Q r (put p s))"
  shows "ends (on_part get put m) s Q"
  using assms by (auto simp: ends_def on_part_def)

text \<open>
  A loop ends if every round does and every round that goes round again lowers a measure;
  what holds of the last round holds of the loop.
\<close>

lemma ends_repeat:
  assumes "I x s"
    and "\<And>x s. I x s \<Longrightarrow> ends (body x) s (\<lambda>r s'. (\<exists>x'. r = Ok (Inl x') \<and> I x' s' \<and> m x' s' < (m x s :: nat)) \<or>
      (\<exists>a. r = Ok (Inr a) \<and> Q (Ok a) s') \<or> (\<exists>e. r = Err e \<and> Q (Err e) s'))"
  shows "ends (repeat_do body x) s Q"
  using assms(1)
proof (induction "m x s" arbitrary: x s rule: less_induct)
  case less
  obtain r s' where r: "body x s = Some (r, s')" "(\<exists>x'. r = Ok (Inl x') \<and> I x' s' \<and> m x' s' < m x s) \<or>
      (\<exists>a. r = Ok (Inr a) \<and> Q (Ok a) s') \<or> (\<exists>e. r = Err e \<and> Q (Err e) s')"
    using assms(2) [OF less.prems] unfolding ends_def by blast
  from r(2) show ?case
  proof (elim disjE exE conjE)
    fix x'
    assume x': "r = Ok (Inl x')" "I x' s'" "m x' s' < m x s"
    then have "ends (repeat_do body x') s' Q" using less.hyps [of x' s'] by simp
    then show ?thesis using r(1) x'(1) by (auto simp: ends_def repeat_do.simps [of body x s])
  qed (use r(1) in \<open>simp_all add: ends_def repeat_do.simps [of body x s] loop_then_def\<close>)
qed

text \<open>One round at a time, for a loop over a list.\<close>

lemma ends_repeat_step:
  assumes "succeeds (body x) s (\<lambda>r s'. case r of Inl x' \<Rightarrow> ends (repeat_do body x') s' Q | Inr a \<Rightarrow> Q (Ok a) s')"
  shows "ends (repeat_do body x) s Q"
  using assms by (subst (asm) ends_def, elim exE conjE) (simp add: ends_def repeat_do.simps [of body x s] split: sum.splits)

lemma ends_seq_error:
  assumes "ends m s (\<lambda>r s'. r = Err e \<and> P s')" and "\<And>s'. P s' \<Longrightarrow> Q (Err e) s'"
  shows "ends (then_do m f) s Q"
  using assms by (auto simp: ends_def then_do_def loop_then_def)

lemma ends_repeat_error:
  assumes "ends (body x) s (\<lambda>r s'. r = Err e \<and> P s')" and "\<And>s'. P s' \<Longrightarrow> Q (Err e) s'"
  shows "ends (repeat_do body x) s Q"
  using assms by (auto simp: ends_def repeat_do.simps [of body x s] loop_then_def)

lemma then_do_cases:
  assumes "then_do m f s = Some (r, s')"
  shows "(\<exists>a s1. m s = Some (Ok a, s1) \<and> f a s1 = Some (r, s')) \<or> (\<exists>q. m s = Some (q, s') \<and> (\<forall>a. q \<noteq> Ok a) \<and> (\<forall>a. r \<noteq> Ok a))"
proof -
  obtain q s1 where q: "m s = Some (q, s1)" "loop_then (q, s1) f = Some (r, s')" using assms by (auto simp: then_do_def bind_eq_Some_conv)
  then show ?thesis by (cases q) (auto simp: loop_then_def)
qed

text \<open>Induction over the rounds of a loop that returned.\<close>

lemma repeat_do_returns [consumes 1, case_names step]:
  assumes "repeat_do body x s = Some y"
    and "\<And>f body x s y. (\<And>body x s y. f body x s = Some y \<Longrightarrow> P body x s y) \<Longrightarrow>
      Option.bind (body x s) (\<lambda>r. loop_then r (\<lambda>next s'. case next of Inl x' \<Rightarrow> f body x' s' | Inr a \<Rightarrow> Some (Ok a, s'))) = Some y \<Longrightarrow>
      P body x s y"
  shows "P body x s y"
  by (rule repeat_do.raw_induct [of P "((body, x), s)" y, unfolded prod.case, OF assms(2) assms(1)])

lemma repeat_do_keeps:
  assumes "repeat_do body x s = Some y" and "I s" and "\<And>x s r s'. I s \<Longrightarrow> body x s = Some (r, s') \<Longrightarrow> I s'"
  shows "I (snd y)"
proof -
  have main: "repeat_do body x s = Some y \<Longrightarrow> I s \<Longrightarrow> (\<And>x s r s'. I s \<Longrightarrow> body x s = Some (r, s') \<Longrightarrow> I s') \<Longrightarrow> I (snd y)"
  proof (induction rule: repeat_do_returns)
    case (step f body x s y)
    obtain q where q: "body x s = Some q" "loop_then q (\<lambda>next s'. case next of Inl x' \<Rightarrow> f body x' s' | Inr a \<Rightarrow> Some (Ok a, s')) = Some y"
      using step.hyps by (auto simp: bind_eq_Some_conv)
    have I: "I (snd q)" using step.prems(2) [OF step.prems(1), of x "fst q" "snd q"] q(1) by simp
    from q(2) show ?case
    proof (rule loop_then_keeps, goal_cases)
      case 1
      show ?case by (rule I)
    next
      case (2 a s1)
      show ?case
      proof (cases a)
        case (Inl x')
        then have "f body x' s1 = Some y" using 2(3) by simp
        from step.IH [OF this 2(2) step.prems(2)] show ?thesis .
      qed (use 2(2,3) in auto)
    qed
  qed
  show ?thesis by (rule main [OF assms(1,2)]) (rule assms(3))
qed

end
