(* ===== verification/Session.thy ===== *)
theory Session
  imports Connection_Props Procedures
begin

text \<open>
  What the services open their channels on (\<open>base/session.rs\<close>), a channel of it
  (\<open>base/channel.rs\<close>) with the reads to its end, and the connection as a session.  The
  contract the services rely on is the locale \<open>channel_stream\<close>; the connection over a
  transport that works keeps it.
\<close>

section \<open>Sessions and channels\<close>

text \<open>
  The operations of the trait.  What an interrupt is is up to the session (\<open>'i\<close>); its value
  plays no part.
\<close>

record ('s, 'e, 'i) session_ops =
  s_advertises :: "'s \<Rightarrow> feature \<Rightarrow> bool"
  s_open :: "bytes \<Rightarrow> ('s, 'e, channel_id) proc"
  s_read :: "channel_id \<Rightarrow> usize \<Rightarrow> ('s, 'e, bytes) proc"
  s_write :: "channel_id \<Rightarrow> bytes \<Rightarrow> ('s, 'e, unit) proc"
  s_select :: "'i \<Rightarrow> channel_id \<Rightarrow> usize \<Rightarrow> ('s, 'e, unit select_result) proc"
  s_close :: "channel_id \<Rightarrow> ('s, 'e, unit) proc"

definition session_require :: "('s, 'e, 'i) session_ops \<Rightarrow> feature \<Rightarrow> ('s, 'e, unit) proc" where
  "session_require S f s = (if s_advertises S s f then ret () s else raise (MissingFeature f) s)"

text \<open>A channel borrows its session; the model keeps them together.\<close>

record 's channel =
  chan_session :: 's
  chan_id :: channel_id

definition session_open :: "('s, 'e, 'i) session_ops \<Rightarrow> bytes \<Rightarrow> 's \<Rightarrow> (('e, 's channel) outcome \<times> 's) option" where
  "session_open S destination = then_do (s_open S destination)
     (\<lambda>i s. ret \<lparr>chan_session = s, chan_id = i\<rparr> s)"

abbreviation on_session :: "('s, 'e, 'a) proc \<Rightarrow> ('s channel, 'e, 'a) proc" where
  "on_session m \<equiv> on_part chan_session (\<lambda>s c. c\<lparr>chan_session := s\<rparr>) m"

definition channel_read :: "('s, 'e, 'i) session_ops \<Rightarrow> usize \<Rightarrow> ('s channel, 'e, bytes) proc" where
  "channel_read S len c = on_session (s_read S (chan_id c) len) c"

definition channel_write :: "('s, 'e, 'i) session_ops \<Rightarrow> bytes \<Rightarrow> ('s channel, 'e, unit) proc" where
  "channel_write S payload c = on_session (s_write S (chan_id c) payload) c"

definition channel_select :: "('s, 'e, 'i) session_ops \<Rightarrow> 'i \<Rightarrow> usize \<Rightarrow> ('s channel, 'e, unit select_result) proc" where
  "channel_select S interrupt len c = on_session (s_select S interrupt (chan_id c) len) c"

definition channel_close :: "('s, 'e, 'i) session_ops \<Rightarrow> ('s channel, 'e, unit) proc" where
  "channel_close S c = on_session (s_close S (chan_id c)) c"

subsection \<open>Reading a channel to its end\<close>

text \<open>
  \<open>let _ = self.close().await; read\<close>: whatever the reads gave is returned once the channel
  was closed, best effort.
\<close>

definition close_after :: "('s, 'e, unit) proc \<Rightarrow> ('s, 'e, 'a) proc \<Rightarrow> ('s, 'e, 'a) proc" where
  "close_after close reading = await_do reading (\<lambda>r. await_do close (\<lambda>_. of_result r))"

text \<open>The bytes read so far are \<open>buf[..tail]\<close>; \<open>cap\<close> is the size of the buffer.\<close>

definition read_to_end_round :: "('s, 'e, 'i) session_ops \<Rightarrow> usize \<Rightarrow> bytes \<Rightarrow> ('s channel, 'e, bytes + bytes) proc" where
  "read_to_end_round S cap out =
     (let full = length out = cap in
      await_do (channel_read S (if full then 1 else cap - length out)) (\<lambda>r. case r of
          Inr d \<Rightarrow> if full \<and> length d > 0 then raise ReceiveBufferFull else ret (Inl (out @ d))
        | Inl e \<Rightarrow> (case e of ChannelClosed \<Rightarrow> ret (Inr out) | _ \<Rightarrow> raise e)))"

definition read_to_end :: "('s, 'e, 'i) session_ops \<Rightarrow> usize \<Rightarrow> ('s channel, 'e, bytes) proc" where
  "read_to_end S cap = close_after (channel_close S) (repeat_do (read_to_end_round S cap) [])"

text \<open>\<open>Err(Capped)\<close> inside the result is \<open>None\<close>.\<close>

definition read_to_vec_round :: "('s, 'e, 'i) session_ops \<Rightarrow> usize \<Rightarrow> usize \<Rightarrow> bytes \<Rightarrow> ('s channel, 'e, bytes + bytes option) proc" where
  "read_to_vec_round S rx cap out =
     await_do (channel_read S rx) (\<lambda>r. case r of
         Inr d \<Rightarrow> if length d > cap - length out then ret (Inr None) else ret (Inl (out @ d))
       | Inl e \<Rightarrow> (case e of ChannelClosed \<Rightarrow> ret (Inr (Some out)) | _ \<Rightarrow> raise e))"

definition read_to_vec :: "('s, 'e, 'i) session_ops \<Rightarrow> usize \<Rightarrow> usize \<Rightarrow> ('s channel, 'e, bytes option) proc" where
  "read_to_vec S rx cap = close_after (channel_close S) (repeat_do (read_to_vec_round S rx cap) [])"

subsection \<open>The connection as a session\<close>

definition conn_session :: "('t, 'e) transport_ops \<Rightarrow> ('t connection, 'e, 't \<Rightarrow> unit option) session_ops" where
  "conn_session io = \<lparr>
     s_advertises = (\<lambda>c. advertises (conn_neg c)),
     s_open = open_channel io,
     s_read = read_channel io,
     s_write = write_channel io,
     s_select = select_channel io,
     s_close = (\<lambda>ch c. Some (close_channel io ch c))\<rparr>"

section \<open>The contract of a channel\<close>

text \<open>
  \<open>streams bs s\<close>: from \<open>s\<close> on the channel delivers exactly \<open>bs\<close> and then ends.  A read hands
  over the next bytes, or reports the end once there are none; what is left to receive
  shrinks with every read.  With credit for it, a write goes through and does not disturb
  what is to be read.
\<close>

locale channel_stream =
  fixes S :: "('s, 'e, 'i) session_ops" and ch :: channel_id and streams :: "bytes \<Rightarrow> 's \<Rightarrow> bool"
    and remaining :: "'s \<Rightarrow> nat" and credit :: "'s \<Rightarrow> nat"
  assumes read_stream: "streams bs s \<Longrightarrow> 0 < len \<Longrightarrow> ends (s_read S ch len) s (\<lambda>r s'.
      (\<exists>d rest. r = Ok d \<and> bs = d @ rest \<and> streams rest s' \<and> length d \<le> len \<and>
         remaining s' + length d \<le> remaining s \<and> remaining s' < remaining s) \<or>
      r = Err ChannelClosed \<and> bs = [] \<and> streams [] s')"
    and write_stream: "streams bs s \<Longrightarrow> length d \<le> credit s \<Longrightarrow> succeeds (s_write S ch d) s
      (\<lambda>_ s'. streams bs s' \<and> remaining s' = remaining s \<and> credit s' + length d = credit s)"
    and close_stream: "streams bs s \<Longrightarrow> succeeds (s_close S ch) s (\<lambda>_ _. True)"
begin

text \<open>The channel itself, over a session that streams.\<close>

abbreviation chan :: "'s \<Rightarrow> 's channel" where
  "chan s \<equiv> \<lparr>chan_session = s, chan_id = ch\<rparr>"

lemma read_channel_stream:
  assumes "streams bs s" and "0 < len"
  shows "ends (channel_read S len) (chan s) (\<lambda>r c.
    (\<exists>d rest s'. c = chan s' \<and> r = Ok d \<and> bs = d @ rest \<and> streams rest s' \<and> length d \<le> len \<and>
       remaining s' + length d \<le> remaining s \<and> remaining s' < remaining s) \<or>
    (\<exists>s'. c = chan s' \<and> r = Err ChannelClosed \<and> bs = [] \<and> streams [] s'))"
  using read_stream [OF assms] by (auto simp: channel_read_def ends_def on_part_def)

lemma close_channel_stream:
  assumes "streams bs s"
  shows "succeeds (channel_close S) (chan s) (\<lambda>_ _. True)"
  using close_stream [OF assms] by (auto simp: channel_close_def ends_def on_part_def)

lemma write_channel_stream:
  assumes "streams bs s" and "length d \<le> credit s"
  shows "succeeds (channel_write S d) (chan s)
    (\<lambda>_ c. \<exists>s'. c = chan s' \<and> streams bs s' \<and> remaining s' = remaining s \<and> credit s' + length d = credit s)"
  using write_stream [OF assms] by (auto simp: channel_write_def ends_def on_part_def)

lemma await_read:
  assumes "streams bs s" and "0 < len"
    and "\<And>d rest s'. bs = d @ rest \<Longrightarrow> streams rest s' \<Longrightarrow> length d \<le> len \<Longrightarrow> remaining s' + length d \<le> remaining s \<Longrightarrow>
      remaining s' < remaining s \<Longrightarrow> ends (f (Inr d)) (chan s') Q"
    and "\<And>s'. bs = [] \<Longrightarrow> streams [] s' \<Longrightarrow> ends (f (Inl ChannelClosed)) (chan s') Q"
  shows "ends (await_do (channel_read S len) f) (chan s) Q"
  by (rule ends_await, rule ends_mono [OF read_channel_stream [OF assms(1,2)]]) (use assms(3,4) in blast)

text \<open>Reads, then the close: the result is that of the reads.\<close>

lemma close_after_ends:
  assumes "ends m c (\<lambda>r c'. (\<exists>bs s'. c' = chan s' \<and> streams bs s') \<and> ((\<exists>a. r = Ok a) \<or> (\<exists>e. r = Err e)) \<and> Q r)"
  shows "ends (close_after (channel_close S) m) c (\<lambda>r _. Q r)"
  unfolding close_after_def
proof (rule ends_await, rule ends_mono [OF assms], elim conjE exE)
  fix r bs and c' :: "'s channel" and s'
  assume q: "(\<exists>a. r = Ok a) \<or> (\<exists>e. r = Err e)" "Q r" and c': "c' = chan s'" "streams bs s'"
  have close: "ends (await_do (channel_close S) (\<lambda>_. of_result x)) c' (\<lambda>r _. Q r)"
    if "case x of Inl e \<Rightarrow> Q (Err e) | Inr a \<Rightarrow> Q (Ok a)" for x
    unfolding c'(1) using that
    by (intro ends_await ends_mono [OF close_channel_stream [OF c'(2)]]) (auto simp: ends_rules)
  show "(\<exists>a. r = Ok a \<and> ends (await_do (channel_close S) (\<lambda>_. of_result (Inr a))) c' (\<lambda>r _. Q r)) \<or>
      (\<exists>e. r = Err e \<and> ends (await_do (channel_close S) (\<lambda>_. of_result (Inl e))) c' (\<lambda>r _. Q r))"
    using q close by auto
qed

lemma read_to_end_stream:
  assumes "streams bs s"
  shows "ends (read_to_end S cap) (chan s) (\<lambda>r _. r = (if length bs \<le> cap then Ok bs else Err ReceiveBufferFull))"
  unfolding read_to_end_def
proof (rule close_after_ends, rule ends_repeat)
  let ?I = "\<lambda>out c. \<exists>rest s'. c = chan s' \<and> streams rest s' \<and> bs = out @ rest \<and> length out \<le> cap"
  show "?I [] (chan s)" using assms by auto
  fix out c
  assume "?I out c"
  then obtain rest s' where c: "c = chan s'" "streams rest s'" "bs = out @ rest" "length out \<le> cap" by blast
  have pos: "0 < (if length out = cap then 1 else cap - length out)" using c(4) by auto
  show "ends (read_to_end_round S cap out) c (\<lambda>r c'.
      (\<exists>x'. r = Ok (Inl x') \<and> ?I x' c' \<and> remaining (chan_session c') < remaining (chan_session c)) \<or>
      (\<exists>a. r = Ok (Inr a) \<and> (\<exists>bs s'. c' = chan s' \<and> streams bs s') \<and> ((\<exists>a'. Ok a = Ok a') \<or> (\<exists>e. Ok a = Err e)) \<and>
         Ok a = (if length bs \<le> cap then Ok bs else Err ReceiveBufferFull)) \<or>
      (\<exists>e. r = Err e \<and> (\<exists>bs s'. c' = chan s' \<and> streams bs s') \<and> ((\<exists>a. Err e = Ok a) \<or> (\<exists>e'. Err e = Err e')) \<and>
         Err e = (if length bs \<le> cap then Ok bs else Err ReceiveBufferFull)))"
    unfolding read_to_end_round_def Let_def c(1)
    by (rule await_read [OF c(2) pos]) (use c(3,4) in \<open>auto simp: ends_rules\<close>)
qed

lemma read_to_vec_stream:
  assumes "streams bs s" and "0 < rx"
  shows "ends (read_to_vec S rx cap) (chan s) (\<lambda>r _. r = Ok (if length bs \<le> cap then Some bs else None))"
  unfolding read_to_vec_def
proof (rule close_after_ends, rule ends_repeat)
  let ?I = "\<lambda>out c. \<exists>rest s'. c = chan s' \<and> streams rest s' \<and> bs = out @ rest \<and> length out \<le> cap"
  show "?I [] (chan s)" using assms by auto
  fix out c
  assume "?I out c"
  then obtain rest s' where c: "c = chan s'" "streams rest s'" "bs = out @ rest" "length out \<le> cap" by blast
  show "ends (read_to_vec_round S rx cap out) c (\<lambda>r c'.
      (\<exists>x'. r = Ok (Inl x') \<and> ?I x' c' \<and> remaining (chan_session c') < remaining (chan_session c)) \<or>
      (\<exists>a. r = Ok (Inr a) \<and> (\<exists>bs s'. c' = chan s' \<and> streams bs s') \<and> ((\<exists>a'. Ok a = Ok a') \<or> (\<exists>e. Ok a = Err e)) \<and>
         Ok a = Ok (if length bs \<le> cap then Some bs else None)) \<or>
      (\<exists>e. r = Err e \<and> (\<exists>bs s'. c' = chan s' \<and> streams bs s') \<and> ((\<exists>a. Err e = Ok a) \<or> (\<exists>e'. Err e = Err e')) \<and>
         Err e = Ok (if length bs \<le> cap then Some bs else None)))"
    unfolding read_to_vec_round_def c(1)
    by (rule await_read [OF c(2) assms(2)]) (use c(3,4) in \<open>auto simp: ends_rules\<close>)
qed

end

section \<open>The connection keeps the contract\<close>

text \<open>
  Bytes from the device that carry \<open>bs\<close> on one channel and then close it: writes to the
  channel, each within the size the connection receives, then its close; anything may follow.
\<close>

inductive carries :: "channel_id \<Rightarrow> channel_ids \<Rightarrow> u32 \<Rightarrow> bytes \<Rightarrow> bytes \<Rightarrow> bool" for ch ids limit where
  carries_close: "encode p cs = Inr w \<Longrightarrow> command p = Close \<Longrightarrow> closed_by ids p \<Longrightarrow> length (data p) \<le> unat limit \<Longrightarrow>
    carries ch ids limit (w @ rest) []"
| carries_data: "encode p cs = Inr w \<Longrightarrow> mine ch p \<Longrightarrow> length (data p) \<le> unat limit \<Longrightarrow> carries ch ids limit rest bs \<Longrightarrow>
    carries ch ids limit (w @ rest) (data p @ bs)"

text \<open>
  The connection is in step over a transport that works, and the channel has \<open>bs\<close> to deliver
  before its end, no more than its buffer may hold.
\<close>

definition slot_streams :: "bool \<Rightarrow> channel_ids \<Rightarrow> bytes \<Rightarrow> channel_slot \<Rightarrow> bool" where
  "slot_streams closed ids bs s \<longleftrightarrow> slot_ids s = Some ids \<and> failed s = None \<and> is_closed s = closed \<and>
     settled s \<le> length (rx_buf s) \<and> send_budget s < 2 ^ 63 \<and> length bs \<le> policy_cap (policy s)"

definition conn_streams :: "('t \<Rightarrow> bytes) \<Rightarrow> ('t \<Rightarrow> bool) \<Rightarrow> channel_id \<Rightarrow> bytes \<Rightarrow> 't connection \<Rightarrow> bool" where
  "conn_streams inp alive ch bs c \<longleftrightarrow> alive (transport c) \<and> \<not> desync c \<and> lone ch (table c) \<and>
     neg_max_payload (conn_neg c) \<le> MAX_PAYLOAD \<and>
     (\<exists>s ids closed later. table_get (table c) ch = Some s \<and> slot_streams closed ids bs s \<and> bs = rx_buf s @ later \<and>
        (if closed then later = [] else carries ch ids (inbound_limit c) (backlog inp c) later))"

definition conn_remaining :: "('t \<Rightarrow> bytes) \<Rightarrow> channel_id \<Rightarrow> 't connection \<Rightarrow> nat" where
  "conn_remaining inp ch c = length (backlog inp c) + (case table_get (table c) ch of Some s \<Rightarrow> length (rx_buf s) | None \<Rightarrow> 0)"

definition conn_credit :: "channel_id \<Rightarrow> 't connection \<Rightarrow> nat" where
  "conn_credit ch c = (case table_get (table c) ch of
      Some s \<Rightarrow> if is_closed s \<or> policy_ack (policy s) \<noteq> Delayed then 0 else nat (send_budget s)
    | None \<Rightarrow> 0)"

text \<open>What reading never changes in a slot.\<close>

definition kin :: "channel_slot \<Rightarrow> channel_slot \<Rightarrow> bool" where
  "kin s s' \<longleftrightarrow> slot_local s' = slot_local s \<and> slot_remote s' = slot_remote s \<and> failed s' = failed s \<and>
     slot_state s' = slot_state s \<and> policy s' = policy s \<and> send_budget s' = send_budget s \<and> settled s' \<le> length (rx_buf s')"

lemma kin_trans: "kin s s1 \<Longrightarrow> kin s1 s2 \<Longrightarrow> kin s s2"
  by (simp add: kin_def)

lemma kin_streams: "kin s s' \<Longrightarrow> slot_streams closed ids bs s \<Longrightarrow> length bs' \<le> length bs \<Longrightarrow> slot_streams closed ids bs' s'"
  by (auto simp: kin_def slot_streams_def slot_ids_def is_closed_def)

lemma settle_kin:
  assumes "settle_take len s = (ack, s1)" and "settled s \<le> length (rx_buf s)"
  shows "kin s s1" and "rx_buf s1 = rx_buf s"
  using assms by (auto simp: settle_take_def kin_def Let_def split: option.splits if_splits)

lemma deliver_kin:
  assumes "deliver n s = (ack, s1)" and "settled s \<le> length (rx_buf s)"
  shows "kin s s1" and "rx_buf s1 = rx_buf s"
  using assms by (auto simp: deliver_def kin_def split: option.splits if_splits)

lemma write_kin:
  assumes "slot_streams False ids bs s" and "rx_buf s = []" and "length p \<le> length bs"
  obtains d s1 where "apply_write p s = Some (d, s1)" and "kin s s1" and "rx_buf s1 = p"
proof -
  have "saturating_add (held s) (length p) \<le> policy_cap (policy s)"
    using assms by (auto simp: slot_streams_def held_def saturating_add_def)
  then have "push_rx p s = Some (s\<lparr>rx_buf := p\<rparr>)" using assms(2) by (simp add: push_rx_def)
  then have "apply_write p s \<noteq> None" by (simp add: apply_write_def Let_def split: option.split)
  then obtain d s1 where w: "apply_write p s = Some (d, s1)" by auto
  then have "kin s s1" "rx_buf s1 = p"
    using assms(1,2) by (auto simp: apply_write_def push_rx_def kin_def slot_streams_def Let_def split: if_splits option.splits)
  then show thesis using that w by blast
qed

lemma take_kin:
  assumes "slot_ids s = Some ids" and "failed s = None" and "settled s \<le> length (rx_buf s)" and "0 < len"
  obtains r :: "'e error + bytes option" and s1 where "take_buffered len s = (r, s1)" and "kin s s1"
    and "if rx_buf s = [] then rx_buf s1 = [] \<and> r = (if is_closed s then Inl ChannelClosed else Inr None)
      else \<exists>d. r = Inr (Some d) \<and> d \<noteq> [] \<and> length d \<le> len \<and> rx_buf s = d @ rx_buf s1"
proof -
  define n where "n = min len (if settled s = 0 then length (rx_buf s) else settled s)"
  have data: "has_data s \<longleftrightarrow> rx_buf s \<noteq> []" using assms(1) by (auto simp: has_data_def slot_ids_def)
  show thesis
  proof (cases "rx_buf s = []")
    case True
    then have "take_buffered len s = (if is_closed s then Inl (ChannelClosed :: 'e error) else Inr None, s)" "kin s s"
      using assms(2,3) data by (simp_all add: take_buffered_def closed_error_def kin_def)
    then show thesis using that True by simp
  next
    case False
    define s1 where "s1 = s\<lparr>rx_buf := drop n (rx_buf s), settled := settled s - min n (settled s)\<rparr>"
    have n: "0 < n" "n \<le> length (rx_buf s)" "n \<le> len" "settled s - min n (settled s) \<le> length (rx_buf s) - n"
      using False assms(3,4) by (auto simp: n_def)
    have "take_buffered len s = (Inr (Some (take n (rx_buf s))) :: 'e error + bytes option, s1)"
      using False data by (simp add: take_buffered_def Let_def n_def s1_def)
    moreover have "kin s s1" using n(4) by (simp add: s1_def kin_def)
    moreover have "take n (rx_buf s) \<noteq> [] \<and> length (take n (rx_buf s)) \<le> len \<and> rx_buf s = take n (rx_buf s) @ rx_buf s1"
      using n(1-3) False by (simp add: s1_def)
    ultimately show thesis using that False by auto
  qed
qed

lemma put_put:
  assumes "table_get t ch = Some s" and "slot_local s1 = slot_local s"
  shows "table_put ch s2 (table_put ch s1 t) = table_put ch s2 t"
  using table_put_slots(3) [OF assms(1)] table_get_put [OF assms(1), of s1] table_get_Some(3) [OF assms(1)] assms(2)
  by (simp add: table_put_def)

lemma kin_get:
  assumes "table_get t ch = Some s" and "kin s s'"
  shows "table_get (table_put ch s' t) ch = Some s'" and "lone ch (table_put ch s' t) = lone ch t"
  using table_get_put [OF assms(1), of s'] table_get_Some(3) [OF assms(1)] put_layout [OF assms(1), of s'] assms(2)
  by (simp_all add: kin_def lone_def)

context live_wire
begin

lemma okay_live:
  assumes "alive (transport c)" and "\<not> desync c"
  shows "\<exists>t'. okay_if io ack c = (Ok (), c\<lparr>transport := t'\<rparr>) \<and> alive t' \<and> inp t' = inp (transport c)"
proof (cases ack)
  case None
  then show ?thesis using assms by (auto simp: okay_if_def intro!: exI [of _ "transport c"])
next
  case (Some a)
  have "length (okay_payload a m) \<le> unat MAX_PAYLOAD" for m by (cases m) (auto simp: okay_payload_def)
  then obtain t' where "send_okay io a c = (Ok (), c\<lparr>transport := t'\<rparr>)" "alive t'" "inp t' = inp (transport c)"
    using send_live [OF assms] unfolding send_okay_def send_okay_to_def send_raw_def by blast
  then show ?thesis using Some by (auto simp: okay_if_def)
qed

lemma take_live:
  assumes "alive (transport c)" and "\<not> desync c" and "table_get (table c) ch = Some s" and "slot_ids s = Some ids"
    and "failed s = None" and "settled s \<le> length (rx_buf s)" and "0 < len"
  obtains r t' s' where "conn_take_buffered io ch len c = (r, c\<lparr>transport := t', table := table_put ch s' (table c)\<rparr>)"
    and "alive t'" and "inp t' = inp (transport c)" and "kin s s'"
    and "if rx_buf s = [] then rx_buf s' = [] \<and> r = (if is_closed s then Err ChannelClosed else Ok None)
      else \<exists>d. r = Ok (Some d) \<and> d \<noteq> [] \<and> length d \<le> len \<and> rx_buf s = d @ rx_buf s'"
proof -
  obtain ack s1 where st: "settle_take len s = (ack, s1)" by (metis prod.exhaust)
  note k1 = settle_kin [OF st assms(6)]
  have get1: "table_get (table_put ch s1 (table c)) ch = Some s1" by (rule kin_get(1) [OF assms(3) k1(1)])
  define c1 where "c1 = c\<lparr>table := table_put ch s1 (table c)\<rparr>"
  obtain t' where t': "okay_if io ack c1 = (Ok (), c1\<lparr>transport := t'\<rparr>)" "alive t'" "inp t' = inp (transport c1)"
    using okay_live [of c1 ack] assms(1,2) by (auto simp: c1_def)
  have s1: "slot_ids s1 = Some ids" "failed s1 = None" "settled s1 \<le> length (rx_buf s1)" "is_closed s1 = is_closed s"
    using k1(1) assms(4,5) by (auto simp: kin_def slot_ids_def is_closed_def)
  obtain u :: "'e error + bytes option" and s2 where tk: "take_buffered len s1 = (u, s2)" "kin s1 s2"
      "if rx_buf s1 = [] then rx_buf s2 = [] \<and> u = (if is_closed s1 then Inl ChannelClosed else Inr None)
       else \<exists>d. u = Inr (Some d) \<and> d \<noteq> [] \<and> length d \<le> len \<and> rx_buf s1 = d @ rx_buf s2"
    by (rule take_kin [OF s1(1-3) assms(7)])
  have "conn_take_buffered io ch len c = take_now ch len (c1\<lparr>transport := t'\<rparr>)"
    using assms(2,3) st t'(1) by (simp add: conn_take_buffered_def check_desync_def c1_def)
  also have "\<dots> = (case u of Inl e \<Rightarrow> Err e | Inr x \<Rightarrow> Ok x, c\<lparr>transport := t', table := table_put ch s2 (table c)\<rparr>)"
    using get1 tk(1) put_put [OF assms(3), of s1 s2] k1(1) by (simp add: take_now_def c1_def kin_def split: sum.split)
  finally show thesis
    using that [OF _ t'(2) _ kin_trans [OF k1(1) tk(2)]] t'(3) tk(3) k1(2) s1(4) by (auto simp: c1_def split: if_splits)
qed

lemma recv_live:
  assumes "alive (transport c)" and "encode p cs = Inr w" and "length (data p) \<le> unat (inbound_limit c)" and "backlog inp c = w @ rest"
  obtains t b where "recv_pkt_or io never True (inbound_limit c) c = (Ok (Packet p), c\<lparr>transport := t, recv_buf := b\<rparr>)"
    and "alive t" and "b @ inp t = rest"
proof -
  obtain c1 where c1: "recv_pkt io (inbound_limit c) c = (Ok p, c1)" "recv_buf c1 @ inp (transport c1) = rest" "alive (transport c1)"
    using recv_pkt_live [OF assms(1-3), of rest] assms(4) by (auto simp: backlog_def)
  have "recv_pkt_or io never True (inbound_limit c) c = (Ok (Packet p), c1)"
    using c1(1) by (auto simp: recv_pkt_def split: prod.splits outcome.splits received.splits)
  moreover obtain t b where "c1 = c\<lparr>transport := t, recv_buf := b\<rparr>"
    using recv_pkt_or_frame [of io never True "inbound_limit c" c] calculation by auto
  ultimately show thesis using that c1(2,3) by simp
qed

end

lemma taken_or_failed_Some: "taken_or_failed (Inr (Some d)) x = Ok (Some d)"
  by (simp add: taken_or_failed_def)

context live_wire
begin

text \<open>After a read the connection differs in its transport, its buffer and the slot of the channel.\<close>

lemma streams_after:
  assumes "conn_streams inp alive ch bs c" and "table_get (table c) ch = Some s" and "slot_streams closed ids bs s"
    and "kin s s'" and "alive t'" and "length bs' \<le> length bs" and "bs' = rx_buf s' @ later"
    and "if closed then later = [] else carries ch ids (inbound_limit c) (b' @ inp t') later"
  shows "conn_streams inp alive ch bs' (c\<lparr>transport := t', recv_buf := b', table := table_put ch s' (table c)\<rparr>)"
proof -
  define c' where "c' = c\<lparr>transport := t', recv_buf := b', table := table_put ch s' (table c)\<rparr>"
  have "alive (transport c')" "\<not> desync c'" "lone ch (table c')" "neg_max_payload (conn_neg c') \<le> MAX_PAYLOAD"
    "table_get (table c') ch = Some s'" "backlog inp c' = b' @ inp t'" "inbound_limit c' = inbound_limit c"
    using assms(1,5) kin_get [OF assms(2,4)] by (simp_all add: c'_def conn_streams_def backlog_def inbound_limit_def)
  then show ?thesis unfolding c'_def [symmetric] conn_streams_def
    using assms(7,8) kin_streams [OF assms(4,3,6)]
    by (intro conjI exI [of _ s'] exI [of _ ids] exI [of _ closed] exI [of _ later]) simp_all
qed

lemma remaining_after:
  assumes "table_get (table c) ch = Some s" and "kin s s'"
  shows "conn_remaining inp ch (c\<lparr>transport := t', recv_buf := b', table := table_put ch s' (table c)\<rparr>)
      = length b' + length (inp t') + length (rx_buf s')"
    and "conn_remaining inp ch c = length (recv_buf c) + length (inp (transport c)) + length (rx_buf s)"
  using kin_get(1) [OF assms] assms(1) by (simp_all add: conn_remaining_def backlog_def)

text \<open>One packet for the channel, straight to the reader or through its buffer.\<close>

lemma direct_live:
  assumes "alive (transport c)" and "\<not> desync c" and "table_get (table c) ch = Some s" and "settled s \<le> length (rx_buf s)"
  obtains t' s' where "deliver_direct io ch payload c = (Ok (Data payload), c\<lparr>transport := t', table := table_put ch s' (table c)\<rparr>)"
    and "alive t'" and "inp t' = inp (transport c)" and "kin s s'" and "rx_buf s' = rx_buf s"
proof -
  obtain ack s1 where d: "deliver (length payload) s = (ack, s1)" by (metis prod.exhaust)
  define c1 where "c1 = c\<lparr>table := table_put ch s1 (table c)\<rparr>"
  obtain t' where t': "okay_if io ack c1 = (Ok (), c1\<lparr>transport := t'\<rparr>)" "alive t'" "inp t' = inp (transport c1)"
    using okay_live [of c1 ack] assms(1,2) by (auto simp: c1_def)
  have "deliver_direct io ch payload c = (Ok (Data payload), c\<lparr>transport := t', table := table_put ch s1 (table c)\<rparr>)"
    using assms(3) d t'(1) by (simp add: deliver_direct_def c1_def)
  then show thesis using that deliver_kin [OF d assms(4)] t'(2,3) by (simp add: c1_def)
qed

lemma buffered_live:
  assumes "alive (transport c)" and "\<not> desync c" and "lone ch (table c)" and "table_get (table c) ch = Some s"
    and "slot_streams False ids bs s" and "rx_buf s = []" and "mine ch p" and "length (data p) \<le> length bs" and "0 < len" and "data p \<noteq> []"
  obtains d t' s' where "dispatch_and_take io ch len p c = (Ok (Some d), c\<lparr>transport := t', table := table_put ch s' (table c)\<rparr>)"
    and "alive t'" and "inp t' = inp (transport c)" and "kin s s'" and "data p = d @ rx_buf s'" and "length d \<le> len"
proof -
  obtain a s1 where w: "apply_write (data p) s = Some (a, s1)" "kin s s1" "rx_buf s1 = data p"
    by (rule write_kin [OF assms(5,6,8)])
  define c1 where "c1 = c\<lparr>table := table_put ch s1 (table c)\<rparr>"
  have "failed s = None" using assms(5) by (simp add: slot_streams_def)
  note m = dispatch_mine [OF assms(3,4) this assms(7)]
  have "\<exists>t1. conn_dispatch io p c = (Ok (), c1\<lparr>transport := t1\<rparr>) \<and> alive t1 \<and> inp t1 = inp (transport c)"
  proof (cases a)
    case (Now x)
    obtain t1 where "okay_if io (Some x) c1 = (Ok (), c1\<lparr>transport := t1\<rparr>)" "alive t1" "inp t1 = inp (transport c1)"
      using okay_live [of c1 "Some x"] assms(1,2) by (auto simp: c1_def)
    moreover have "\<exists>t1. send_okay io x c1 = (Ok (), c1\<lparr>transport := t1\<rparr>) \<and> alive t1 \<and> inp t1 = inp (transport c1)"
      unfolding send_okay_def send_okay_to_def send_raw_def
      by (rule send_live) (use assms(1,2) in \<open>auto simp: c1_def okay_payload_def split: ack_mode.split\<close>)
    ultimately show ?thesis using m w(1) Now table_put_slots(3) [OF assms(4), of s1]
      by (auto simp: conn_dispatch_def act_on_def c1_def)
  next
    case Hold
    then show ?thesis using m w(1) table_put_slots(3) [OF assms(4), of s1] assms(1)
      by (auto simp: conn_dispatch_def act_on_def c1_def intro!: exI [of _ "transport c"])
  qed
  then obtain t1 where t1: "conn_dispatch io p c = (Ok (), c1\<lparr>transport := t1\<rparr>)" "alive t1" "inp t1 = inp (transport c)" by blast
  note get1 = kin_get(1) [OF assms(4) w(2)]
  have s1: "slot_ids s1 = Some ids" "failed s1 = None" "settled s1 \<le> length (rx_buf s1)"
    using w(2) assms(5) by (auto simp: kin_def slot_streams_def slot_ids_def)
  define c2 where "c2 = c1\<lparr>transport := t1\<rparr>"
  have c2: "alive (transport c2)" "\<not> desync c2" "table_get (table c2) ch = Some s1"
    using t1(2) assms(2) get1 by (simp_all add: c2_def c1_def)
  obtain r t' s' where t: "conn_take_buffered io ch len c2 = (r, c2\<lparr>transport := t', table := table_put ch s' (table c2)\<rparr>)"
      "alive t'" "inp t' = inp (transport c2)" "kin s1 s'"
      "if rx_buf s1 = [] then rx_buf s' = [] \<and> r = (if is_closed s1 then Err ChannelClosed else Ok None)
       else \<exists>d. r = Ok (Some d) \<and> d \<noteq> [] \<and> length d \<le> len \<and> rx_buf s1 = d @ rx_buf s'"
    by (rule take_live [OF c2 s1 assms(9)])
  obtain d where d: "r = Ok (Some d)" "length d \<le> len" "data p = d @ rx_buf s'" using t(5) w(3) assms(10) by auto
  have "table_put ch s' (table c1) = table_put ch s' (table c)"
    using put_put [OF assms(4), of s1 s'] w(2) by (simp add: c1_def kin_def)
  then have "c2\<lparr>transport := t', table := table_put ch s' (table c2)\<rparr> = c\<lparr>transport := t', table := table_put ch s' (table c)\<rparr>"
    by (simp add: c2_def c1_def)
  then have "dispatch_and_take io ch len p c = (Ok (Some d), c\<lparr>transport := t', table := table_put ch s' (table c)\<rparr>)"
    using t(1) t1(1) d(1) by (simp add: dispatch_and_take_def taken_or_failed_Some c2_def)
  then show thesis
    using that [OF _ t(2) _ kin_trans [OF w(2) t(4)]] t(3) t1(3) d(2,3) by (simp add: c2_def)
qed

lemma encode_len: "encode p cs = Inr w \<Longrightarrow> length w = 24 + length (data p)"
  by (auto simp: encode_def dest: encode_header_length split: sum.splits)

text \<open>A round with nothing buffered ends with the next bytes of the channel, or with its end.\<close>

lemma round_live:
  assumes "alive (transport c)" and "\<not> desync c" and "lone ch (table c)" and "table_get (table c) ch = Some s"
    and "slot_streams False ids bs s" and "rx_buf s = []" and "carries ch ids (inbound_limit c) (backlog inp c) bs" and "0 < len"
  obtains (data) d t' b' s' later where
      "recv_data_round io never True ch ids len c = (Some (Ok (Data d)), c\<lparr>transport := t', recv_buf := b', table := table_put ch s' (table c)\<rparr>)"
      and "alive t'" and "kin s s'" and "bs = d @ rx_buf s' @ later" and "carries ch ids (inbound_limit c) (b' @ inp t') later" and "length d \<le> len"
      and "length b' + length (inp t') + length (rx_buf s') + length d < length (backlog inp c)"
  | (closed) t' b' where
      "recv_data_round io never True ch ids len c = (Some (Err ChannelClosed), c\<lparr>transport := t', recv_buf := b', table := table_put ch (apply_close s) (table c)\<rparr>)"
      and "alive t'" and "bs = []"
  using assms(7)
proof (cases rule: carries.cases)
  case (carries_close p cs w rest)
  obtain t b where r: "recv_pkt_or io never True (inbound_limit c) c = (Ok (Packet p), c\<lparr>transport := t, recv_buf := b\<rparr>)" "alive t"
    by (rule recv_live [OF assms(1) carries_close(3,6,1)])
  have "recv_data_round io never True ch ids len c = (Some (Err ChannelClosed), c\<lparr>transport := t, recv_buf := b, table := table_put ch (apply_close s) (table c)\<rparr>)"
    using r(1) carries_close(4,5) assms(4) by (simp add: recv_data_round_def close_here_def)
  then show thesis using closed r(2) carries_close(2) by blast
next
  case (carries_data p cs w rest later)
  obtain t b where r: "recv_pkt_or io never True (inbound_limit c) c = (Ok (Packet p), c\<lparr>transport := t, recv_buf := b\<rparr>)" "alive t" "b @ inp t = rest"
    by (rule recv_live [OF assms(1) carries_data(3,5,1)])
  define c1 where "c1 = c\<lparr>transport := t, recv_buf := b\<rparr>"
  have c1: "alive (transport c1)" "\<not> desync c1" "lone ch (table c1)" "table_get (table c1) ch = Some s"
    using r(2) assms(2-4) by (simp_all add: c1_def)
  have s: "settled s \<le> length (rx_buf s)" "slot_local s = ids_local ids" "ids_local ids = ch_local ch"
    using assms(5) table_get_Some(3) [OF assms(4)] by (auto simp: slot_streams_def slot_ids_def)
  have pl: "command p = Write" "arg1 p = ids_local ids" using carries_data(4) s by (auto simp: mine_def)
  have len: "length (backlog inp c) = 24 + length (data p) + length b + length (inp t)"
    using carries_data(1) encode_len [OF carries_data(3)] r(3) by auto
  show thesis
  proof (cases "length (data p) \<le> len")
    case True
    obtain t' s' where d: "deliver_direct io ch (data p) c1 = (Ok (Data (data p)) :: ('e, unit select_result) outcome, c1\<lparr>transport := t', table := table_put ch s' (table c1)\<rparr>)"
        "alive t'" "inp t' = inp (transport c1)" "kin s s'" "rx_buf s' = rx_buf s"
      by (rule direct_live [OF c1(1,2,4) s(1)])
    have "recv_data_round io never True ch ids len c = (Some (Ok (Data (data p))), c\<lparr>transport := t', recv_buf := b, table := table_put ch s' (table c)\<rparr>)"
      using r(1) d(1) pl True by (simp add: recv_data_round_def leave_def c1_def)
    then show thesis
    proof (rule data [OF _ d(2,4)])
      show "bs = data p @ rx_buf s' @ later" using carries_data(2) d(5) assms(6) by simp
      show "carries ch ids (inbound_limit c) (b @ inp t') later" using carries_data(6) r(3) d(3) by (simp add: c1_def)
      show "length b + length (inp t') + length (rx_buf s') + length (data p) < length (backlog inp c)"
        unfolding len using d(3,5) assms(6) by (simp add: c1_def)
    qed (rule True)
  next
    case False
    then have ne: "data p \<noteq> []" "length (data p) \<le> length bs" using carries_data(2) by auto
    obtain d t' s' where d: "dispatch_and_take io ch len p c1 = (Ok (Some d), c1\<lparr>transport := t', table := table_put ch s' (table c1)\<rparr>)"
        "alive t'" "inp t' = inp (transport c1)" "kin s s'" "data p = d @ rx_buf s'" "length d \<le> len"
      by (rule buffered_live [OF c1 assms(5,6) carries_data(4) ne(2) assms(8) ne(1)])
    have "recv_data_round io never True ch ids len c = (Some (Ok (Data d)), c\<lparr>transport := t', recv_buf := b, table := table_put ch s' (table c)\<rparr>)"
      using r(1) d(1) pl False by (simp add: recv_data_round_def c1_def)
    then show thesis
    proof (rule data [OF _ d(2,4)])
      show "bs = d @ rx_buf s' @ later" using carries_data(2) d(5) by simp
      show "carries ch ids (inbound_limit c) (b @ inp t') later" using carries_data(6) r(3) d(3) by (simp add: c1_def)
      show "length b + length (inp t') + length (rx_buf s') + length d < length (backlog inp c)"
        unfolding len using d(3,5) by (simp add: c1_def)
    qed (rule d(6))
  qed
qed

lemma read_live:
  assumes "conn_streams inp alive ch bs c" and "0 < len"
  shows "ends (read_channel io ch len) c (\<lambda>r c'.
    (\<exists>d rest. r = Ok d \<and> bs = d @ rest \<and> conn_streams inp alive ch rest c' \<and> length d \<le> len \<and>
       conn_remaining inp ch c' + length d \<le> conn_remaining inp ch c \<and> conn_remaining inp ch c' < conn_remaining inp ch c) \<or>
    r = Err ChannelClosed \<and> bs = [] \<and> conn_streams inp alive ch [] c')"
proof -
  obtain s ids closed later where c: "alive (transport c)" "\<not> desync c" "lone ch (table c)" "table_get (table c) ch = Some s"
      "slot_streams closed ids bs s" "bs = rx_buf s @ later" "if closed then later = [] else carries ch ids (inbound_limit c) (backlog inp c) later"
    using assms(1) by (auto simp: conn_streams_def)
  have s: "slot_ids s = Some ids" "failed s = None" "settled s \<le> length (rx_buf s)" "is_closed s = closed"
    using c(5) by (auto simp: slot_streams_def)
  obtain r t' s' where t: "conn_take_buffered io ch len c = (r, c\<lparr>transport := t', table := table_put ch s' (table c)\<rparr>)"
      "alive t'" "inp t' = inp (transport c)" "kin s s'"
      "if rx_buf s = [] then rx_buf s' = [] \<and> r = (if is_closed s then Err ChannelClosed else Ok None)
       else \<exists>d. r = Ok (Some d) \<and> d \<noteq> [] \<and> length d \<le> len \<and> rx_buf s = d @ rx_buf s'"
    by (rule take_live [OF c(1,2,4) s(1-3) assms(2)])
  define c1 where "c1 = c\<lparr>transport := t', table := table_put ch s' (table c)\<rparr>"
  have c1: "c1 = c\<lparr>transport := t', recv_buf := recv_buf c, table := table_put ch s' (table c)\<rparr>" by (simp add: c1_def)
  have carry: "if closed then later = [] else carries ch ids (inbound_limit c) (recv_buf c @ inp t') later"
    using c(7) t(3) by (cases closed) (simp_all add: backlog_def)
  show ?thesis
  proof (cases "rx_buf s = []")
    case False
    then obtain d where d: "r = Ok (Some d)" "d \<noteq> []" "length d \<le> len" "rx_buf s = d @ rx_buf s'" using t(5) by auto
    have "read_channel io ch len c = Some (Ok d, c1)" using t(1) d(1) by (simp add: read_channel_def recv_data_def c1_def)
    moreover have "conn_streams inp alive ch (rx_buf s' @ later) c1"
      unfolding c1 by (rule streams_after [OF assms(1) c(4,5) t(4,2) _ refl carry]) (use c(6) d(4) in simp)
    moreover have "conn_remaining inp ch c1 + length d = conn_remaining inp ch c"
      unfolding c1 remaining_after(1) [OF c(4) t(4)] remaining_after(2) [OF c(4) t(4)] using d(4) t(3) by simp
    moreover from this have "conn_remaining inp ch c1 < conn_remaining inp ch c" using d(2) by (cases d) simp_all
    ultimately show ?thesis using d(3,4) c(6) by (auto simp: ends_def)
  next
    case True
    show ?thesis
    proof (cases closed)
      case True
      then have "read_channel io ch len c = Some (Err ChannelClosed, c1)" "bs = []"
        using t(1,5) \<open>rx_buf s = []\<close> s(4) c(6,7) by (simp_all add: read_channel_def recv_data_def loop_then_def c1_def)
      moreover have "conn_streams inp alive ch [] c1"
        unfolding c1 by (rule streams_after [OF assms(1) c(4,5) t(4,2) _ _ carry])
          (use True \<open>rx_buf s = []\<close> t(5) c(7) in \<open>auto\<close>)
      ultimately show ?thesis by (auto simp: ends_def)
    next
      case False
      have s': "rx_buf s' = []" using t(5) True by simp
      have c1': "alive (transport c1)" "\<not> desync c1" "lone ch (table c1)" "table_get (table c1) ch = Some s'"
        using t(2) c(2,3) kin_get [OF c(4) t(4)] by (simp_all add: c1_def)
      have st': "slot_streams False ids bs s'" using kin_streams [OF t(4) c(5)] False by simp
      have later: "later = bs" "carries ch ids (inbound_limit c1) (backlog inp c1) later"
        using c(6) True carry False by (simp_all add: c1_def backlog_def inbound_limit_def)
      have ids: "table_ids (table c1) ch = (Inr ids :: 'e error + channel_ids)"
        using c1'(4) st' by (simp add: table_ids_def slot_streams_def)
      have kin: "kin s x \<Longrightarrow> table_put ch x (table c1) = table_put ch x (table c)" if "kin s' x" for x
        using put_put [OF c(4), of s' x] t(4) by (simp add: c1_def kin_def)
      from c1' st' s' later(2) [unfolded later(1)] assms(2) show ?thesis
      proof (cases rule: round_live)
        case (data d t2 b2 s2 later2)
        have k: "kin s s2" by (rule kin_trans [OF t(4) data(3)])
        define c2 where "c2 = c\<lparr>transport := t2, recv_buf := b2, table := table_put ch s2 (table c)\<rparr>"
        have "c1\<lparr>transport := t2, recv_buf := b2, table := table_put ch s2 (table c1)\<rparr> = c2"
          using kin [OF data(3) k] by (simp add: c2_def c1_def)
        then have "read_channel io ch len c = Some (Ok d, c2)"
          using t(1,5) True s(4) False ids data(1) by (simp add: read_channel_def recv_data_def c1_def [symmetric] looping.simps)
        moreover have "conn_streams inp alive ch (rx_buf s2 @ later2) c2"
          unfolding c2_def by (rule streams_after [OF assms(1) c(4,5) k data(2) _ refl])
            (use data(4,5) False in \<open>simp_all add: c1_def inbound_limit_def\<close>)
        moreover have "conn_remaining inp ch c2 + length d < conn_remaining inp ch c"
          unfolding c2_def remaining_after(1) [OF c(4) k] remaining_after(2) [OF c(4) k]
          using data(7) t(3) by (simp add: c1_def backlog_def)
        ultimately show ?thesis using data(4,6) by (auto simp: ends_def)
      next
        case (closed t2 b2)
        define c2 where "c2 = c1\<lparr>transport := t2, recv_buf := b2, table := table_put ch (apply_close s') (table c1)\<rparr>"
        have rd: "read_channel io ch len c = Some (Err ChannelClosed, c2)"
          using t(1,5) True s(4) False ids closed(1) by (simp add: read_channel_def recv_data_def c1_def [symmetric] looping.simps loop_then_def c2_def)
        have "table_get (table c2) ch = Some (apply_close s')" "lone ch (table c2)"
          using table_get_put [OF c1'(4), of "apply_close s'"] table_get_Some(3) [OF c1'(4)] put_layout [OF c1'(4), of "apply_close s'"] c1'(3)
          by (simp_all add: c2_def apply_close_def lone_def)
        moreover have "slot_streams True ids [] (apply_close s')" "[] = rx_buf (apply_close s')"
          using st' s' by (auto simp: slot_streams_def apply_close_def slot_ids_def is_closed_def)
        moreover have "alive (transport c2)" "\<not> desync c2" "neg_max_payload (conn_neg c2) \<le> MAX_PAYLOAD"
          using closed(2) assms(1) by (simp_all add: c2_def c1_def conn_streams_def)
        ultimately have "conn_streams inp alive ch [] c2" unfolding conn_streams_def
          by (intro conjI exI [of _ "apply_close s'"] exI [of _ ids] exI [of _ True] exI [of _ "[]"]) simp_all
        then show ?thesis using rd closed(3) by (simp add: ends_def)
      qed
    qed
  qed
qed

end

context live_wire
begin

lemma write_stream_live:
  assumes "conn_streams inp alive ch bs c" and "length d \<le> conn_credit ch c"
  shows "succeeds (write_channel io ch d) c (\<lambda>_ c'. conn_streams inp alive ch bs c' \<and>
    conn_remaining inp ch c' = conn_remaining inp ch c \<and> conn_credit ch c' + length d = conn_credit ch c)"
proof (cases "d = []")
  case True
  have "\<not> desync c" using assms(1) by (simp add: conn_streams_def)
  then show ?thesis using True assms(1) by (simp add: ends_def write_channel_def check_desync_def)
next
  case False
  obtain s ids closed later where c: "alive (transport c)" "\<not> desync c" "table_get (table c) ch = Some s" "neg_max_payload (conn_neg c) \<le> MAX_PAYLOAD"
      "slot_streams closed ids bs s" "bs = rx_buf s @ later" "if closed then later = [] else carries ch ids (inbound_limit c) (backlog inp c) later"
    using assms(1) by (auto simp: conn_streams_def)
  have "0 < conn_credit ch c" using assms(2) False by (cases d) auto
  then have s: "\<not> is_closed s" "policy_ack (policy s) = Delayed" "conn_credit ch c = nat (send_budget s)" "0 < send_budget s"
    using c(3) by (auto simp: conn_credit_def split: if_splits)
  have sl: "slot_remote s \<noteq> None" "send_budget s < 2 ^ 63" "\<not> closed" "settled s \<le> length (rx_buf s)" "slot_ids s = Some ids" "failed s = None"
    using c(5) s(1) by (auto simp: slot_streams_def slot_ids_def)
  have budget: "int (length d) \<le> send_budget s" using assms(2) s(3,4) by simp
  define s' where "s' = s\<lparr>send_budget := send_budget s - int (length d)\<rparr>"
  obtain t' where t': "write_loop io ch d c = Some (Ok (), c\<lparr>transport := t', table := table_put ch s' (table c)\<rparr>)" "alive t'" "inp t' = inp (transport c)"
    unfolding s'_def using write_loop_live [OF c(1-3) sl(1) s(1,2) budget sl(2) c(4)] by blast
  define c' where "c' = c\<lparr>transport := t', table := table_put ch s' (table c)\<rparr>"
  have get': "table_get (table c') ch = Some s'" "lone ch (table c')"
    using table_get_put [OF c(3), of s'] table_get_Some(3) [OF c(3)] put_layout [OF c(3), of s'] assms(1)
    by (simp_all add: c'_def s'_def lone_def conn_streams_def)
  have "write_channel io ch d c = Some (Ok (), c')" using False c(2) t'(1) by (simp add: write_channel_def check_desync_def c'_def)
  moreover have "conn_remaining inp ch c' = conn_remaining inp ch c"
    using get'(1) c(3) t'(3) by (simp add: conn_remaining_def backlog_def c'_def s'_def)
  moreover have "conn_credit ch c' + length d = conn_credit ch c"
    using get'(1) s budget by (simp add: conn_credit_def s'_def is_closed_def nat_diff_distrib')
  moreover have "conn_streams inp alive ch bs c'"
  proof -
    have "slot_streams False ids bs s'" "bs = rx_buf s' @ later"
      using c(5,6) sl(3) by (auto simp: slot_streams_def s'_def slot_ids_def is_closed_def)
    moreover have "alive (transport c')" "\<not> desync c'" "neg_max_payload (conn_neg c') \<le> MAX_PAYLOAD" using t'(2) c(2,4) by (simp_all add: c'_def)
    moreover have "carries ch ids (inbound_limit c') (backlog inp c') later"
      using c(7) sl(3) t'(3) by (simp add: c'_def backlog_def inbound_limit_def)
    ultimately show ?thesis unfolding conn_streams_def using get'
      by (intro conjI exI [of _ s'] exI [of _ ids] exI [of _ False] exI [of _ later]) simp_all
  qed
  ultimately show ?thesis by (simp add: ends_def)
qed

lemma close_live:
  assumes "conn_streams inp alive ch bs c"
  shows "\<exists>c'. close_channel io ch c = (Ok (), c')"
proof -
  obtain s ids closed where c: "alive (transport c)" "\<not> desync c" "table_get (table c) ch = Some s" "slot_streams closed ids bs s"
    using assms by (auto simp: conn_streams_def)
  have ids: "table_ids (table c) ch = (Inr ids :: 'e error + channel_ids)" using c(3,4) by (simp add: table_ids_def slot_streams_def)
  define c1 where "c1 = c\<lparr>table := snd (table_free ch (table c))\<rparr>"
  have "\<exists>t'. send_pkt io (packet_close ids) (conn_checksum c1) c1 = (Ok (), c1\<lparr>transport := t'\<rparr>) \<and> alive t' \<and> inp t' = inp (transport c1)"
    unfolding send_pkt_def by (rule send_live) (use c(1,2) in \<open>simp_all add: c1_def packet_close_def packet_new_def\<close>)
  then show ?thesis using c(2) ids by (auto simp: close_channel_def check_desync_def c1_def Let_def)
qed

end

sublocale live_wire \<subseteq> conn: channel_stream "conn_session io" ch "conn_streams inp alive ch" "conn_remaining inp ch" "conn_credit ch" for ch
proof unfold_locales
  show "ends (s_read (conn_session io) ch len) c (\<lambda>r c'.
      (\<exists>d rest. r = Ok d \<and> bs = d @ rest \<and> conn_streams inp alive ch rest c' \<and> length d \<le> len \<and>
         conn_remaining inp ch c' + length d \<le> conn_remaining inp ch c \<and> conn_remaining inp ch c' < conn_remaining inp ch c) \<or>
      r = Err ChannelClosed \<and> bs = [] \<and> conn_streams inp alive ch [] c')"
    if "conn_streams inp alive ch bs c" "0 < len" for bs c len
    using read_live [OF that] by (simp add: conn_session_def)
  show "succeeds (s_write (conn_session io) ch d) c (\<lambda>_ c'. conn_streams inp alive ch bs c' \<and>
      conn_remaining inp ch c' = conn_remaining inp ch c \<and> conn_credit ch c' + length d = conn_credit ch c)"
    if "conn_streams inp alive ch bs c" "length d \<le> conn_credit ch c" for bs c d
    using write_stream_live [OF that] by (simp add: conn_session_def)
  show "succeeds (s_close (conn_session io) ch) c (\<lambda>_ _. True)" if "conn_streams inp alive ch bs c" for bs c
    using close_live [OF that] by (auto simp: conn_session_def ends_def)
qed

context live_wire
begin

lemma conn_stream: "channel_stream (conn_session io) ch (conn_streams inp alive ch) (conn_remaining inp ch) (conn_credit ch)"
  by (rule conn.channel_stream_axioms)

end

section \<open>Properties\<close>

text \<open>A device that answers on the sample channel and closes it, over the scripted transport.\<close>

definition answered :: "bytes \<Rightarrow> mock" where
  "answered d = mock_new\<lparr>inbound := (case (encode \<lparr>command = Write, arg0 = 9, arg1 = 4, data = d\<rparr> Compute,
       encode \<lparr>command = Close, arg0 = 9, arg1 = 4, data = []\<rparr> Compute) of (Inr w, Inr v) \<Rightarrow> w @ v | _ \<Rightarrow> [])\<rparr>"

lemma answered_streams:
  assumes "length d \<le> 1000"
  shows "conn_streams inbound healthy sample_handle ([1, 2, 3] @ d) (sample_conn (answered d))"
proof -
  define ids where "ids = \<lparr>ids_local = 4, ids_remote = 9 :: u32\<rparr>"
  define p q :: packet where "p = \<lparr>command = Write, arg0 = 9, arg1 = 4, data = d\<rparr>" and "q = \<lparr>command = Close, arg0 = 9, arg1 = 4, data = []\<rparr>"
  obtain w v where e: "encode p Compute = Inr w" "encode q Compute = Inr v"
    using assms by (simp add: encode_def encode_header_def p_def q_def)
  have cl: "closed_by ids q" by (simp add: closed_by_def ids_def q_def)
  have lim: "length d \<le> unat (inbound_limit (sample_conn (answered d)))"
    using assms by (simp add: inbound_limit_def sample_neg_def embedded_def)
  have "carries sample_handle ids (inbound_limit (sample_conn (answered d))) (w @ v @ []) (data p @ [])"
    by (rule carries_data [OF e(1) _ _ carries_close [OF e(2)]])
      (use lim cl in \<open>simp_all add: p_def q_def mine_def sample_handle_def\<close>)
  moreover have "backlog inbound (sample_conn (answered d)) = w @ v"
    using e by (simp add: backlog_def answered_def p_def q_def)
  moreover have "slot_streams False ids ([1, 2, 3] @ d) sample_slot"
    using assms by (simp add: slot_streams_def slot_ids_def ids_def is_closed_def policy_of_def rx_cap_def embedded_def)
  moreover have "healthy (answered d)" by (simp add: answered_def healthy_def mock_new_def)
  ultimately show ?thesis using sample_lone [of "answered d"]
    by (auto simp: conn_streams_def p_def sample_neg_def MAX_PAYLOAD_def intro!: exI [of _ sample_slot])
qed



definition fresh_conn :: "bytes \<Rightarrow> mock connection" where
  "fresh_conn d = (sample_conn (answered d))\<lparr>table := table_put sample_handle (sample_slot\<lparr>rx_buf := []\<rparr>) (table (sample_conn (answered d)))\<rparr>"

lemma fresh_streams:
  assumes "length d \<le> 1000"
  shows "conn_streams inbound healthy sample_handle d (fresh_conn d)" and "conn_credit sample_handle (fresh_conn d) = 64"
proof -
  define s where "s = sample_slot\<lparr>rx_buf := []\<rparr>"
  have get: "table_get (table (fresh_conn d)) sample_handle = Some s"
    using table_get_put [OF sample_simps(1), of s] by (simp add: fresh_conn_def s_def sample_handle_def)
  have lone: "lone sample_handle (table (fresh_conn d))"
    using sample_lone [of "answered d"] put_layout [OF sample_simps(1), of s "answered d"] by (simp add: fresh_conn_def lone_def s_def)
  obtain ids later where c: "slot_streams False ids ([1, 2, 3] @ d) sample_slot" "[1, 2, 3] @ d = rx_buf sample_slot @ later"
      "carries sample_handle ids (inbound_limit (sample_conn (answered d))) (backlog inbound (sample_conn (answered d))) later"
      "healthy (transport (sample_conn (answered d)))"
    using answered_streams [OF assms] by (auto simp: conn_streams_def slot_streams_def is_closed_def split: if_splits)
  have "slot_streams False ids d s" using c(1) by (auto simp: slot_streams_def s_def slot_ids_def is_closed_def)
  moreover have "carries sample_handle ids (inbound_limit (fresh_conn d)) (backlog inbound (fresh_conn d)) d"
    using c(2,3) by (simp add: fresh_conn_def inbound_limit_def backlog_def)
  moreover have "healthy (transport (fresh_conn d))" "\<not> desync (fresh_conn d)" "neg_max_payload (conn_neg (fresh_conn d)) \<le> MAX_PAYLOAD" "d = rx_buf s @ d"
    using c(4) by (simp_all add: fresh_conn_def s_def sample_neg_def MAX_PAYLOAD_def)
  ultimately show "conn_streams inbound healthy sample_handle d (fresh_conn d)" unfolding conn_streams_def using get lone
    by (intro conjI exI [of _ s] exI [of _ ids] exI [of _ False] exI [of _ d]) simp_all
  show "conn_credit sample_handle (fresh_conn d) = 64" using get by (simp add: conn_credit_def s_def is_closed_def policy_of_def)
qed

end
