(* ===== verification/Recv_Buf.thy ===== *)
theory Recv_Buf
  imports Session
begin

text \<open>
  Slices of a buffer, and the receive buffer the file services read records from
  (\<open>base/recv_buf.rs\<close>): unread bytes between two cursors, filled from a channel until
  enough of them are there.
\<close>

section \<open>Slices\<close>

text \<open>\<open>&xs[a..b]\<close>; out of range it panics (\<open>None\<close>).\<close>

definition slice :: "usize \<Rightarrow> usize \<Rightarrow> 'a list \<Rightarrow> 'a list option" where
  "slice a b xs = (if a \<le> b \<and> b \<le> length xs then Some (take (b - a) (drop a xs)) else None)"

text \<open>\<open>xs[a..a + d.len()].copy_from_slice(d)\<close>, in range.\<close>

definition blit :: "usize \<Rightarrow> 'a list \<Rightarrow> 'a list \<Rightarrow> 'a list" where
  "blit a d xs = take a xs @ d @ drop (a + length d) xs"

lemma slice_Some [simp]: "a \<le> b \<Longrightarrow> b \<le> length xs \<Longrightarrow> slice a b xs = Some (take (b - a) (drop a xs))"
  by (simp add: slice_def)

lemma length_blit [simp]: "a + length d \<le> length xs \<Longrightarrow> length (blit a d xs) = length xs"
  by (simp add: blit_def)

lemma blit_after:
  assumes "h \<le> a" and "a + length d \<le> length xs"
  shows "take (a + length d - h) (drop h (blit a d xs)) = take (a - h) (drop h xs) @ d"
proof -
  have "take (a + length d) (blit a d xs) = take a xs @ d" using assms by (simp add: blit_def)
  then have "drop h (take (a + length d) (blit a d xs)) = drop h (take a xs) @ d" using assms by simp
  then show ?thesis by (simp add: drop_take)
qed

lemma blit_front: "length d \<le> length xs \<Longrightarrow> take (length d) (blit 0 d xs) = d"
  by (simp add: blit_def)

section \<open>The buffer\<close>

record recv_window =
  rb_buf :: bytes
  rb_head :: usize
  rb_tail :: usize

definition rb_new :: "bytes \<Rightarrow> recv_window" where
  "rb_new buf = \<lparr>rb_buf = buf, rb_head = 0, rb_tail = 0\<rparr>"

definition rb_capacity :: "recv_window \<Rightarrow> usize" where
  "rb_capacity b = length (rb_buf b)"

definition rb_peek :: "usize \<Rightarrow> recv_window \<Rightarrow> bytes option" where
  "rb_peek n b = Option.bind (slice (rb_head b) (rb_tail b) (rb_buf b)) (slice 0 n)"

definition rb_take :: "usize \<Rightarrow> recv_window \<Rightarrow> (bytes \<times> recv_window) option" where
  "rb_take n b = Option.bind (rb_peek n b) (\<lambda>p.
     let start = rb_head b; b = b\<lparr>rb_head := rb_head b + length p\<rparr> in
     map_option (\<lambda>d. (d, b)) (slice start (rb_head b) (rb_buf b)))"

definition rb_advance :: "usize \<Rightarrow> recv_window \<Rightarrow> recv_window option" where
  "rb_advance n b = map_option snd (rb_take n b)"

text \<open>The size of the free space past the unread bytes.\<close>

definition rb_window :: "recv_window \<Rightarrow> usize" where
  "rb_window b = length (rb_buf b) - rb_tail b"

definition rb_compact :: "recv_window \<Rightarrow> recv_window option" where
  "rb_compact b = (if rb_head b > 0 then
      map_option (\<lambda>d. b\<lparr>rb_buf := blit 0 d (rb_buf b), rb_tail := rb_tail b - rb_head b, rb_head := 0\<rparr>)
        (slice (rb_head b) (rb_tail b) (rb_buf b))
    else Some b)"

text \<open>A panic inside a procedure.\<close>

definition or_panic :: "'a option \<Rightarrow> ('s, 'e, 'a) proc" where
  "or_panic r s = (case r of Some a \<Rightarrow> Some (Ok a, s) | None \<Rightarrow> Some (Panicked, s))"

text \<open>
  One round of \<open>fill_at_least\<close>, on a channel and the buffer it is read into.
\<close>

definition fill_room :: "('s channel \<times> recv_window, 'e, unit) proc" where
  "fill_room = (\<lambda>(c, b).
     if rb_tail b \<ge> length (rb_buf b) then
       (case rb_compact b of
          None \<Rightarrow> Some (Panicked, (c, b))
        | Some b \<Rightarrow> if rb_tail b \<ge> length (rb_buf b) then raise ReceiveBufferFull (c, b) else ret () (c, b))
     else ret () (c, b))"

definition fill_round :: "('s, 'e, 'i) session_ops \<Rightarrow> usize \<Rightarrow> unit \<Rightarrow> ('s channel \<times> recv_window, 'e, unit + unit) proc" where
  "fill_round S n = (\<lambda>_ (c, b).
     if rb_tail b - rb_head b < n then
       then_do fill_room (\<lambda>_ (c, b).
         then_do (on_part fst (\<lambda>c (_, b). (c, b)) (channel_read S (length (rb_buf b) - rb_tail b))) (\<lambda>d (c, b).
           ret (Inl ()) (c, b\<lparr>rb_buf := blit (rb_tail b) d (rb_buf b), rb_tail := rb_tail b + length d\<rparr>)) (c, b)) (c, b)
     else ret (Inr ()) (c, b))"

definition fill_at_least :: "('s, 'e, 'i) session_ops \<Rightarrow> usize \<Rightarrow> ('s channel \<times> recv_window, 'e, unit) proc" where
  "fill_at_least S n = (\<lambda>(c, b).
     if n > length (rb_buf b) then raise ReceiveBufferFull (c, b)
     else repeat_do (fill_round S n) () (c, b))"

section \<open>The buffer holds a queue of bytes\<close>

definition rb_ok :: "recv_window \<Rightarrow> bool" where
  "rb_ok b \<longleftrightarrow> rb_head b \<le> rb_tail b \<and> rb_tail b \<le> length (rb_buf b)"

definition unread :: "recv_window \<Rightarrow> bytes" where
  "unread b = take (rb_tail b - rb_head b) (drop (rb_head b) (rb_buf b))"

lemma rb_new_ok [simp]: "rb_ok (rb_new buf)" "unread (rb_new buf) = []" "rb_capacity (rb_new buf) = length buf"
  by (simp_all add: rb_ok_def rb_new_def unread_def rb_capacity_def)

lemma unread_length: "rb_ok b \<Longrightarrow> length (unread b) = rb_tail b - rb_head b"
  by (auto simp: rb_ok_def unread_def)

lemma unread_le: "rb_ok b \<Longrightarrow> length (unread b) \<le> rb_capacity b"
  by (auto simp: rb_ok_def unread_def rb_capacity_def)

lemma rb_peek_Some: "rb_ok b \<Longrightarrow> n \<le> length (unread b) \<Longrightarrow> rb_peek n b = Some (take n (unread b))"
  by (auto simp: rb_peek_def rb_ok_def unread_def)

lemma rb_take_Some:
  assumes "rb_ok b" and "n \<le> length (unread b)"
  obtains b' where "rb_take n b = Some (take n (unread b), b')" and "rb_ok b'" and "unread b' = drop n (unread b)"
    and "rb_capacity b' = rb_capacity b"
proof -
  define b' where "b' = b\<lparr>rb_head := rb_head b + n\<rparr>"
  have le: "n \<le> rb_tail b - rb_head b" using assms unread_length by simp
  have "length (take n (unread b)) = n" using assms(2) by simp
  then have "rb_take n b = Some (take n (unread b), b')"
    using rb_peek_Some [OF assms] le assms(1) by (auto simp: rb_take_def b'_def Let_def rb_ok_def unread_def min_def)
  moreover have "unread b' = drop n (unread b)" by (simp add: unread_def b'_def drop_take add.commute)
  ultimately show thesis using that le assms(1) by (auto simp: b'_def rb_ok_def rb_capacity_def)
qed

lemma rb_advance_Some:
  assumes "rb_ok b" and "n \<le> length (unread b)"
  obtains b' where "rb_advance n b = Some b'" and "rb_ok b'" and "unread b' = drop n (unread b)" and "rb_capacity b' = rb_capacity b"
  using rb_take_Some [OF assms] by (metis rb_advance_def option.simps(9) snd_conv)

lemma rb_compact_Some:
  assumes "rb_ok b"
  obtains b' where "rb_compact b = Some b'" and "rb_ok b'" and "unread b' = unread b" and "rb_capacity b' = rb_capacity b"
    and "rb_tail b' = length (unread b)" and "rb_head b' = 0"
proof (cases "rb_head b > 0")
  case True
  define b' where "b' = b\<lparr>rb_buf := blit 0 (unread b) (rb_buf b), rb_tail := rb_tail b - rb_head b, rb_head := 0\<rparr>"
  have len: "length (unread b) = rb_tail b - rb_head b" "length (unread b) \<le> length (rb_buf b)"
    using assms by (auto simp: unread_length rb_ok_def)
  have "rb_compact b = Some b'" using True assms by (simp add: rb_compact_def rb_ok_def b'_def unread_def)
  moreover have "unread b' = take (rb_tail b - rb_head b) (rb_buf b')" by (simp add: unread_def b'_def)
  then have "unread b' = unread b" using blit_front [OF len(2)] len(1) by (simp add: b'_def)
  ultimately show thesis using that [of b'] len by (simp add: b'_def rb_ok_def rb_capacity_def)
next
  case False
  then show thesis using that [of b] assms by (simp add: rb_compact_def unread_length)
qed

context channel_stream
begin

text \<open>Filling reads on until enough bytes are there, and keeps the order of what it reads.\<close>

definition filled :: "bytes \<Rightarrow> 's \<Rightarrow> recv_window \<Rightarrow> bytes \<Rightarrow> bytes \<Rightarrow> 's channel \<times> recv_window \<Rightarrow> bool" where
  "filled bs s b d rest p \<longleftrightarrow> (\<exists>s' b'. p = (chan s', b') \<and> bs = d @ rest \<and> streams rest s' \<and> rb_ok b' \<and>
     unread b' = unread b @ d \<and> rb_capacity b' = rb_capacity b \<and> remaining s' + length d \<le> remaining s)"

lemma fill_room_ends:
  assumes "rb_ok b" and "length (unread b) < rb_capacity b"
  shows "succeeds fill_room (c, b) (\<lambda>_ p. \<exists>b'. p = (c, b') \<and> rb_ok b' \<and> unread b' = unread b \<and> rb_capacity b' = rb_capacity b \<and>
    rb_tail b' < length (rb_buf b'))"
proof (cases "rb_tail b \<ge> length (rb_buf b)")
  case True
  obtain b' where "rb_compact b = Some b'" "rb_ok b'" "unread b' = unread b" "rb_capacity b' = rb_capacity b" "rb_tail b' = length (unread b)"
    by (rule rb_compact_Some [OF assms(1)])
  then show ?thesis using True assms(2) by (simp add: fill_room_def ends_def ret_def rb_capacity_def)
qed (use assms in \<open>simp add: fill_room_def ends_def ret_def\<close>)

lemma fill_round_ends:
  assumes "streams bs s" and "rb_ok b" and "n \<le> rb_capacity b" and "n \<le> length (unread b @ bs)"
  shows "succeeds (fill_round S n x) (chan s, b) (\<lambda>r p. (r = Inr () \<and> n \<le> length (unread b) \<and> filled bs s b [] bs p) \<or>
    (r = Inl () \<and> (\<exists>d rest. filled bs s b d rest p \<and> remaining (chan_session (fst p)) < remaining s)))"
proof (cases "length (unread b) < n")
  case False
  then show ?thesis using assms by (auto simp: fill_round_def ends_def ret_def unread_length filled_def)
next
  case True
  have lt: "rb_tail b - rb_head b < n" "length (unread b) < rb_capacity b" "bs \<noteq> []"
    using True assms unread_length [OF assms(2)] by auto
  obtain b' where b': "fill_room (chan s, b) = Some (Ok () :: ('e, unit) outcome, (chan s, b'))" "rb_ok b'" "unread b' = unread b" "rb_capacity b' = rb_capacity b"
      "rb_tail b' < length (rb_buf b')"
    using fill_room_ends [OF assms(2) lt(2), of "chan s"] by (auto simp: ends_def)
  define len where "len = length (rb_buf b') - rb_tail b'"
  have "0 < len" using b'(5) by (simp add: len_def)
  from read_channel_stream [OF assms(1) this] lt(3) obtain d rest s' where
    d: "channel_read S len (chan s) = Some (Ok d, chan s')" "bs = d @ rest" "streams rest s'" "length d \<le> len"
      "remaining s' + length d \<le> remaining s" "remaining s' < remaining s"
    by (auto simp: ends_def)
  define b2 where "b2 = b'\<lparr>rb_buf := blit (rb_tail b') d (rb_buf b'), rb_tail := rb_tail b' + length d\<rparr>"
  have fit: "rb_head b' \<le> rb_tail b'" "rb_tail b' + length d \<le> length (rb_buf b')" using b'(2,5) d(4) by (auto simp: rb_ok_def len_def)
  have run: "fill_round S n x (chan s, b) = Some (Ok (Inl ()), (chan s', b2))"
    using lt(1) b'(1) d(1) by (simp add: fill_round_def then_do_def on_part_def ret_def b2_def len_def)
  have b2: "rb_ok b2" "rb_capacity b2 = rb_capacity b" "unread b2 = unread b @ d"
    using fit b'(4) blit_after [OF fit] b'(3) by (simp_all add: b2_def rb_ok_def rb_capacity_def unread_def)
  then have "filled bs s b d rest (chan s', b2)" using d(2,3,5) by (auto simp: filled_def)
  then show ?thesis using run d(6) by (auto simp: ends_def)
qed

lemma fill_ends:
  assumes "streams bs s" and "rb_ok b" and "n \<le> rb_capacity b" and "n \<le> length (unread b @ bs)"
  shows "succeeds (fill_at_least S n) (chan s, b) (\<lambda>_ p. \<exists>d rest. filled bs s b d rest p \<and> n \<le> length (unread b @ d))"
proof -
  have "succeeds (repeat_do (fill_round S n) ()) (chan s, b) (\<lambda>_ p. \<exists>d rest. filled bs s b d rest p \<and> n \<le> length (unread b @ d))"
  proof (rule ends_repeat [where I = "\<lambda>_ p. \<exists>d rest. filled bs s b d rest p" and m = "\<lambda>_ p. remaining (chan_session (fst p))"])
    show "\<exists>d rest. filled bs s b d rest (chan s, b)" using assms by (auto simp: filled_def)
    fix x p
    assume "\<exists>d rest. filled bs s b d rest p"
    then obtain d rest s' b' where p: "p = (chan s', b')" "bs = d @ rest" "streams rest s'" "rb_ok b'" "unread b' = unread b @ d"
      "rb_capacity b' = rb_capacity b" "remaining s' + length d \<le> remaining s" by (auto simp: filled_def)
    have more: "filled bs s b (d @ d') rest' q" if "filled rest s' b' d' rest' q" for d' rest' q
      using that p by (auto simp: filled_def)
    obtain r q where q: "fill_round S n x p = Some (Ok r, q)" "(r = Inr () \<and> n \<le> length (unread b') \<and> filled rest s' b' [] rest q) \<or>
        (r = Inl () \<and> (\<exists>d' rest'. filled rest s' b' d' rest' q \<and> remaining (chan_session (fst q)) < remaining s'))"
    proof -
      have "n \<le> rb_capacity b'" "n \<le> length (unread b' @ rest)" using assms(3,4) p(2,5,6) by simp_all
      from fill_round_ends [OF p(3,4) this, of x] show thesis using that unfolding p(1) ends_def by blast
    qed
    from q(2) show "ends (fill_round S n x) p (\<lambda>r p'. (\<exists>x'. r = Ok (Inl x') \<and> (\<exists>d rest. filled bs s b d rest p') \<and>
          remaining (chan_session (fst p')) < remaining (chan_session (fst p))) \<or>
        (\<exists>a. r = Ok (Inr a) \<and> (\<exists>a'. Ok a = Ok a' \<and> (\<exists>d rest. filled bs s b d rest p' \<and> n \<le> length (unread b @ d)))) \<or>
        (\<exists>e. r = Err e \<and> (\<exists>a. Err e = Ok a \<and> (\<exists>d rest. filled bs s b d rest p' \<and> n \<le> length (unread b @ d)))))"
    proof (elim disjE conjE exE)
      assume "r = Inr ()" "n \<le> length (unread b')" "filled rest s' b' [] rest q"
      then have "filled bs s b d rest q" "n \<le> length (unread b @ d)" using more [of "[]" rest q] p(5) by simp_all
      then show ?thesis using q(1) \<open>r = Inr ()\<close> by (auto simp: ends_def)
    next
      fix d' rest'
      assume "r = Inl ()" "filled rest s' b' d' rest' q" "remaining (chan_session (fst q)) < remaining s'"
      then show ?thesis using q(1) more [of d' rest' q] p(1) by (auto simp: ends_def)
    qed
  qed
  then show ?thesis using assms(3) by (simp add: fill_at_least_def ends_def rb_capacity_def)
qed

end

end
