(* ===== verification/Destination.thy ===== *)
theory Destination
  imports Adb_Types Byte_Text
begin

text \<open>
  The strings a service is opened with (\<open>base/destination.rs\<close>) and decimal numbers
  (\<open>base/decimal.rs\<close>).  The quoting of arguments is measured against a reader of shell words.
\<close>

section \<open>Command lines\<close>

datatype destination_error = TooLong | Nul

definition destination_error_into :: "destination_error \<Rightarrow> 'e error" where
  "destination_error_into e = (case e of TooLong \<Rightarrow> ReceiveBufferFull | Nul \<Rightarrow> Protocol InvalidDestination)"

text \<open>
  The buffer of \<open>cap\<close> bytes holds \<open>out\<close> so far, its length being the \<open>len\<close> of the code; what
  is returned is the filled part.
\<close>

definition write_bytes :: "usize \<Rightarrow> bytes \<Rightarrow> bytes \<Rightarrow> destination_error + bytes" where
  "write_bytes cap out src = (case checked_add (length out) (length src) of
      None \<Rightarrow> Inl TooLong
    | Some e \<Rightarrow> if e > cap then Inl TooLong else Inr (out @ src))"

definition is_ascii_alphanumeric :: "u8 \<Rightarrow> bool" where
  "is_ascii_alphanumeric b \<longleftrightarrow> 48 \<le> b \<and> b \<le> 57 \<or> 65 \<le> b \<and> b \<le> 90 \<or> 97 \<le> b \<and> b \<le> 122"

definition is_shell_safe :: "u8 \<Rightarrow> bool" where
  "is_shell_safe b \<longleftrightarrow> is_ascii_alphanumeric b \<or> b \<in> set (lit ''_@%+=:,./-'')"

fun write_escaped :: "usize \<Rightarrow> bytes \<Rightarrow> bytes \<Rightarrow> destination_error + bytes" where
  "write_escaped cap out [] = Inr out"
| "write_escaped cap out (b # arg) =
     (case (if b = 39 then write_bytes cap out [39, 92, 39, 39] else write_bytes cap out [b]) of
        Inl e \<Rightarrow> Inl e
      | Inr out \<Rightarrow> write_escaped cap out arg)"

definition write_quoted :: "usize \<Rightarrow> bytes \<Rightarrow> bytes \<Rightarrow> destination_error + bytes" where
  "write_quoted cap out arg =
     (if arg \<noteq> [] \<and> list_all is_shell_safe arg then write_bytes cap out arg
      else case write_bytes cap out [39] of
        Inl e \<Rightarrow> Inl e
      | Inr out \<Rightarrow>
          (case write_escaped cap out arg of
             Inl e \<Rightarrow> Inl e
           | Inr out \<Rightarrow> write_bytes cap out [39]))"

fun write_prefixes :: "usize \<Rightarrow> bytes \<Rightarrow> bytes list \<Rightarrow> destination_error + bytes" where
  "write_prefixes cap out [] = Inr out"
| "write_prefixes cap out (p # ps) =
     (case write_bytes cap out p of Inl e \<Rightarrow> Inl e | Inr out \<Rightarrow> write_prefixes cap out ps)"

fun write_args :: "usize \<Rightarrow> bytes \<Rightarrow> bytes list \<Rightarrow> destination_error + bytes" where
  "write_args cap out [] = Inr out"
| "write_args cap out (a # as) =
     (case write_bytes cap out [32] of
        Inl e \<Rightarrow> Inl e
      | Inr out \<Rightarrow> (case write_quoted cap out a of Inl e \<Rightarrow> Inl e | Inr out \<Rightarrow> write_args cap out as))"

definition write_destination :: "usize \<Rightarrow> bytes list \<Rightarrow> bytes list \<Rightarrow> destination_error + bytes" where
  "write_destination cap prefixes args =
     (if list_ex (\<lambda>p. 0 \<in> set p) prefixes \<or> list_ex (\<lambda>a. 0 \<in> set a) args then Inl Nul
      else case write_prefixes cap [] prefixes of
        Inl e \<Rightarrow> Inl e
      | Inr out \<Rightarrow> (case write_args cap out args of Inl e \<Rightarrow> Inl e | Inr out \<Rightarrow> write_bytes cap out [0]))"

section \<open>NUL-separated arguments\<close>

definition build_nul_destination :: "bytes \<Rightarrow> bytes list \<Rightarrow> protocol_error + bytes" where
  "build_nul_destination service args =
     (if 0 \<in> set service \<or> list_ex (\<lambda>a. a = [] \<or> 0 \<in> set a) args then Inl InvalidDestination
      else let dest = service @ concat (map (\<lambda>a. a @ [0]) args)
        in Inr (if dest \<noteq> [] \<and> last dest = 0 then dest else dest @ [0]))"

section \<open>Decimal numbers\<close>

text \<open>
  The digits are written from the end of a ten byte array; \<open>acc\<close> is what is there already.  A
  position below zero panics (\<open>None\<close>).
\<close>

function format_digits :: "u32 \<Rightarrow> bytes \<Rightarrow> bytes option" where
  "format_digits n acc =
     (if n = 0 then Some acc
      else if length acc = 10 then None
      else format_digits (n div 10) ((48 + ucast (n mod 10)) # acc))"
  by auto
termination
proof (relation "measure (\<lambda>(n, _). unat n)")
  show "((n div 10, (48 + ucast (n mod 10)) # acc), n, acc) \<in> measure (\<lambda>(n, _). unat n)" if "n \<noteq> 0" for n :: u32 and acc :: bytes
    using that by (simp add: unat_div unat_gt_0)
qed simp

declare format_digits.simps [simp del]

definition format_u32 :: "u32 \<Rightarrow> bytes option" where
  "format_u32 n = (if n = 0 then Some [48] else format_digits n [])"

section \<open>What the writers write\<close>

lemma write_bytes_eq:
  assumes "cap \<le> usize_max" and "length out \<le> cap"
  shows "write_bytes cap out src = (if length out + length src \<le> cap then Inr (out @ src) else Inl TooLong)"
  using assms by (auto simp: write_bytes_def checked_add_def)

fun escaped :: "bytes \<Rightarrow> bytes" where
  "escaped [] = []"
| "escaped (b # r) = (if b = 39 then [39, 92, 39, 39] else [b]) @ escaped r"

definition quoted :: "bytes \<Rightarrow> bytes" where
  "quoted arg = (if arg \<noteq> [] \<and> list_all is_shell_safe arg then arg else [39] @ escaped arg @ [39])"

definition argv :: "bytes list \<Rightarrow> bytes" where
  "argv args = concat (map (\<lambda>a. 32 # quoted a) args)"

text \<open>A writer appends what it should if that fits, and fails otherwise.\<close>

definition appends :: "(usize \<Rightarrow> bytes \<Rightarrow> destination_error + bytes) \<Rightarrow> bytes \<Rightarrow> bool" where
  "appends w src \<longleftrightarrow> (\<forall>cap out. cap \<le> usize_max \<longrightarrow> length out \<le> cap \<longrightarrow>
     w cap out = (if length out + length src \<le> cap then Inr (out @ src) else Inl TooLong))"

lemma appends_bytes: "appends (\<lambda>cap out. write_bytes cap out src) src"
  by (simp add: appends_def write_bytes_eq)

lemma appends_seq:
  assumes "appends f xs" and "appends g ys"
  shows "appends (\<lambda>cap out. case f cap out of Inl e \<Rightarrow> Inl e | Inr out \<Rightarrow> g cap out) (xs @ ys)"
  using assms by (auto simp: appends_def)

lemma appends_none: "appends (\<lambda>cap out. Inr out) []"
  by (simp add: appends_def)

lemma appends_if: "(b \<Longrightarrow> appends f xs) \<Longrightarrow> (\<not> b \<Longrightarrow> appends g xs) \<Longrightarrow> appends (\<lambda>cap out. if b then f cap out else g cap out) xs"
  by (cases b) simp_all

lemma appends_escaped: "appends (\<lambda>cap out. write_escaped cap out arg) (escaped arg)"
proof (induction arg)
  case (Cons b arg)
  have "appends (\<lambda>cap out. if b = 39 then write_bytes cap out [39, 92, 39, 39] else write_bytes cap out [b])
      (if b = 39 then [39, 92, 39, 39] else [b])"
    by (rule appends_if) (simp_all add: appends_bytes)
  from appends_seq [OF this Cons.IH] show ?case by simp
qed (simp add: appends_none)

lemma appends_quoted: "appends (\<lambda>cap out. write_quoted cap out arg) (quoted arg)"
  unfolding write_quoted_def
proof (rule appends_if)
  assume "\<not> (arg \<noteq> [] \<and> list_all is_shell_safe arg)"
  then show "appends (\<lambda>cap out. case write_bytes cap out [39] of Inl e \<Rightarrow> Inl e
      | Inr out \<Rightarrow> (case write_escaped cap out arg of Inl e \<Rightarrow> Inl e | Inr out \<Rightarrow> write_bytes cap out [39])) (quoted arg)"
    unfolding quoted_def by (simp only: if_False) (intro appends_seq appends_bytes appends_escaped)
qed (simp add: quoted_def appends_bytes)

lemma appends_prefixes: "appends (\<lambda>cap out. write_prefixes cap out ps) (concat ps)"
proof (induction ps)
  case (Cons p ps)
  show ?case using appends_seq [OF appends_bytes Cons.IH] by simp
qed (simp add: appends_none)

lemma appends_args: "appends (\<lambda>cap out. write_args cap out as) (argv as)"
proof (induction as)
  case (Cons a as)
  show ?case using appends_seq [OF appends_bytes [of "[32]"] appends_seq [OF appends_quoted Cons.IH]] by (simp add: argv_def)
qed (simp add: argv_def appends_none)

section \<open>Reading shell words\<close>

text \<open>
  How a shell splits the rest of a command line into words: blanks separate them, single
  quotes and the backslash take away any meaning, and a byte that has one without them (or
  ends the command) is not accepted at all.
\<close>

datatype sh_mode = Unquoted | Quoted | Escaped

definition sh_plain :: "u8 \<Rightarrow> bool" where
  "sh_plain b \<longleftrightarrow> 33 \<le> b \<and> b \<noteq> 127 \<and> b \<notin> {34, 36, 38, 40, 41, 59, 60, 62, 96, 124} \<and> b \<notin> {33, 35, 42, 63, 91, 93, 94, 123, 125, 126}"

definition so_far :: "bytes option \<Rightarrow> bytes" where
  "so_far cur = (case cur of None \<Rightarrow> [] | Some w \<Rightarrow> w)"

fun sh_lex :: "sh_mode \<Rightarrow> bytes option \<Rightarrow> bytes \<Rightarrow> bytes list option" where
  "sh_lex m cur [] = (if m = Unquoted then Some (case cur of None \<Rightarrow> [] | Some w \<Rightarrow> [w]) else None)"
| "sh_lex Unquoted cur (b # r) =
     (if b = 32 \<or> b = 9 then (case cur of None \<Rightarrow> sh_lex Unquoted None r | Some w \<Rightarrow> map_option ((#) w) (sh_lex Unquoted None r))
      else if b = 39 then sh_lex Quoted (Some (so_far cur)) r
      else if b = 92 then sh_lex Escaped cur r
      else if sh_plain b then sh_lex Unquoted (Some (so_far cur @ [b])) r
      else None)"
| "sh_lex Quoted cur (b # r) = (if b = 39 then sh_lex Unquoted cur r else sh_lex Quoted (Some (so_far cur @ [b])) r)"
| "sh_lex Escaped cur (b # r) = (if b = 10 then sh_lex Unquoted cur r else sh_lex Unquoted (Some (so_far cur @ [b])) r)"

definition sh_words :: "bytes \<Rightarrow> bytes list option" where
  "sh_words line = sh_lex Unquoted None line"

lemma so_far_simps [simp]: "so_far None = []" "so_far (Some w) = w"
  by (simp_all add: so_far_def)

lemma safe_plain:
  assumes "is_shell_safe b"
  shows "sh_plain b" and "b \<noteq> 32" and "b \<noteq> 9" and "b \<noteq> 39" and "b \<noteq> 92"
proof -
  have "sh_plain b \<and> b \<noteq> 32 \<and> b \<noteq> 9 \<and> b \<noteq> 39 \<and> b \<noteq> 92"
    using assms unfolding is_shell_safe_def is_ascii_alphanumeric_def sh_plain_def
    by (simp add: of_char_def) (auto simp: word_le_nat_alt word_unat_eq_iff)
  then show "sh_plain b" "b \<noteq> 32" "b \<noteq> 9" "b \<noteq> 39" "b \<noteq> 92" by simp_all
qed

lemma sh_lex_safe: "list_all is_shell_safe arg \<Longrightarrow> sh_lex Unquoted (Some w) (arg @ r) = sh_lex Unquoted (Some (w @ arg)) r"
  by (induction arg arbitrary: w) (simp_all add: safe_plain)

lemma sh_lex_escaped: "sh_lex Quoted (Some w) (escaped arg @ 39 # r) = sh_lex Unquoted (Some (w @ arg)) r"
  by (induction arg arbitrary: w) (simp_all)

lemma sh_lex_quoted: "sh_lex Unquoted None (quoted arg @ r) = sh_lex Unquoted (Some arg) r"
proof (cases "arg \<noteq> [] \<and> list_all is_shell_safe arg")
  case True
  then obtain b bs where "arg = b # bs" by (cases arg) auto
  then show ?thesis using True sh_lex_safe [of bs "[b]" r] by (simp add: quoted_def safe_plain)
next
  case False
  then show ?thesis using sh_lex_escaped [of "[]" arg r] by (auto simp: quoted_def)
qed

lemma sh_lex_argv: "sh_lex Unquoted (Some w) (argv args) = Some (w # args)"
proof (induction args arbitrary: w)
  case (Cons a args)
  then show ?case using sh_lex_quoted [of a "argv args"] by (simp add: argv_def)
qed (simp add: argv_def)

lemma escaped_nul: "0 \<in> set (escaped a) \<longleftrightarrow> 0 \<in> set a"
  by (induction a) auto

lemma quoted_nul: "0 \<in> set (quoted a) \<longleftrightarrow> 0 \<in> set a"
  by (auto simp: quoted_def escaped_nul)

text \<open>
  C37: arguments reach the device's shell as they are.  A destination is written exactly when
  nothing in it holds a NUL and it fits the buffer; it is the prefixes, the arguments and a
  terminating NUL, the only one in it; and a shell reading the command line splits what
  follows the last prefix into exactly the arguments that were given, whatever they contain.
\<close>

theorem destination_argv_round_trip:
  assumes "cap \<le> usize_max"
  shows "case write_destination cap prefixes args of
      Inr out \<Rightarrow> (\<exists>line. out = concat prefixes @ line @ [0] \<and> 0 \<notin> set (concat prefixes @ line) \<and> length out \<le> cap \<and>
        (\<forall>w. list_all is_shell_safe w \<and> w \<noteq> [] \<longrightarrow> sh_words (w @ line) = Some (w # args)))
    | Inl Nul \<Rightarrow> 0 \<in> set (concat prefixes @ concat args)
    | Inl TooLong \<Rightarrow> 0 \<notin> set (concat prefixes @ concat args) \<and> cap < length (concat prefixes @ argv args @ [0])"
proof (cases "0 \<in> set (concat prefixes @ concat args)")
  case True
  then have "write_destination cap prefixes args = Inl Nul" by (auto simp: write_destination_def list_ex_iff)
  then show ?thesis using True by simp
next
  case False
  have "appends (\<lambda>cap out. case write_prefixes cap out prefixes of Inl e \<Rightarrow> Inl e | Inr out \<Rightarrow>
      (case write_args cap out args of Inl e \<Rightarrow> Inl e | Inr out \<Rightarrow> write_bytes cap out [0])) (concat prefixes @ argv args @ [0])"
    by (intro appends_seq appends_prefixes appends_args appends_bytes)
  then have w: "write_destination cap prefixes args = (if length (concat prefixes @ argv args @ [0]) \<le> cap
      then Inr (concat prefixes @ argv args @ [0]) else Inl TooLong)"
    using False assms by (auto simp: write_destination_def appends_def list_ex_iff)
  have "0 \<notin> set (argv args)" using False by (auto simp: argv_def quoted_nul)
  moreover have "sh_words (w @ argv args) = Some (w # args)" if "list_all is_shell_safe w" "w \<noteq> []" for w
  proof -
    have "sh_words (w @ argv args) = sh_lex Unquoted (Some w) (argv args)"
      using sh_lex_quoted [of w "argv args"] that by (simp add: sh_words_def quoted_def)
    then show ?thesis by (simp add: sh_lex_argv)
  qed
  ultimately show ?thesis using w False by (auto intro!: exI [of _ "argv args"])
qed

theorem destination_argv_round_trip_witness:
  "\<exists>line. write_destination 64 [lit ''shell,v2,raw:'', lit ''cmd''] [lit ''a b'', []]
      = Inr (concat [lit ''shell,v2,raw:'', lit ''cmd''] @ line @ [0]) \<and>
     sh_words (lit ''cmd'' @ line) = Some [lit ''cmd'', lit ''a b'', []]"
proof -
  have "(64 :: nat) \<le> usize_max" by (simp add: usize_max_def)
  note t = destination_argv_round_trip [OF this, of "[lit ''shell,v2,raw:'', lit ''cmd'']" "[lit ''a b'', []]"]
  have "0 \<notin> set (concat [lit ''shell,v2,raw:'', lit ''cmd''] @ concat [lit ''a b'', []])"
    "length (concat [lit ''shell,v2,raw:'', lit ''cmd''] @ argv [lit ''a b'', []] @ [0]) \<le> 64" by code_simp+
  then obtain out where w: "write_destination 64 [lit ''shell,v2,raw:'', lit ''cmd''] [lit ''a b'', []] = Inr out"
    using t by (auto split: sum.splits destination_error.splits)
  have "list_all is_shell_safe (lit ''cmd'') \<and> lit ''cmd'' \<noteq> []" by code_simp
  then show ?thesis using t unfolding w sum.case by blast
qed

text \<open>Splitting at the NULs and dropping what is empty, as the device reads the arguments.\<close>

definition nul_args :: "bytes \<Rightarrow> bytes list" where
  "nul_args payload = filter (\<lambda>a. a \<noteq> []) (split_on (\<lambda>b. b = 0) payload)"

lemma nul_args_concat:
  assumes "\<not> list_ex (\<lambda>a. a = [] \<or> 0 \<in> set a) args"
  shows "nul_args (concat (map (\<lambda>a. a @ [0]) args)) = args"
  using assms
proof (induction args)
  case (Cons a args)
  have "split_on (\<lambda>b. b = 0) (a @ 0 # r) = a # split_on (\<lambda>b. b = 0) r" for r
    using Cons.prems by (intro split_on_append) auto
  then show ?case using Cons by (simp add: nul_args_def)
qed (simp add: nul_args_def)

text \<open>
  C38: arguments separated by NULs come apart again.  An empty argument, or a NUL in one or in
  the service, is refused; otherwise the destination is the service followed by a part that
  ends in a NUL, and splitting that part at its NULs gives back exactly the arguments.
\<close>

theorem nul_destination_round_trip:
  "case build_nul_destination service args of
     Inl e \<Rightarrow> e = InvalidDestination \<and> (0 \<in> set service \<or> list_ex (\<lambda>a. a = [] \<or> 0 \<in> set a) args)
   | Inr dest \<Rightarrow> 0 \<notin> set service \<and> (\<exists>tail. dest = service @ tail \<and> tail \<noteq> [] \<and> last tail = 0 \<and> nul_args tail = args)"
proof (cases "0 \<in> set service \<or> list_ex (\<lambda>a. a = [] \<or> 0 \<in> set a) args")
  case False
  define tail where "tail = concat (map (\<lambda>a. a @ [0 :: u8]) args)"
  show ?thesis
  proof (cases "args = []")
    case True
    have "\<not> (service \<noteq> [] \<and> last service = 0)" using False last_in_set [of service] by metis
    then have "build_nul_destination service args = Inr (service @ [0])"
      using False True by (auto simp: build_nul_destination_def)
    then show ?thesis using False True by (simp add: nul_args_def)
  next
    case ne: False
    then obtain as a where "args = as @ [a]" by (cases args rule: rev_cases) auto
    then have t: "tail \<noteq> []" "last tail = 0" by (simp_all add: tail_def)
    then have "build_nul_destination service args = Inr (service @ tail)"
      using False by (auto simp: build_nul_destination_def tail_def [symmetric])
    moreover have "nul_args tail = args" using nul_args_concat [of args] False by (simp add: tail_def)
    ultimately show ?thesis using False t by simp
  qed
qed (auto simp: build_nul_destination_def)

section \<open>Decimal digits\<close>

fun dec_digits :: "nat \<Rightarrow> bytes" where
  "dec_digits n = (if n = 0 then [] else dec_digits (n div 10) @ [48 + of_nat (n mod 10)])"

declare dec_digits.simps [simp del]

definition dec_value :: "bytes \<Rightarrow> nat" where
  "dec_value ds = foldl (\<lambda>v d. v * 10 + (unat d - 48)) 0 ds"

lemma digit_value: "d < 10 \<Longrightarrow> unat (48 + of_nat d :: u8) = 48 + d"
proof -
  assume "d < 10"
  then have "(48 + of_nat d :: u8) = of_nat (48 + d)" "48 + d < 256" by simp_all
  then show ?thesis by (simp add: unat_of_nat take_bit_eq_mod del: of_nat_add)
qed

lemma dec_digits_value: "dec_value (dec_digits n) = n"
proof (induction n rule: dec_digits.induct)
  case (1 n)
  then show ?case by (subst dec_digits.simps) (simp add: dec_value_def digit_value)
qed

lemma dec_digits_length: "n < 10 ^ k \<Longrightarrow> length (dec_digits n) \<le> k"
proof (induction k arbitrary: n)
  case (Suc k)
  then have "n div 10 < 10 ^ k" by (simp add: less_mult_imp_div_less mult.commute)
  then show ?case using Suc.IH by (subst dec_digits.simps) auto
qed (simp add: dec_digits.simps)

lemma dec_digits_ascii: "d \<in> set (dec_digits n) \<Longrightarrow> 48 \<le> d \<and> d \<le> 57"
proof (induction n rule: dec_digits.induct)
  case (1 n)
  have "48 \<le> (48 + of_nat m :: u8) \<and> (48 + of_nat m :: u8) \<le> 57" if "m < 10" for m
    using digit_value [OF that] that by (simp add: word_le_nat_alt)
  then show ?case using 1 by (subst (asm) (2) dec_digits.simps) (auto split: if_splits)
qed

lemma format_digits_eq:
  "length acc + length (dec_digits (unat n)) \<le> 10 \<Longrightarrow> format_digits n acc = Some (dec_digits (unat n) @ acc)"
proof (induction n acc rule: format_digits.induct)
  case (1 n acc)
  show ?case
  proof (cases "n = 0")
    case True
    then show ?thesis by (simp add: dec_digits.simps [of 0] format_digits.simps [of 0])
  next
    case False
    then have pos: "unat n \<noteq> 0" by (simp add: unat_eq_zero)
    have d: "dec_digits (unat n) = dec_digits (unat (n div 10)) @ [48 + ucast (n mod 10)]"
    proof -
      have "(ucast (n mod 10) :: u8) = of_nat (unat n mod 10)" by (simp only: ucast_eq uint_nat of_int_of_nat_eq) (simp add: unat_mod)
      then show ?thesis using pos by (subst dec_digits.simps) (simp add: unat_div)
    qed
    then have "length acc \<noteq> 10" using "1.prems" by simp
    then show ?thesis using "1.IH" [OF False] "1.prems" False d by (subst format_digits.simps) simp
  qed
qed

lemma format_u32_eq: "format_u32 n = Some (if n = 0 then [48] else dec_digits (unat n))"
proof -
  have "length (dec_digits (unat n)) \<le> 10"
    using unat_u32_lt [of n] by (intro dec_digits_length) (simp add: order.strict_trans)
  then show ?thesis using format_digits_eq [of "[]" n] by (simp add: format_u32_def)
qed

end
