(* ===== verification/Shell_V2.thy ===== *)
theory Shell_V2
  imports Recv_Buf Destination
begin

text \<open>
  The framed shell protocol (\<open>shell/v2.rs\<close>, \<open>shell/v2/decoder.rs\<close>): frames of stdout, stderr
  and the exit code over a channel, decoded from a buffer of any size, and commands run to
  their end.
\<close>

section \<open>Frames\<close>

datatype frame_id = Stdin | Stdout | Stderr | Exit | CloseStdin | WindowSizeChange

definition frame_id_try_from :: "u8 \<Rightarrow> u8 + frame_id" where
  "frame_id_try_from b =
     (if b = 0 then Inr Stdin else if b = 1 then Inr Stdout else if b = 2 then Inr Stderr
      else if b = 3 then Inr Exit else if b = 4 then Inr CloseStdin else if b = 5 then Inr WindowSizeChange
      else Inl b)"

fun frame_id_code :: "frame_id \<Rightarrow> u8" where
  "frame_id_code Stdin = 0"
| "frame_id_code Stdout = 1"
| "frame_id_code Stderr = 2"
| "frame_id_code Exit = 3"
| "frame_id_code CloseStdin = 4"
| "frame_id_code WindowSizeChange = 5"

definition byte_of :: "u8 + frame_id \<Rightarrow> u8" where
  "byte_of i = (case i of Inr i \<Rightarrow> frame_id_code i | Inl b \<Rightarrow> b)"

datatype shell_mode = Raw | Pty "bytes option"

definition shell_destination :: "shell_mode \<Rightarrow> bytes \<Rightarrow> protocol_error + bytes" where
  "shell_destination mode cmdline =
     (if 0 \<in> set cmdline then Inl InvalidDestination
      else case mode of
        Raw \<Rightarrow> Inr (lit ''shell,v2,raw:'' @ cmdline @ [0])
      | Pty None \<Rightarrow> Inr (lit ''shell,v2,pty:'' @ cmdline @ [0])
      | Pty (Some term) \<Rightarrow>
          if term = [] then Inr (lit ''shell,v2,pty:'' @ cmdline @ [0])
          else if 44 \<in> set term \<or> 58 \<in> set term \<or> 0 \<in> set term then Inl InvalidDestination
          else Inr (lit ''shell,v2,pty,TERM='' @ term @ [58] @ cmdline @ [0]))"

definition SHELL_HEADER_SIZE :: usize where "SHELL_HEADER_SIZE = 5"

definition parse_header :: "bytes \<Rightarrow> (u8 + frame_id) \<times> u32" where
  "parse_header buf = (frame_id_try_from (buf ! 0), from_le [buf ! 1, buf ! 2, buf ! 3, buf ! 4])"

record window_size =
  rows :: "16 word"
  cols :: "16 word"

definition WINDOW_MAX_LEN :: usize where "WINDOW_MAX_LEN = length (lit ''65535x65535,0x0'') + 1"

text \<open>\<open>EncodedWindowSize::push\<close>: past the end of the array it panics.\<close>

definition window_push :: "bytes \<Rightarrow> bytes \<Rightarrow> bytes option" where
  "window_push out part = (if length out + length part \<le> WINDOW_MAX_LEN then Some (out @ part) else None)"

definition window_encode :: "window_size \<Rightarrow> bytes option" where
  "window_encode w =
     Option.bind (format_u32 (ucast (rows w))) (\<lambda>r.
     Option.bind (window_push [] r) (\<lambda>out.
     Option.bind (window_push out (lit ''x'')) (\<lambda>out.
     Option.bind (format_u32 (ucast (cols w))) (\<lambda>c.
     Option.bind (window_push out c) (\<lambda>out.
     window_push out (lit '',0x0'' @ [0]))))))"

datatype frame = FrameStdout bytes | FrameStderr bytes | FrameExit u8 | FrameOther u8 bytes

record command_output =
  out_stdout :: bytes
  out_stderr :: bytes
  exit_code :: u8

definition output_default :: command_output where
  "output_default = \<lparr>out_stdout = [], out_stderr = [], exit_code = 0\<rparr>"

section \<open>The decoder\<close>

definition make_frame :: "u8 + frame_id \<Rightarrow> bytes \<Rightarrow> protocol_error + frame" where
  "make_frame i payload = (case i of
      Inr Stdout \<Rightarrow> Inr (FrameStdout payload)
    | Inr Stderr \<Rightarrow> Inr (FrameStderr payload)
    | Inr Exit \<Rightarrow> (case payload of code # _ \<Rightarrow> Inr (FrameExit code) | [] \<Rightarrow> Inl ShortExitPayload)
    | other \<Rightarrow> Inr (FrameOther (byte_of other) payload))"

record frame_decoder =
  dec_head :: usize
  dec_tail :: usize
  large_id :: "u8 + frame_id"
  large_remaining :: usize

definition decoder_new :: frame_decoder where
  "decoder_new = \<lparr>dec_head = 0, dec_tail = 0, large_id = Inr Stdout, large_remaining = 0\<rparr>"

definition dec_commit :: "usize \<Rightarrow> frame_decoder \<Rightarrow> frame_decoder" where
  "dec_commit n d = d\<lparr>dec_tail := dec_tail d + n\<rparr>"

definition dec_compact :: "frame_decoder \<Rightarrow> bytes \<Rightarrow> (frame_decoder \<times> bytes) option" where
  "dec_compact d rx = (if dec_head d > 0 then
      map_option (\<lambda>u. (d\<lparr>dec_tail := dec_tail d - dec_head d, dec_head := 0\<rparr>, blit 0 u rx)) (slice (dec_head d) (dec_tail d) rx)
    else Some (d, rx))"

definition reset_if_drained :: "frame_decoder \<Rightarrow> frame_decoder" where
  "reset_if_drained d = (if dec_head d = dec_tail d then d\<lparr>dec_head := 0, dec_tail := 0\<rparr> else d)"

definition consume_large_ref :: "bytes \<Rightarrow> usize \<Rightarrow> frame_decoder \<Rightarrow> (((u8 + frame_id) \<times> bytes) \<times> frame_decoder) option" where
  "consume_large_ref rx available d =
     (let n = min available (large_remaining d); start = dec_head d;
          d' = reset_if_drained (d\<lparr>dec_head := dec_head d + n, large_remaining := large_remaining d - n\<rparr>) in
      map_option (\<lambda>payload. ((large_id d, payload), d')) (slice start (start + n) rx))"

text \<open>\<open>None\<close> is a panic: a cursor outside the buffer.\<close>

definition try_next_raw_ref ::
  "bytes \<Rightarrow> frame_decoder \<Rightarrow> ((protocol_error + ((u8 + frame_id) \<times> bytes) option) \<times> frame_decoder) option" where
  "try_next_raw_ref rx d =
     (let buffered = dec_tail d - dec_head d in
      if large_remaining d > 0 then
        (if buffered = 0 then Some (Inr None, d)
         else map_option (\<lambda>(p, d). (Inr (Some p), d)) (consume_large_ref rx buffered d))
      else if buffered < SHELL_HEADER_SIZE then Some (Inr None, d)
      else Option.bind (slice (dec_head d) (dec_head d + SHELL_HEADER_SIZE) rx) (\<lambda>hdr.
        case parse_header hdr of (i, n) \<Rightarrow>
          (case checked_add SHELL_HEADER_SIZE (unat n) of
             None \<Rightarrow> Some (Inl PayloadTooLarge, d)
           | Some whole \<Rightarrow>
               if whole > length rx then
                 let hdr_start = dec_head d;
                     d = d\<lparr>large_id := i, large_remaining := unat n, dec_head := hdr_start + SHELL_HEADER_SIZE\<rparr>;
                     available = dec_tail d - dec_head d in
                 if available = 0 then Some (Inr None, reset_if_drained d)
                 else map_option (\<lambda>((_, p), d). (Inr (Some (i, p)), d)) (consume_large_ref rx available d)
               else if buffered < whole then Some (Inr None, d)
               else
                 let payload_start = dec_head d + SHELL_HEADER_SIZE; payload_end = payload_start + unat n;
                     d = reset_if_drained (d\<lparr>dec_head := payload_end\<rparr>) in
                 map_option (\<lambda>p. (Inr (Some (i, p)), d)) (slice payload_start payload_end rx))))"

definition try_next_frame :: "bytes \<Rightarrow> frame_decoder \<Rightarrow> ((protocol_error + frame option) \<times> frame_decoder) option" where
  "try_next_frame rx d = map_option (\<lambda>(r, d). (case r of
      Inl e \<Rightarrow> Inl e
    | Inr None \<Rightarrow> Inr None
    | Inr (Some (i, p)) \<Rightarrow> (case make_frame i p of Inl e \<Rightarrow> Inl e | Inr f \<Rightarrow> Inr (Some f)), d)) (try_next_raw_ref rx d)"

section \<open>The shell\<close>

record 's shell =
  sh_channel :: "'s channel"
  sh_rx :: bytes
  sh_dec :: frame_decoder

text \<open>\<open>Shell::new\<close> asserts that a header fits the buffer.\<close>

definition shell_new :: "'s channel \<Rightarrow> bytes \<Rightarrow> 's shell option" where
  "shell_new c rx = (if length rx \<ge> SHELL_HEADER_SIZE then Some \<lparr>sh_channel = c, sh_rx = rx, sh_dec = decoder_new\<rparr> else None)"

abbreviation on_channel :: "('s channel, 'e, 'a) proc \<Rightarrow> ('s shell, 'e, 'a) proc" where
  "on_channel m \<equiv> on_part sh_channel (\<lambda>c sh. sh\<lparr>sh_channel := c\<rparr>) m"

definition sh_compact :: "('s shell, 'e, unit) proc" where
  "sh_compact sh = (case dec_compact (sh_dec sh) (sh_rx sh) of
      None \<Rightarrow> Some (Panicked, sh)
    | Some (d, rx) \<Rightarrow> Some (Ok (), sh\<lparr>sh_dec := d, sh_rx := rx\<rparr>))"

definition shell_send_frame :: "('s, 'e, 'i) session_ops \<Rightarrow> frame_id \<Rightarrow> bytes \<Rightarrow> ('s shell, 'e, unit) proc" where
  "shell_send_frame S i payload =
     (if length payload \<ge> 2 ^ 32 then raise (Protocol PayloadTooLarge)
      else
        let hdr = frame_id_code i # u32_to_le (of_nat (length payload)); whole = SHELL_HEADER_SIZE + length payload in
        then_do sh_compact (\<lambda>_ sh.
          let free = length (sh_rx sh) - dec_tail (sh_dec sh) in
          if whole \<le> free then
            on_channel (channel_write S (hdr @ payload)) (sh\<lparr>sh_rx := blit (dec_tail (sh_dec sh)) (hdr @ payload) (sh_rx sh)\<rparr>)
          else
            then_do (on_channel (channel_write S hdr)) (\<lambda>_.
              if payload \<noteq> [] then on_channel (channel_write S payload) else ret ()) sh))"

definition shell_write_stdin :: "('s, 'e, 'i) session_ops \<Rightarrow> bytes \<Rightarrow> ('s shell, 'e, unit) proc" where
  "shell_write_stdin S payload = shell_send_frame S Stdin payload"

definition close_stdin :: "('s, 'e, 'i) session_ops \<Rightarrow> ('s shell, 'e, unit) proc" where
  "close_stdin S = await_do (shell_send_frame S CloseStdin []) (\<lambda>r. case r of
      Inl ChannelClosed \<Rightarrow> ret ()
    | sent \<Rightarrow> of_result sent)"

definition set_window_size :: "('s, 'e, 'i) session_ops \<Rightarrow> window_size \<Rightarrow> ('s shell, 'e, unit) proc" where
  "set_window_size S cells = then_do (or_panic (window_encode cells)) (\<lambda>payload. shell_send_frame S WindowSizeChange payload)"

definition shell_try_next_frame :: "('s shell, 'e, frame option) proc" where
  "shell_try_next_frame sh = (case try_next_frame (sh_rx sh) (sh_dec sh) of
      None \<Rightarrow> Some (Panicked, sh)
    | Some (Inl e, d) \<Rightarrow> Some (Err (Protocol e), sh\<lparr>sh_dec := d\<rparr>)
    | Some (Inr f, d) \<Rightarrow> Some (Ok f, sh\<lparr>sh_dec := d\<rparr>))"

definition ensure_writable :: "('s shell, 'e, unit) proc" where
  "ensure_writable sh =
     (if dec_tail (sh_dec sh) < length (sh_rx sh) then ret () sh
      else then_do sh_compact (\<lambda>_ sh.
        if dec_tail (sh_dec sh) = length (sh_rx sh) then raise ReceiveBufferFull sh else ret () sh) sh)"

text \<open>What was read is in the buffer past \<open>tail\<close>, and committed.\<close>

definition sh_received :: "bytes \<Rightarrow> 's shell \<Rightarrow> 's shell" where
  "sh_received d sh = sh\<lparr>sh_rx := blit (dec_tail (sh_dec sh)) d (sh_rx sh), sh_dec := dec_commit (length d) (sh_dec sh)\<rparr>"

definition read_frame_round :: "('s, 'e, 'i) session_ops \<Rightarrow> unit \<Rightarrow> ('s shell, 'e, unit + frame) proc" where
  "read_frame_round S _ = then_do shell_try_next_frame (\<lambda>f. case f of
      Some frame \<Rightarrow> ret (Inr frame)
    | None \<Rightarrow>
        then_do ensure_writable (\<lambda>_ sh.
          then_do (on_channel (channel_read S (length (sh_rx sh) - dec_tail (sh_dec sh))))
            (\<lambda>d sh. ret (Inl ()) (sh_received d sh)) sh))"

definition read_frame :: "('s, 'e, 'i) session_ops \<Rightarrow> ('s shell, 'e, frame) proc" where
  "read_frame S = repeat_do (read_frame_round S) ()"

definition pump :: "('s, 'e, 'i) session_ops \<Rightarrow> 'i \<Rightarrow> ('s shell, 'e, unit select_result) proc" where
  "pump S interrupt = then_do ensure_writable (\<lambda>_ sh.
     then_do (on_channel (channel_select S interrupt (length (sh_rx sh) - dec_tail (sh_dec sh))))
       (\<lambda>r sh. ret r (case r of Data d \<Rightarrow> sh_received d sh | _ \<Rightarrow> sh)) sh)"

definition shell_close :: "('s, 'e, 'i) session_ops \<Rightarrow> ('s shell, 'e, unit) proc" where
  "shell_close S = on_channel (channel_close S)"

definition collect_round :: "('s, 'e, 'i) session_ops \<Rightarrow> command_output \<Rightarrow> ('s shell, 'e, command_output + command_output) proc" where
  "collect_round S out = await_do (read_frame S) (\<lambda>r. case r of
      Inr (FrameStdout b) \<Rightarrow> ret (Inl (out\<lparr>out_stdout := out_stdout out @ b\<rparr>))
    | Inr (FrameStderr b) \<Rightarrow> ret (Inl (out\<lparr>out_stderr := out_stderr out @ b\<rparr>))
    | Inr (FrameExit code) \<Rightarrow> ret (Inr (out\<lparr>exit_code := code\<rparr>))
    | Inr (FrameOther _ _) \<Rightarrow> ret (Inl out)
    | Inl e \<Rightarrow> raise e)"

definition collect :: "('s, 'e, 'i) session_ops \<Rightarrow> ('s shell, 'e, command_output) proc" where
  "collect S = close_after (shell_close S) (repeat_do (collect_round S) output_default)"

definition run_to_exit :: "('s, 'e, 'i) session_ops \<Rightarrow> ('s shell, 'e, command_output) proc" where
  "run_to_exit S = await_do (close_stdin S) (\<lambda>r. case r of
      Inl e \<Rightarrow> await_do (shell_close S) (\<lambda>_. raise e)
    | Inr _ \<Rightarrow> collect S)"

subsection \<open>Opening\<close>

text \<open>A service opened on a session holds it until it is done.\<close>

definition wrap_shell :: "bytes \<Rightarrow> 's channel \<Rightarrow> 's \<Rightarrow> (('e, 's shell) outcome \<times> 's) option" where
  "wrap_shell rx c s = or_panic (shell_new c rx) s"

definition shell_open :: "('s, 'e, 'i) session_ops \<Rightarrow> bytes \<Rightarrow> bytes \<Rightarrow> ('s, 'e, 's shell) proc" where
  "shell_open S cmdline rx =
     then_do (session_require S ShellV2) (\<lambda>_.
     then_do (of_result (case shell_destination Raw cmdline of Inl e \<Rightarrow> Inl (Protocol e) | Inr d \<Rightarrow> Inr d)) (\<lambda>dest.
     then_do (session_open S dest) (wrap_shell rx)))"

text \<open>Running a procedure of an opened service; the session comes back from it.\<close>

definition in_service :: "('x \<Rightarrow> 's) \<Rightarrow> ('x, 'e, 'a) proc \<Rightarrow> 'x \<Rightarrow> ('s, 'e, 'a) proc" where
  "in_service session m x s = map_option (\<lambda>(r, x'). (r, session x')) (m x)"

abbreviation shell_session :: "'s shell \<Rightarrow> 's" where
  "shell_session sh \<equiv> chan_session (sh_channel sh)"

definition shell_exec :: "('s, 'e, 'i) session_ops \<Rightarrow> bytes \<Rightarrow> bytes \<Rightarrow> ('s, 'e, command_output) proc" where
  "shell_exec S cmdline rx = then_do (shell_open S cmdline rx) (in_service shell_session (run_to_exit S))"

definition resize_or_close :: "('s, 'e, 'i) session_ops \<Rightarrow> window_size \<Rightarrow> ('s shell, 'e, unit) proc" where
  "resize_or_close S cells = await_do (set_window_size S cells) (\<lambda>r. case r of
      Inl e \<Rightarrow> await_do (shell_close S) (\<lambda>_. raise e)
    | Inr _ \<Rightarrow> ret ())"

definition open_interactive ::
  "('s, 'e, 'i) session_ops \<Rightarrow> bytes \<Rightarrow> bytes option \<Rightarrow> window_size option \<Rightarrow> bytes \<Rightarrow> ('s, 'e, 's shell) proc" where
  "open_interactive S cmdline term cells rx =
     then_do (session_require S ShellV2) (\<lambda>_.
     then_do (of_result (case shell_destination (Pty term) cmdline of Inl e \<Rightarrow> Inl (Protocol e) | Inr d \<Rightarrow> Inr d)) (\<lambda>dest.
     then_do (session_open S dest) (\<lambda>c.
     then_do (wrap_shell rx c) (\<lambda>sh. case cells of
         None \<Rightarrow> ret sh
       | Some cells \<Rightarrow> in_service shell_session (\<lambda>sh. map_option (\<lambda>(r, sh'). (case r of
             Ok _ \<Rightarrow> Ok sh' | Err e \<Rightarrow> Err e | Cancelled \<Rightarrow> Cancelled | Panicked \<Rightarrow> Panicked, sh')) (resize_or_close S cells sh)) sh))))"

definition write_argv_destination :: "usize \<Rightarrow> bytes \<Rightarrow> bytes list \<Rightarrow> destination_error + bytes" where
  "write_argv_destination cap prefix args = write_destination cap [lit ''shell,v2,raw:'', prefix] args"

definition open_argv :: "('s, 'e, 'i) session_ops \<Rightarrow> bytes \<Rightarrow> bytes list \<Rightarrow> usize \<Rightarrow> ('s, 'e, 's channel) proc" where
  "open_argv S prefix args cap =
     then_do (session_require S ShellV2) (\<lambda>_.
     then_do (of_result (case write_argv_destination cap prefix args of Inl e \<Rightarrow> Inl (destination_error_into e) | Inr d \<Rightarrow> Inr d)) (\<lambda>dest.
     session_open S dest))"

section \<open>What the decoder does to the unread bytes\<close>

definition dec_ok :: "bytes \<Rightarrow> frame_decoder \<Rightarrow> bool" where
  "dec_ok rx d \<longleftrightarrow> dec_head d \<le> dec_tail d \<and> dec_tail d \<le> length rx"

definition pending :: "bytes \<Rightarrow> frame_decoder \<Rightarrow> bytes" where
  "pending rx d = take (dec_tail d - dec_head d) (drop (dec_head d) rx)"

text \<open>The frame in progress and the bytes not decoded yet.\<close>

definition view :: "bytes \<Rightarrow> frame_decoder \<Rightarrow> (u8 + frame_id) \<times> usize \<times> bytes" where
  "view rx d = (large_id d, large_remaining d, pending rx d)"

text \<open>One step of decoding, on these alone, for a buffer of \<open>cap\<close> bytes.\<close>

definition next_piece ::
  "usize \<Rightarrow> (u8 + frame_id) \<times> usize \<times> bytes \<Rightarrow> ((u8 + frame_id) \<times> bytes) option \<times> ((u8 + frame_id) \<times> usize \<times> bytes)" where
  "next_piece cap = (\<lambda>(i, n, u).
     if n > 0 then (if u = [] then (None, (i, n, u)) else (Some (i, take n u), (i, n - length u, drop n u)))
     else if length u < 5 then (None, (i, n, u))
     else case parse_header (take 5 u) of (j, m) \<Rightarrow>
       if 5 + unat m > cap then
         (if length u = 5 then (None, (j, unat m, [])) else (Some (j, take (unat m) (drop 5 u)), (j, unat m - (length u - 5), drop (5 + unat m) u)))
       else if length u < 5 + unat m then (None, (i, n, u))
       else (Some (j, take (unat m) (drop 5 u)), (i, n, drop (5 + unat m) u)))"

lemma pending_length: "dec_ok rx d \<Longrightarrow> length (pending rx d) = dec_tail d - dec_head d"
  by (auto simp: dec_ok_def pending_def)

lemma reset_ok: "dec_ok rx d \<Longrightarrow> dec_ok rx (reset_if_drained d) \<and> pending rx (reset_if_drained d) = pending rx d \<and>
    large_id (reset_if_drained d) = large_id d \<and> large_remaining (reset_if_drained d) = large_remaining d"
  by (auto simp: reset_if_drained_def dec_ok_def pending_def)

lemma consume_eq:
  assumes "dec_ok rx d" and "dec_head d < dec_tail d"
  obtains d' where "consume_large_ref rx (dec_tail d - dec_head d) d = Some ((large_id d, take (large_remaining d) (pending rx d)), d')"
    and "dec_ok rx d'" and "view rx d' = (large_id d, large_remaining d - length (pending rx d), drop (large_remaining d) (pending rx d))"
proof -
  define n where "n = min (dec_tail d - dec_head d) (large_remaining d)"
  define d1 where "d1 = d\<lparr>dec_head := dec_head d + n, large_remaining := large_remaining d - n\<rparr>"
  have ok1: "dec_ok rx d1" using assms by (auto simp: d1_def n_def dec_ok_def)
  have p1: "pending rx d1 = drop (large_remaining d) (pending rx d)"
    using assms by (auto simp: pending_def d1_def n_def drop_take min_def dec_ok_def add.commute)
  have r1: "large_remaining d1 = large_remaining d - length (pending rx d)"
    using pending_length [OF assms(1)] by (auto simp: d1_def n_def)
  have "slice (dec_head d) (dec_head d + n) rx = Some (take (large_remaining d) (pending rx d))"
    using assms(1) by (auto simp: slice_def dec_ok_def pending_def n_def min_def)
  then have "consume_large_ref rx (dec_tail d - dec_head d) d = Some ((large_id d, take (large_remaining d) (pending rx d)), reset_if_drained d1)"
    by (simp add: consume_large_ref_def Let_def n_def [symmetric] d1_def)
  then show thesis using that [of "reset_if_drained d1"] reset_ok [OF ok1] p1 r1 by (simp add: view_def d1_def)
qed

lemma header_slice:
  assumes "dec_ok rx d" and "5 \<le> length (pending rx d)"
  shows "slice (dec_head d) (dec_head d + 5) rx = Some (take 5 (pending rx d))"
  using assms pending_length [OF assms(1)] by (auto simp: slice_def dec_ok_def pending_def min_def)

lemma unat_checked: "checked_add 5 (unat (m :: u32)) = Some (5 + unat m)"
  using unat_u32_lt [of m] by (simp add: usize_max_def)

text \<open>The decoder takes that step.\<close>

definition steps_to :: "bytes \<Rightarrow> frame_decoder \<Rightarrow> frame_decoder \<Rightarrow> bool" where
  "steps_to rx d d' \<longleftrightarrow> try_next_raw_ref rx d = Some (Inr (fst (next_piece (length rx) (view rx d))), d') \<and> dec_ok rx d' \<and>
     view rx d' = snd (next_piece (length rx) (view rx d))"

lemma step_large:
  assumes "dec_ok rx d" and "large_remaining d > 0"
  shows "\<exists>d'. steps_to rx d d'"
proof (cases "pending rx d = []")
  case True
  then have "steps_to rx d d" using assms pending_length [OF assms(1)]
    by (simp add: steps_to_def try_next_raw_ref_def next_piece_def view_def)
  then show ?thesis by blast
next
  case False
  then have lt: "dec_head d < dec_tail d" using pending_length [OF assms(1)] by (metis length_greater_0_conv zero_less_diff)
  from consume_eq [OF assms(1) this] obtain d' where
    d': "consume_large_ref rx (dec_tail d - dec_head d) d = Some ((large_id d, take (large_remaining d) (pending rx d)), d')" "dec_ok rx d'"
      "view rx d' = (large_id d, large_remaining d - length (pending rx d), drop (large_remaining d) (pending rx d))" by blast
  have "steps_to rx d d'" using d' False lt assms(2) by (simp add: steps_to_def try_next_raw_ref_def next_piece_def view_def)
  then show ?thesis by blast
qed

lemma step_oversized:
  assumes "dec_ok rx d" and "large_remaining d = 0" and "5 \<le> length (pending rx d)"
    and "parse_header (take 5 (pending rx d)) = (j, m)" and "length rx < 5 + unat m"
  shows "\<exists>d'. steps_to rx d d'"
proof -
  define d1 where "d1 = d\<lparr>large_id := j, large_remaining := unat m, dec_head := dec_head d + 5\<rparr>"
  have ok1: "dec_ok rx d1" using assms(1,3) pending_length [OF assms(1)] by (auto simp: d1_def dec_ok_def)
  have p1: "pending rx d1 = drop 5 (pending rx d)" by (simp add: pending_def d1_def drop_take add.commute)
  have d1: "large_id d1 = j" "large_remaining d1 = unat m" by (simp_all add: d1_def)
  have run: "try_next_raw_ref rx d = (if dec_tail d1 - dec_head d1 = 0 then Some (Inr None, reset_if_drained d1)
      else map_option (\<lambda>((_, p), d). (Inr (Some (j, p)), d)) (consume_large_ref rx (dec_tail d1 - dec_head d1) d1))"
    using assms header_slice [OF assms(1,3)] pending_length [OF assms(1)]
    by (simp add: try_next_raw_ref_def SHELL_HEADER_SIZE_def unat_checked d1_def Let_def)
  show ?thesis
  proof (cases "length (pending rx d) = 5")
    case True
    then have "dec_tail d1 - dec_head d1 = 0" using pending_length [OF ok1] p1 by simp
    then have "steps_to rx d (reset_if_drained d1)" using run reset_ok [OF ok1] p1 True assms(2,4,5)
      by (simp add: steps_to_def next_piece_def view_def d1)
    then show ?thesis by blast
  next
    case False
    then have lt: "dec_head d1 < dec_tail d1" using pending_length [OF ok1] p1 assms(3) by simp
    from consume_eq [OF ok1 this] obtain d' where
      d': "consume_large_ref rx (dec_tail d1 - dec_head d1) d1 = Some ((large_id d1, take (large_remaining d1) (pending rx d1)), d')" "dec_ok rx d'"
        "view rx d' = (large_id d1, large_remaining d1 - length (pending rx d1), drop (large_remaining d1) (pending rx d1))" by blast
    have "next_piece (length rx) (view rx d) = (Some (j, take (unat m) (drop 5 (pending rx d))),
        (j, unat m - (length (pending rx d) - 5), drop (5 + unat m) (pending rx d)))"
      using False assms(2-5) by (simp add: next_piece_def view_def)
    then have "steps_to rx d d'" using d' lt run p1 by (simp add: steps_to_def d1 add.commute)
    then show ?thesis by blast
  qed
qed

lemma step_fitting:
  assumes "dec_ok rx d" and "large_remaining d = 0" and "5 \<le> length (pending rx d)"
    and "parse_header (take 5 (pending rx d)) = (j, m)" and "5 + unat m \<le> length rx"
  shows "\<exists>d'. steps_to rx d d'"
proof (cases "length (pending rx d) < 5 + unat m")
  case True
  then have "steps_to rx d d" using assms header_slice [OF assms(1,3)] pending_length [OF assms(1)]
    by (simp add: steps_to_def try_next_raw_ref_def next_piece_def view_def SHELL_HEADER_SIZE_def unat_checked)
  then show ?thesis by blast
next
  case False
  define d1 where "d1 = d\<lparr>dec_head := dec_head d + 5 + unat m\<rparr>"
  have ok1: "dec_ok rx d1" using assms(1) False pending_length [OF assms(1)] by (auto simp: d1_def dec_ok_def)
  have p1: "pending rx d1 = drop (5 + unat m) (pending rx d)" by (simp add: pending_def d1_def drop_take add.commute add.left_commute)
  have sl: "slice (dec_head d + 5) (dec_head d + 5 + unat m) rx = Some (take (unat m) (drop 5 (pending rx d)))"
    using assms(1) False pending_length [OF assms(1)] by (auto simp: slice_def dec_ok_def pending_def drop_take min_def add.commute)
  have "try_next_raw_ref rx d = Some (Inr (Some (j, take (unat m) (drop 5 (pending rx d)))), reset_if_drained d1)"
    using assms header_slice [OF assms(1,3)] pending_length [OF assms(1)] False sl
    by (simp add: try_next_raw_ref_def SHELL_HEADER_SIZE_def unat_checked d1_def Let_def)
  moreover have "next_piece (length rx) (view rx d) = (Some (j, take (unat m) (drop 5 (pending rx d))),
      (large_id d, large_remaining d, drop (5 + unat m) (pending rx d)))"
    using False assms(2-5) by (simp add: next_piece_def view_def)
  ultimately have "steps_to rx d (reset_if_drained d1)" using reset_ok [OF ok1] p1 by (simp add: steps_to_def view_def d1_def)
  then show ?thesis by blast
qed

lemma try_next_eq:
  assumes "dec_ok rx d"
  obtains d' where "steps_to rx d d'"
proof (cases "large_remaining d > 0")
  case True
  then show thesis using step_large [OF assms] that by blast
next
  case small: False
  show thesis
  proof (cases "length (pending rx d) < 5")
    case True
    then have "steps_to rx d d" using assms pending_length [OF assms] small
      by (simp add: steps_to_def try_next_raw_ref_def next_piece_def view_def SHELL_HEADER_SIZE_def)
    then show thesis by (rule that)
  next
    case False
    obtain j m where "parse_header (take 5 (pending rx d)) = (j, m)" by force
    then show thesis
      using step_oversized [OF assms, of j m] step_fitting [OF assms, of j m] small False that by (metis not_gr_zero not_less)
  qed
qed

section \<open>Frames in a stream of bytes\<close>

definition enc_frame :: "u8 \<Rightarrow> bytes \<Rightarrow> bytes" where
  "enc_frame i p = (i # u32_to_le (of_nat (length p))) @ p"

definition enc_frames :: "(u8 \<times> bytes) list \<Rightarrow> bytes" where
  "enc_frames fs = concat (map (\<lambda>(i, p). enc_frame i p) fs)"

lemma enc_frames_simps [simp]: "enc_frames [] = []" "enc_frames ((i, p) # fs) = enc_frame i p @ enc_frames fs"
  by (simp_all add: enc_frames_def)

lemma parse_header_enc:
  assumes "length p < 2 ^ 32"
  shows "\<exists>m. parse_header (i # u32_to_le (of_nat (length p))) = (frame_id_try_from i, m) \<and> unat m = length p"
proof -
  define m :: u32 where "m = of_nat (length p)"
  have "[u32_to_le m ! 0, u32_to_le m ! 1, u32_to_le m ! 2, u32_to_le m ! 3] = u32_to_le m" by (simp add: to_le_4)
  then have "parse_header (i # u32_to_le m) = (frame_id_try_from i, m)" by (simp add: parse_header_def)
  moreover have "unat m = length p" using assms by (simp add: m_def unat_of_nat take_bit_eq_mod)
  ultimately show ?thesis by (auto simp: m_def)
qed

text \<open>
  The bytes in the buffer and those on their way start with what is left, \<open>q\<close>, of a frame
  with id \<open>i\<close>; frames \<open>fs\<close> follow, then anything.  Either the frame is in progress, or its
  header is still to come.
\<close>

definition rest_coming :: "(u8 + frame_id) \<times> usize \<times> bytes \<Rightarrow> bytes \<Rightarrow> u8 \<Rightarrow> bytes \<Rightarrow> (u8 \<times> bytes) list \<Rightarrow> bool" where
  "rest_coming = (\<lambda>(l, n, u) bs i q fs. n = length q \<and> (n > 0 \<longrightarrow> l = frame_id_try_from i) \<and> (\<exists>junk. u @ bs = q @ enc_frames fs @ junk))"

definition frame_coming :: "(u8 + frame_id) \<times> usize \<times> bytes \<Rightarrow> bytes \<Rightarrow> u8 \<Rightarrow> bytes \<Rightarrow> (u8 \<times> bytes) list \<Rightarrow> bool" where
  "frame_coming v bs i q fs \<longleftrightarrow> q \<noteq> [] \<and> rest_coming v bs i q fs \<or> length q < 2 ^ 32 \<and> (\<exists>j. rest_coming v bs j [] ((i, q) # fs))"

lemma in_progress_step:
  assumes "u @ bs = q @ x" and "u \<noteq> []" and "q \<noteq> []"
  obtains q' u' where "q = take (length q) u @ q'" and "drop (length q) u = u'" and "u' @ bs = q' @ x"
    and "length q - length u = length q'" and "take (length q) u \<noteq> []" and "length u' < length u"
proof -
  from assms(1) obtain w where w: "u = q @ w \<and> w @ bs = x \<or> u @ w = q \<and> bs = w @ x"
    by (auto simp: append_eq_append_conv2)
  show thesis
  proof (cases "u = q @ w \<and> w @ bs = x")
    case True
    then show thesis using that [of "[]" w] assms(3) by simp
  next
    case False
    then have "u @ w = q" "bs = w @ x" using w by auto
    then show thesis using that [of w "[]"] assms(2) by auto
  qed
qed

lemma split_front:
  assumes "u @ bs = h @ x" and "length h \<le> length u"
  obtains w where "u = h @ w" and "w @ bs = x"
proof -
  have "take (length h) (u @ bs) = h" by (simp add: assms(1))
  then have u: "u = h @ drop (length h) u" using assms(2) by (metis append_take_drop_id take_append diff_is_0_eq take_0 append_Nil2)
  then have "drop (length h) u @ bs = x" using assms(1) by (metis append_assoc same_append_eq)
  then show thesis using that u by blast
qed

lemma bytes_missing: "u @ bs = h @ x \<Longrightarrow> length u < length h \<Longrightarrow> bs \<noteq> []"
  by auto

text \<open>
  What a step does to what is coming.  Without a piece it needs more bytes, which are on
  their way, and leaves room for them; a piece is the next part of the frame.
\<close>

definition moves_on :: "usize \<Rightarrow> (u8 + frame_id) \<times> usize \<times> bytes \<Rightarrow> bytes \<Rightarrow> u8 \<Rightarrow> bytes \<Rightarrow> (u8 \<times> bytes) list \<Rightarrow>
    ((u8 + frame_id) \<times> bytes) option \<times> ((u8 + frame_id) \<times> usize \<times> bytes) \<Rightarrow> bool" where
  "moves_on cap v bs i q fs = (\<lambda>(r, v'). case r of
      None \<Rightarrow> frame_coming v' bs i q fs \<and> bs \<noteq> [] \<and> length (snd (snd v')) < cap \<and> length (snd (snd v')) \<le> length (snd (snd v))
    | Some (j, chunk) \<Rightarrow> j = frame_id_try_from i \<and> length (snd (snd v')) < length (snd (snd v)) \<and> (chunk = [] \<longrightarrow> q = []) \<and>
        (\<exists>q'. q = chunk @ q' \<and> rest_coming v' bs i q' fs))"

lemma next_inside:
  assumes "rest_coming v bs i q fs" and "q \<noteq> []" and "5 \<le> cap"
  shows "moves_on cap v bs i q fs (next_piece cap v)"
proof -
  obtain l n u where v: "v = (l, n, u)" by (metis prod.exhaust)
  obtain junk where c: "n = length q" "l = frame_id_try_from i" "u @ bs = q @ enc_frames fs @ junk"
    using assms(1,2) by (auto simp: rest_coming_def v)
  show ?thesis
  proof (cases "u = []")
    case True
    then show ?thesis using assms c by (auto simp: next_piece_def moves_on_def v frame_coming_def)
  next
    case False
    obtain q' u' where s: "q = take (length q) u @ q'" "drop (length q) u = u'" "u' @ bs = q' @ enc_frames fs @ junk"
        "length q - length u = length q'" "take (length q) u \<noteq> []" "length u' < length u"
      by (rule in_progress_step [OF c(3) False assms(2)])
    have "next_piece cap v = (Some (l, take (length q) u), (l, length q', u'))"
      using assms(2) False c(1) s(2,4) by (auto simp: next_piece_def v)
    then show ?thesis using s c(2) by (auto simp: v moves_on_def rest_coming_def)
  qed
qed

text \<open>The header is there, and \<open>w\<close> behind it.\<close>

lemma next_header:
  assumes "w @ bs = q @ enc_frames fs @ junk" and "length q < 2 ^ 32" and "5 \<le> cap"
    and "h = i # u32_to_le (of_nat (length q))" and "frame_coming (l, 0, h @ w) bs i q fs"
  shows "moves_on cap (l, 0, h @ w) bs i q fs (next_piece cap (l, 0, h @ w))"
proof -
  obtain m where m: "parse_header h = (frame_id_try_from i, m)" "unat m = length q" using parse_header_enc [OF assms(2), of i] by (auto simp: assms(4))
  have h5: "length h = 5" by (simp add: assms(4))
  define j where "j = frame_id_try_from i"
  have np: "next_piece cap (l, 0, h @ w) = (if 5 + length q > cap then
      (if w = [] then (None, (j, length q, [])) else (Some (j, take (length q) w), (j, length q - length w, drop (length q) w)))
      else if length w < length q then (None, (l, 0, h @ w)) else (Some (j, take (length q) w), (l, 0, drop (length q) w)))"
    using m h5 by (simp add: next_piece_def j_def)
  show ?thesis
  proof (cases "5 + length q > cap")
    case large: True
    then have q: "q \<noteq> []" using assms(3) by auto
    show ?thesis
    proof (cases "w = []")
      case True
      have "rest_coming (j, length q, []) bs i q fs" using assms(1) True by (auto simp: rest_coming_def j_def)
      then show ?thesis using np large assms(1,3) True q by (auto simp: frame_coming_def moves_on_def)
    next
      case False
      obtain q' u' where s: "q = take (length q) w @ q'" "drop (length q) w = u'" "u' @ bs = q' @ enc_frames fs @ junk"
          "length q - length w = length q'" "take (length q) w \<noteq> []" "length u' < length w"
        by (rule in_progress_step [OF assms(1) False q])
      have "next_piece cap (l, 0, h @ w) = (Some (j, take (length q) w), (j, length q', u'))"
        using np large False s(2,4) by auto
      then show ?thesis using s by (auto simp: moves_on_def rest_coming_def j_def)
    qed
  next
    case fits: False
    show ?thesis
    proof (cases "length w < length q")
      case True
      then show ?thesis using bytes_missing [OF assms(1) True] np fits assms(5) h5 by (auto simp: moves_on_def)
    next
      case False
      obtain u' where u': "w = q @ u'" "u' @ bs = enc_frames fs @ junk" using split_front [OF assms(1)] False by auto
      then show ?thesis using np fits h5 by (auto simp: moves_on_def rest_coming_def j_def)
    qed
  qed
qed

lemma next_piece_coming:
  assumes "frame_coming v bs i q fs" and "5 \<le> cap"
  shows "moves_on cap v bs i q fs (next_piece cap v)"
proof (cases "q \<noteq> [] \<and> rest_coming v bs i q fs")
  case True
  then show ?thesis using next_inside assms(2) by blast
next
  case False
  obtain l n u where v: "v = (l, n, u)" by (metis prod.exhaust)
  define h where "h = i # u32_to_le (of_nat (length q))"
  obtain junk where c: "n = 0" "u @ bs = h @ q @ enc_frames fs @ junk" "length q < 2 ^ 32"
    using False assms(1) by (auto simp: frame_coming_def rest_coming_def v enc_frame_def h_def)
  show ?thesis
  proof (cases "length u < length h")
    case True
    then show ?thesis using bytes_missing [OF c(2) True] assms c(1) by (auto simp: next_piece_def moves_on_def v h_def)
  next
    case False
    obtain w where "u = h @ w" "w @ bs = q @ enc_frames fs @ junk" using split_front [OF c(2)] False by auto
    then show ?thesis using next_header [OF _ c(3) assms(2) h_def, of w bs fs junk l] assms(1) c(1) by (simp add: v)
  qed
qed

lemma rest_to_frame:
  assumes "rest_coming v bs i q fs"
  shows "q \<noteq> [] \<Longrightarrow> frame_coming v bs i q fs" and "q = [] \<Longrightarrow> fs = (j, p) # fs' \<Longrightarrow> length p < 2 ^ 32 \<Longrightarrow> frame_coming v bs j p fs'"
  using assms by (auto simp: frame_coming_def)

section \<open>Reading frames\<close>

lemma dec_compact_Some:
  assumes "dec_ok rx d"
  obtains d' rx' where "dec_compact d rx = Some (d', rx')" and "dec_ok rx' d'" and "view rx' d' = view rx d"
    and "length rx' = length rx" and "dec_tail d' = length (pending rx d)"
proof (cases "dec_head d > 0")
  case True
  define d' where "d' = d\<lparr>dec_tail := dec_tail d - dec_head d, dec_head := 0\<rparr>"
  define rx' where "rx' = blit 0 (pending rx d) rx"
  have len: "length (pending rx d) = dec_tail d - dec_head d" "length (pending rx d) \<le> length rx"
    using assms pending_length [OF assms] by (auto simp: dec_ok_def)
  have "slice (dec_head d) (dec_tail d) rx = Some (pending rx d)" using assms by (simp add: dec_ok_def pending_def)
  then have "dec_compact d rx = Some (d', rx')" using True by (simp add: dec_compact_def d'_def rx'_def)
  moreover have "pending rx' d' = take (dec_tail d - dec_head d) rx'" by (simp add: pending_def d'_def)
  then have "pending rx' d' = pending rx d" using blit_front [OF len(2)] len(1) by (simp add: rx'_def)
  ultimately show thesis using that [of d' rx'] len by (simp add: view_def d'_def rx'_def dec_ok_def)
next
  case False
  then show thesis using that [of d rx] assms pending_length [OF assms] by (simp add: dec_compact_def)
qed

context channel_stream
begin

abbreviation shell_at :: "'s \<Rightarrow> bytes \<Rightarrow> frame_decoder \<Rightarrow> 's shell" where
  "shell_at s rx d \<equiv> \<lparr>sh_channel = chan s, sh_rx = rx, sh_dec = d\<rparr>"

text \<open>A shell over a channel that streams \<open>bs\<close>, with a decoder in the state \<open>v\<close>.\<close>

definition shell_reads :: "usize \<Rightarrow> bytes \<Rightarrow> (u8 + frame_id) \<times> usize \<times> bytes \<Rightarrow> 's shell \<Rightarrow> bool" where
  "shell_reads cap bs v sh \<longleftrightarrow> (\<exists>s rx d. sh = shell_at s rx d \<and> streams bs s \<and> dec_ok rx d \<and> view rx d = v \<and> length rx = cap)"

definition effort :: "'s shell \<Rightarrow> nat" where
  "effort sh = remaining (shell_session sh) + length (pending (sh_rx sh) (sh_dec sh))"

lemma writable_ends:
  assumes "streams bs s" and "dec_ok rx d" and "length (pending rx d) < length rx"
  obtains rx' d' where "ensure_writable (shell_at s rx d) = Some (Ok () :: ('e, unit) outcome, shell_at s rx' d')"
    and "dec_ok rx' d'" and "view rx' d' = view rx d" and "length rx' = length rx" and "dec_tail d' < length rx'"
proof (cases "dec_tail d < length rx")
  case True
  then show thesis using that [of rx d] assms by (simp add: ensure_writable_def ret_def)
next
  case False
  obtain d' rx' where c: "dec_compact d rx = Some (d', rx')" "dec_ok rx' d'" "view rx' d' = view rx d" "length rx' = length rx"
      "dec_tail d' = length (pending rx d)" by (rule dec_compact_Some [OF assms(2)])
  then have "ensure_writable (shell_at s rx d) = Some (Ok () :: ('e, unit) outcome, shell_at s rx' d')"
    using False assms(3) by (simp add: ensure_writable_def then_do_def sh_compact_def ret_def)
  then show thesis using that c assms(3) by simp
qed

lemma make_frame_ok: "(i = 3 \<longrightarrow> p \<noteq> []) \<Longrightarrow> \<exists>f. make_frame (frame_id_try_from i) p = Inr f"
  by (auto simp: make_frame_def frame_id_try_from_def split: list.splits)

text \<open>A frame is delivered: the next piece of what is coming, and the rest of it is still to come.\<close>

definition delivered :: "usize \<Rightarrow> nat \<Rightarrow> u8 \<Rightarrow> bytes \<Rightarrow> (u8 \<times> bytes) list \<Rightarrow> frame \<Rightarrow> 's shell \<Rightarrow> bool" where
  "delivered cap n i q fs f sh' \<longleftrightarrow> (\<exists>chunk q' bs' v'. make_frame (frame_id_try_from i) chunk = Inr f \<and> q = chunk @ q' \<and>
     (chunk = [] \<longrightarrow> q = []) \<and> shell_reads cap bs' v' sh' \<and> rest_coming v' bs' i q' fs \<and> effort sh' < n)"

definition still_coming :: "usize \<Rightarrow> nat \<Rightarrow> u8 \<Rightarrow> bytes \<Rightarrow> (u8 \<times> bytes) list \<Rightarrow> 's shell \<Rightarrow> bool" where
  "still_coming cap n i q fs sh' \<longleftrightarrow> (\<exists>bs' v'. shell_reads cap bs' v' sh' \<and> frame_coming v' bs' i q fs) \<and> effort sh' \<le> n"

text \<open>A round of \<open>read_frame\<close> while a frame is coming.\<close>

lemma read_round_ends:
  assumes "still_coming cap n i q fs sh" and "5 \<le> cap" and "i = 3 \<longrightarrow> q \<noteq> []"
  shows "succeeds (read_frame_round S x) sh (\<lambda>r sh'.
    (r = Inl () \<and> still_coming cap n i q fs sh' \<and> remaining (shell_session sh') < remaining (shell_session sh)) \<or>
    (\<exists>f. r = Inr f \<and> delivered cap n i q fs f sh'))"
proof -
  obtain bs v where sc: "shell_reads cap bs v sh" "frame_coming v bs i q fs" "effort sh \<le> n" using assms(1) by (auto simp: still_coming_def)
  obtain s rx d where sh: "sh = shell_at s rx d" "streams bs s" "dec_ok rx d" "view rx d = v" "length rx = cap"
    using sc(1) by (auto simp: shell_reads_def)
  obtain d1 where d1: "steps_to rx d d1" by (rule try_next_eq [OF sh(3)])
  obtain r v1 where np: "next_piece cap v = (r, v1)" by (metis prod.exhaust)
  have st: "try_next_raw_ref rx d = Some (Inr r, d1)" "dec_ok rx d1" "view rx d1 = v1"
    using d1 np sh(4,5) by (simp_all add: steps_to_def)
  have pend: "snd (snd v) = pending rx d" "snd (snd v1) = pending rx d1" using sh(4) st(3) by (auto simp: view_def)
  note mv = next_piece_coming [OF sc(2) assms(2), unfolded np moves_on_def prod.case]
  show ?thesis
  proof (cases r)
    case None
    then have c: "frame_coming v1 bs i q fs" "bs \<noteq> []" "length (pending rx d1) < cap" "length (pending rx d1) \<le> length (pending rx d)"
      using mv pend by auto
    obtain rx2 d2 where w: "ensure_writable (shell_at s rx d1) = Some (Ok () :: ('e, unit) outcome, shell_at s rx2 d2)" "dec_ok rx2 d2"
        "view rx2 d2 = v1" "length rx2 = cap" "dec_tail d2 < length rx2"
      using writable_ends [OF sh(2) st(2)] c(3) sh(5) st(3) by metis
    define len where "len = length rx2 - dec_tail d2"
    have "0 < len" using w(5) by (simp add: len_def)
    from read_channel_stream [OF sh(2) this] c(2) obtain e bs' s' where
      e: "channel_read S len (chan s) = Some (Ok e, chan s')" "bs = e @ bs'" "streams bs' s'" "length e \<le> len"
        "remaining s' + length e \<le> remaining s" "remaining s' < remaining s"
      by (auto simp: ends_def)
    define rx3 d3 where "rx3 = blit (dec_tail d2) e rx2" and "d3 = dec_commit (length e) d2"
    have fit: "dec_head d2 \<le> dec_tail d2" "dec_tail d2 + length e \<le> length rx2" using w(2,5) e(4) by (auto simp: dec_ok_def len_def)
    have p3: "pending rx3 d3 = pending rx2 d2 @ e" "dec_ok rx3 d3" "length rx3 = cap"
      using blit_after [OF fit] fit w(4) by (simp_all add: rx3_def d3_def dec_commit_def pending_def dec_ok_def)
    have pend2: "pending rx2 d2 = pending rx d1" using w(3) st(3) by (auto simp: view_def)
    have run: "read_frame_round S x sh = Some (Ok (Inl ()), shell_at s' rx3 d3)"
      using st(1) None w(1) e(1)
      by (simp add: sh(1) read_frame_round_def then_do_def shell_try_next_frame_def try_next_frame_def on_part_def ret_def
          sh_received_def len_def rx3_def d3_def)
    have "view rx3 d3 = (fst v1, fst (snd v1), snd (snd v1) @ e)"
      using w(3) p3(1) by (auto simp: view_def d3_def dec_commit_def)
    moreover have "frame_coming (fst v1, fst (snd v1), snd (snd v1) @ e) bs' i q fs"
      using c(1) e(2) by (cases v1) (auto simp: frame_coming_def rest_coming_def)
    ultimately have "shell_reads cap bs' (view rx3 d3) (shell_at s' rx3 d3) \<and> frame_coming (view rx3 d3) bs' i q fs"
      using e(3) p3(2,3) by (auto simp: shell_reads_def)
    moreover have "effort (shell_at s' rx3 d3) \<le> n" using e(5) c(4) p3(1) pend2 sc(3) by (simp add: effort_def sh(1))
    ultimately have "still_coming cap n i q fs (shell_at s' rx3 d3)" unfolding still_coming_def by blast
    moreover have "remaining (shell_session (shell_at s' rx3 d3)) < remaining (shell_session sh)" using e(6) by (simp add: sh(1))
    ultimately show ?thesis using run unfolding ends_def by blast
  next
    case (Some jc)
    obtain j chunk where jc: "jc = (j, chunk)" by force
    then obtain q' where c: "j = frame_id_try_from i" "length (pending rx d1) < length (pending rx d)" "chunk = [] \<longrightarrow> q = []"
        "q = chunk @ q'" "rest_coming v1 bs i q' fs" using mv pend Some by auto
    obtain f where f: "make_frame j chunk = Inr f" using make_frame_ok [of i chunk] c assms(3) by auto
    have "read_frame_round S x sh = Some (Ok (Inr f), shell_at s rx d1)"
      using st(1) Some jc f by (simp add: sh(1) read_frame_round_def then_do_def shell_try_next_frame_def try_next_frame_def ret_def)
    moreover have "shell_reads cap bs v1 (shell_at s rx d1)" using sh st by (auto simp: shell_reads_def)
    moreover have "effort (shell_at s rx d1) < n" using c(2) sc(3) by (simp add: effort_def sh(1))
    ultimately show ?thesis using f c unfolding ends_def delivered_def by blast
  qed
qed

lemma read_frame_ends:
  assumes "still_coming cap n i q fs sh" and "5 \<le> cap" and "i = 3 \<longrightarrow> q \<noteq> []"
  shows "succeeds (read_frame S) sh (delivered cap n i q fs)"
  unfolding read_frame_def
  by (rule ends_repeat [where I = "\<lambda>_. still_coming cap n i q fs" and m = "\<lambda>_ sh'. remaining (shell_session sh')"],
      rule assms(1), rule ends_mono [OF read_round_ends [OF _ assms(2,3)]]) auto

text \<open>What running a command to its end collects from its frames, up to the exit code.\<close>

end

fun collects :: "(u8 \<times> bytes) list \<Rightarrow> command_output \<Rightarrow> command_output option" where
  "collects [] out = None"
| "collects ((i, p) # fs) out =
     (if i = 1 then collects fs (out\<lparr>out_stdout := out_stdout out @ p\<rparr>)
      else if i = 2 then collects fs (out\<lparr>out_stderr := out_stderr out @ p\<rparr>)
      else if i = 3 then (case p of [] \<Rightarrow> None | code # _ \<Rightarrow> Some (out\<lparr>exit_code := code\<rparr>))
      else collects fs out)"

context channel_stream
begin

text \<open>The next frame to come, if what is to come ends in an exit code.\<close>

lemma collects_next:
  assumes "rest_coming v bs j q fs" and "collects ((j, q) # fs) out = Some res" and "j \<noteq> 3" and "list_all (\<lambda>(_, p). length p < 2 ^ 32) fs"
  obtains i p fs' where "frame_coming v bs i p fs'" and "collects ((i, p) # fs') out = Some res" and "i = 3 \<longrightarrow> p \<noteq> []"
    and "list_all (\<lambda>(_, p). length p < 2 ^ 32) fs'"
proof (cases "q = []")
  case False
  then show thesis using that [of j q fs] assms rest_to_frame(1) [OF assms(1)] by simp
next
  case True
  then have c: "collects fs out = Some res" using assms(2,3) by (simp split: if_splits)
  then obtain i p fs' where fs: "fs = (i, p) # fs'" by (cases fs) auto
  then have "i = 3 \<longrightarrow> p \<noteq> []" using c by auto
  then show thesis using that [of i p fs'] c fs assms(4) rest_to_frame(2) [OF assms(1) True, of i p fs'] by simp
qed

lemma collect_round_ends:
  assumes "still_coming cap n i q fs sh" and "5 \<le> cap" and "i = 3 \<longrightarrow> q \<noteq> []" and "collects ((i, q) # fs) out = Some res"
  shows "succeeds (collect_round S out) sh (\<lambda>r sh'. (r = Inr res \<and> (\<exists>bs v. shell_reads cap bs v sh')) \<or>
    (\<exists>out' q' bs v. r = Inl out' \<and> i \<noteq> 3 \<and> shell_reads cap bs v sh' \<and> rest_coming v bs i q' fs \<and> collects ((i, q') # fs) out' = Some res \<and> effort sh' < n))"
proof -
  obtain f sh' where rf: "read_frame S sh = Some (Ok f, sh')" and "delivered cap n i q fs f sh'"
    using read_frame_ends [OF assms(1-3)] unfolding ends_def by blast
  then obtain chunk q' bs' v' where d: "make_frame (frame_id_try_from i) chunk = Inr f" "q = chunk @ q'" "chunk = [] \<longrightarrow> q = []"
      "shell_reads cap bs' v' sh'" "rest_coming v' bs' i q' fs" "effort sh' < n" unfolding delivered_def by blast
  show ?thesis
  proof (cases "i = 3")
    case True
    obtain code r where q: "chunk = code # r" using d(2,3) assms(3) True by (cases chunk) auto
    then have "f = FrameExit code" using d(1) True by (simp add: make_frame_def frame_id_try_from_def)
    moreover have "res = out\<lparr>exit_code := code\<rparr>" using assms(4) True d(2) q by simp
    ultimately have "collect_round S out sh = Some (Ok (Inr res), sh')" using rf by (simp add: collect_round_def await_do_def ret_def)
    then show ?thesis using d(4) unfolding ends_def by blast
  next
    case False
    have "\<exists>out'. collect_round S out sh = Some (Ok (Inl out'), sh') \<and> collects ((i, q') # fs) out' = Some res"
      using False d(1,2) assms(4) rf
      by (auto simp: collect_round_def await_do_def ret_def make_frame_def frame_id_try_from_def split: if_splits)
    then show ?thesis using False d(4-6) unfolding ends_def by blast
  qed
qed

lemma collect_ends:
  assumes "streams (enc_frames fs @ junk) s" and "5 \<le> length rx" and "list_all (\<lambda>(_, p). length p < 2 ^ 32) fs"
    and "collects fs output_default = Some res"
  shows "succeeds (collect S) (shell_at s rx decoder_new) (\<lambda>out _. out = res)"
proof -
  let ?I = "\<lambda>out sh. \<exists>i q fs. still_coming (length rx) (effort sh) i q fs sh \<and> (i = 3 \<longrightarrow> q \<noteq> []) \<and> collects ((i, q) # fs) out = Some res \<and>
    list_all (\<lambda>(_, p). length p < 2 ^ 32) fs"
  let ?Q = "\<lambda>r sh. r = Ok res \<and> (\<exists>bs v. shell_reads (length rx) bs v sh)"
  have I: "?I out sh" if "shell_reads (length rx) bs v sh" "rest_coming v bs j q fs" "collects ((j, q) # fs) out = Some res" "j \<noteq> 3"
      "list_all (\<lambda>(_, p). length p < 2 ^ 32) fs" for out sh bs v j q fs
    using collects_next [OF that(2-5)] that(1) unfolding still_coming_def by (metis order_refl)
  have "shell_reads (length rx) (enc_frames fs @ junk) (view rx decoder_new) (shell_at s rx decoder_new)"
    using assms(1) by (auto simp: shell_reads_def dec_ok_def decoder_new_def)
  moreover have "rest_coming (view rx decoder_new) (enc_frames fs @ junk) 1 [] fs"
    by (auto simp: rest_coming_def view_def decoder_new_def pending_def)
  ultimately have start: "?I output_default (shell_at s rx decoder_new)" using I assms(3,4) by simp
  have "ends (repeat_do (collect_round S) output_default) (shell_at s rx decoder_new) ?Q"
  proof (rule ends_repeat [where I = ?I and m = "\<lambda>_. effort"])
    show "?I output_default (shell_at s rx decoder_new)" by (rule start)
    fix out sh
    assume "?I out sh"
    then obtain i q fs where c: "still_coming (length rx) (effort sh) i q fs sh" "i = 3 \<longrightarrow> q \<noteq> []" "collects ((i, q) # fs) out = Some res"
      "list_all (\<lambda>(_, p). length p < 2 ^ 32) fs" by blast
    show "ends (collect_round S out) sh (\<lambda>r sh'. (\<exists>out'. r = Ok (Inl out') \<and> ?I out' sh' \<and> effort sh' < effort sh) \<or>
        (\<exists>a. r = Ok (Inr a) \<and> ?Q (Ok a) sh') \<or> (\<exists>e. r = Err e \<and> ?Q (Err e) sh'))"
    proof (rule ends_mono [OF collect_round_ends [OF c(1) assms(2) c(2,3)]], elim exE conjE disjE)
      fix r :: "('e, command_output + command_output) outcome" and a sh' out' q' bs v
      assume a: "r = Ok a" "a = Inl out'" "i \<noteq> 3" "shell_reads (length rx) bs v sh'" "rest_coming v bs i q' fs" "collects ((i, q') # fs) out' = Some res"
        "effort sh' < effort sh"
      show "(\<exists>out'. r = Ok (Inl out') \<and> ?I out' sh' \<and> effort sh' < effort sh) \<or>
          (\<exists>a. r = Ok (Inr a) \<and> ?Q (Ok a) sh') \<or> (\<exists>e. r = Err e \<and> ?Q (Err e) sh')"
        using I [OF a(4,5,6,3) c(4)] a(1,2,7) by simp
    qed blast
  qed
  then obtain sh' bs v where r: "repeat_do (collect_round S) output_default (shell_at s rx decoder_new) = Some (Ok res, sh')"
      "shell_reads (length rx) bs v sh'" unfolding ends_def by blast
  then obtain s' rx' d' where "sh' = shell_at s' rx' d'" "streams bs s'" by (auto simp: shell_reads_def)
  then show ?thesis
    using r(1) close_channel_stream [of bs s']
    by (auto simp: ends_def collect_def close_after_def await_do_def shell_close_def on_part_def of_result_def)
qed

text \<open>With credit for one frame, the input of the command is closed first.\<close>

lemma run_to_exit_ends:
  assumes "streams (enc_frames fs @ junk) s" and "5 \<le> length rx" and "list_all (\<lambda>(_, p). length p < 2 ^ 32) fs"
    and "collects fs output_default = Some res" and "5 \<le> credit s"
  shows "succeeds (run_to_exit S) (shell_at s rx decoder_new) (\<lambda>out _. out = res)"
proof -
  define hdr where "hdr = frame_id_code CloseStdin # u32_to_le 0"
  have "length hdr \<le> credit s" using assms(5) by (simp add: hdr_def)
  from write_channel_stream [OF assms(1) this] obtain s' where
    s': "channel_write S hdr (chan s) = Some (Ok (), chan s')" "streams (enc_frames fs @ junk) s'" by (auto simp: ends_def)
  have fit: "5 \<le> length (blit 0 hdr rx)" using assms(2) by (simp add: hdr_def)
  have "shell_send_frame S CloseStdin [] (shell_at s rx decoder_new) = Some (Ok (), shell_at s' (blit 0 hdr rx) decoder_new)"
    using s'(1) assms(2)
    by (simp add: shell_send_frame_def then_do_def sh_compact_def dec_compact_def decoder_new_def SHELL_HEADER_SIZE_def on_part_def hdr_def Let_def)
  then have "run_to_exit S (shell_at s rx decoder_new) = collect S (shell_at s' (blit 0 hdr rx) decoder_new)"
    by (simp add: run_to_exit_def close_stdin_def await_do_def of_result_def)
  then show ?thesis using collect_ends [OF s'(2) fit assms(3,4)] by (simp add: ends_def)
qed

end



text \<open>A window size always fits its array, and its payload reads back as rows and columns.\<close>

lemma u16_digits:
  "\<exists>ds. format_u32 (ucast (w :: 16 word)) = Some ds \<and> length ds \<le> 5 \<and> dec_value ds = unat w \<and> list_all (\<lambda>d. 48 \<le> d \<and> d \<le> 57) ds"
proof -
  have lt: "unat w < 2 ^ 16" using unsigned_less [of w] by simp
  then have w: "unat (ucast w :: u32) = unat w" by (simp add: unsigned_ucast_eq take_bit_nat_eq_self)
  from lt have "length (dec_digits (unat w)) \<le> 5" by (intro dec_digits_length) (simp add: order.strict_trans)
  then show ?thesis
    using dec_digits_value [of "unat w"] dec_digits_ascii [of _ "unat w"] w
    by (auto simp: format_u32_eq dec_value_def list_all_iff)
qed

lemma window_encode_Some:
  obtains r c where "window_encode w = Some (r @ [120] @ c @ [44, 48, 120, 48, 0])" and "dec_value r = unat (rows w)" and "dec_value c = unat (cols w)"
    and "length r \<le> 5" and "length c \<le> 5"
proof -
  obtain r c where d: "format_u32 (ucast (rows w)) = Some r" "length r \<le> 5" "dec_value r = unat (rows w)"
    "format_u32 (ucast (cols w)) = Some c" "length c \<le> 5" "dec_value c = unat (cols w)"
    using u16_digits [of "rows w"] u16_digits [of "cols w"] by blast
  then have "window_encode w = Some (r @ [120] @ c @ [44, 48, 120, 48, 0])"
    by (simp add: window_encode_def window_push_def WINDOW_MAX_LEN_def)
  then show thesis using that d by blast
qed

end
