(* ===== verification/Channel_Log.thy ===== *)
theory Channel_Log
  imports Session
begin

text \<open>
  What a service puts on the wire: the contract of a channel extended by a log of the data
  written to it.  The connection keeps the extended contract over a transport whose output is
  known; the log is then the data of its write packets.
\<close>

section \<open>The contract\<close>

text \<open>\<open>wrote d s s'\<close>: on the way from \<open>s\<close> to \<open>s'\<close> exactly \<open>d\<close> was written to the channel.\<close>

locale channel_log = channel_stream S ch streams remaining credit
  for S :: "('s, 'e, 'i) session_ops" and ch streams remaining credit +
  fixes wrote :: "bytes \<Rightarrow> 's \<Rightarrow> 's \<Rightarrow> bool"
  assumes wrote_refl [simp]: "wrote [] s s"
    and wrote_trans: "wrote d s s1 \<Longrightarrow> wrote e s1 s2 \<Longrightarrow> wrote (d @ e) s s2"
    and write_wrote: "s_write S ch d s = Some (Ok (), s') \<Longrightarrow> wrote d s s'"
    and read_wrote: "s_read S ch len s = Some (r, s') \<Longrightarrow> wrote [] s s'"
begin

text \<open>Reading leaves the log alone, so it may be carried along with the stream.\<close>

lemma logged_stream: "channel_stream S ch (\<lambda>bs s. streams bs s \<and> wrote d s0 s) remaining (\<lambda>_. 0)"
proof unfold_locales
  show "ends (s_read S ch len) s (\<lambda>r s'.
      (\<exists>e rest. r = Ok e \<and> bs = e @ rest \<and> (streams rest s' \<and> wrote d s0 s') \<and> length e \<le> len \<and>
         remaining s' + length e \<le> remaining s \<and> remaining s' < remaining s) \<or>
      r = Err ChannelClosed \<and> bs = [] \<and> streams [] s' \<and> wrote d s0 s')"
    if "streams bs s \<and> wrote d s0 s" "0 < len" for bs s len
  proof -
    have "wrote d s0 s'" if "s_read S ch len s = Some (r, s')" for r s'
      using wrote_trans [of d s0 s "[]" s'] read_wrote [OF that] \<open>streams bs s \<and> wrote d s0 s\<close> by simp
    then show ?thesis using read_stream [of bs s len] that unfolding ends_def by blast
  qed
  show "succeeds (s_write S ch e) s (\<lambda>_ s'. (streams bs s' \<and> wrote d s0 s') \<and> remaining s' = remaining s \<and> 0 + length e = 0)"
    if st: "streams bs s \<and> wrote d s0 s" "length e \<le> 0" for bs s e
  proof -
    have "e = []" using st by simp
    obtain s' where "s_write S ch [] s = Some (Ok (), s')" "streams bs s'" "remaining s' = remaining s"
      using write_stream [of bs s "[]"] st by (auto simp: ends_def)
    moreover have "wrote d s0 s'" using wrote_trans [of d s0 s "[]" s'] write_wrote [OF calculation(1)] st by simp
    ultimately show ?thesis using \<open>e = []\<close> by (simp add: ends_def)
  qed
  show "succeeds (s_close S ch) s (\<lambda>_ _. True)" if "streams bs s \<and> wrote d s0 s" for bs s
    using close_stream that by blast
qed

lemma write_logged:
  assumes "streams bs s" and "length e \<le> credit s" and "wrote d s0 s"
  shows "succeeds (channel_write S e) (chan s) (\<lambda>_ c. \<exists>s'. c = chan s' \<and> streams bs s' \<and> wrote (d @ e) s0 s' \<and>
    credit s' + length e = credit s)"
proof -
  obtain s' where s': "s_write S ch e s = Some (Ok (), s')" "streams bs s'" "credit s' + length e = credit s"
    using write_stream [OF assms(1,2)] by (auto simp: ends_def)
  then have "wrote (d @ e) s0 s'" using wrote_trans [OF assms(3) write_wrote] by blast
  then show ?thesis using s' by (simp add: channel_write_def ends_def on_part_def)
qed

end

section \<open>The connection keeps it\<close>

definition conn_wrote :: "('t \<Rightarrow> bytes) \<Rightarrow> channel_id \<Rightarrow> bytes \<Rightarrow> 't connection \<Rightarrow> 't connection \<Rightarrow> bool" where
  "conn_wrote out ch d c c' \<longleftrightarrow> conn_neg c' = conn_neg c \<and> (\<exists>xs. out (transport c') = out (transport c) @ emitted (conn_checksum c) xs \<and>
     whole_writes xs \<and> concat (map data (chunks xs)) = d \<and> (\<forall>p \<in> set (chunks xs). arg0 p = ch_local ch))"

lemma conn_wrote_refl: "conn_wrote out ch [] c c"
  by (auto simp: conn_wrote_def intro!: exI [of _ "[]"])

lemma conn_wrote_trans:
  assumes "conn_wrote out ch d c c1" and "conn_wrote out ch e c1 c2"
  shows "conn_wrote out ch (d @ e) c c2"
proof -
  obtain xs ys where x: "out (transport c1) = out (transport c) @ emitted (conn_checksum c) xs" "whole_writes xs" "concat (map data (chunks xs)) = d"
      "\<forall>p \<in> set (chunks xs). arg0 p = ch_local ch"
    and y: "out (transport c2) = out (transport c1) @ emitted (conn_checksum c1) ys" "whole_writes ys" "concat (map data (chunks ys)) = e"
      "\<forall>p \<in> set (chunks ys). arg0 p = ch_local ch"
    and n: "conn_neg c1 = conn_neg c" "conn_neg c2 = conn_neg c1"
    using assms unfolding conn_wrote_def by blast
  have "conn_checksum c1 = conn_checksum c" using n by (simp add: conn_checksum_def)
  then show ?thesis unfolding conn_wrote_def using x y n by (intro conjI exI [of _ "xs @ ys"]) auto
qed

lemma replies_wrote: "only_replies out c c' \<Longrightarrow> conn_wrote out ch [] c c'"
  unfolding only_replies_def conn_wrote_def by (auto simp: whole_writes_def chunks_def filter_empty_conv)

context sink
begin

lemma okay_if_replies: "only_replies out c0 c \<Longrightarrow> only_replies out c0 (snd (okay_if io ack c))"
proof -
  assume c: "only_replies out c0 c"
  have "only_replies out c (snd (send_okay io a c))" for a
  proof -
    obtain r c' where "send_encoded io Ready (ids_local (ack_ids a)) (ids_remote (ack_ids a)) (okay_payload a (ack_mode_of (conn_neg c))) (conn_checksum c) c = (r, c')"
      by force
    with send_replies [OF this] show ?thesis by (simp add: send_defs)
  qed
  then show ?thesis unfolding okay_if_def using c
    by (auto split: option.split intro!: awaited_keeps [where P = "only_replies out c0"] intro: only_replies_trans)
qed

lemma take_replies:
  assumes "only_replies out c0 c"
  shows "only_replies out c0 (snd (conn_take_buffered io ch len c))"
  unfolding conn_take_buffered_def
proof (rule and_then_keeps, goal_cases)
  case 1
  then show ?case using assms by simp
next
  case (2 a c1)
  show ?case
  proof (cases "table_get (table c1) ch")
    case (Some s)
    obtain ack s1 where "settle_take len s = (ack, s1)" by force
    then show ?thesis using Some 2(2)
      by (auto simp: take_now_def split: option.split prod.split sum.split
          intro!: and_then_keeps [where P = "only_replies out c0"] okay_if_replies intro: only_replies_table)
  qed (use 2 in simp)
qed

lemma recv_data_replies:
  assumes "recv_data io never True ch len c = Some (r, c')"
  shows "only_replies out c c'"
proof -
  have direct: "only_replies out c (snd (deliver_direct io ch d c1))" if "only_replies out c c1" for d c1
    using that unfolding deliver_direct_def
    by (auto split: option.split prod.split intro!: and_then_keeps [where P = "only_replies out c"] okay_if_replies only_replies_table)
  have other: "only_replies out c (snd (dispatch_and_take io ch len p c1))" if "only_replies out c c1" for p c1
    using that unfolding dispatch_and_take_def
    by (intro awaited_keeps [where P = "only_replies out c"]) (auto intro: take_replies only_replies_trans [OF _ dispatch_replies])
  have round: "only_replies out c (snd (recv_data_round io never True ch ids len c1))" if "only_replies out c c1" for ids c1
    unfolding recv_data_round_def
  proof (rule try_in_keeps [where P = "only_replies out c"], goal_cases)
    case 1
    obtain r c2 where "recv_pkt_or io never True (inbound_limit c1) c1 = (r, c2)" by force
    then show ?case using only_replies_trans [OF that recv_or_replies] by simp
  next
    case (2 a c2)
    then show ?case
      by (auto split: received.split intro!: direct only_replies_close try_in_keeps [where P = "only_replies out c"] other)
  qed
  from assms have "only_replies out c (snd (r, c'))" unfolding recv_data_def
  proof (rule loop_then_keeps, goal_cases)
    case 1
    then show ?case by (simp add: take_replies)
  next
    case (2 a c1)
    then show ?case using looping_keeps [of _ c1 "(r, c')" "only_replies out c"] round
      by (auto split: option.splits sum.splits)
  qed
  then show ?thesis by simp
qed

lemma read_replies:
  assumes "read_channel io ch len c = Some (r, c')"
  shows "only_replies out c c'"
proof -
  obtain q where q: "recv_data io never True ch len c = Some q" using assms by (auto simp: read_channel_def bind_eq_Some_conv)
  then have "c' = snd q" using assms by (cases q) (auto simp: read_channel_def loop_then_def split: outcome.splits select_result.splits)
  then show ?thesis using recv_data_replies [of ch len c "fst q" "snd q"] q by simp
qed

end

text \<open>A transport that works and whose output is known.\<close>

locale logged_wire = live_wire io inp alive + sink io out
  for io :: "('t, 'e) transport_ops" and inp alive out

sublocale logged_wire \<subseteq> conn_log: channel_log "conn_session io" ch "conn_streams inp alive ch" "conn_remaining inp ch" "conn_credit ch"
  "conn_wrote out ch" for ch
proof (intro channel_log.intro conn_stream channel_log_axioms.intro)
  show "conn_wrote out ch [] c c" for c by (rule conn_wrote_refl)
  show "conn_wrote out ch (d @ e) c c2" if "conn_wrote out ch d c c1" "conn_wrote out ch e c1 c2" for d e c c1 c2
    using that by (rule conn_wrote_trans)
  show "conn_wrote out ch d c c'" if "s_write (conn_session io) ch d c = Some (Ok (), c')" for d c c'
  proof -
    have w: "write_channel io ch d c = Some (Ok (), c')" using that by (simp add: conn_session_def)
    show ?thesis
    proof (cases "d = []")
      case True
      then have "c' = c" using w by (auto simp: write_channel_def check_desync_def loop_then_def split: if_splits)
      then show ?thesis using True by (simp add: conn_wrote_refl)
    next
      case False
      then have l: "write_loop io ch d c = Some (Ok (), c')"
        using w by (auto simp: write_channel_def check_desync_def loop_then_def split: if_splits)
      have "conn_neg c' = conn_neg c" using turns_fixed(1) [OF turns_write_loop [OF l rtranclp.rtrancl_refl]] by simp
      then show ?thesis using write_loop_pieces [OF l] by (auto simp: conn_wrote_def)
    qed
  qed
  show "conn_wrote out ch [] c c'" if "s_read (conn_session io) ch len c = Some (r, c')" for len c r c'
    using that by (intro replies_wrote read_replies) (simp add: conn_session_def)
qed

context logged_wire
begin

lemma conn_logged: "channel_log (conn_session io) ch (conn_streams inp alive ch) (conn_remaining inp ch) (conn_credit ch) (conn_wrote out ch)"
  by (rule conn_log.channel_log_axioms)

end

interpretation mock_logged: logged_wire mock_io inbound healthy sent_bytes
  by (intro logged_wire.intro mock_wire.live_wire_axioms mock_sink.sink_axioms)

end
