(* ===== verification/Sync_Service.thy ===== *)
theory Sync_Service
  imports Recv_Buf Destination Channel_Log
begin

text \<open>
  The file service (\<open>sync.rs\<close>, \<open>sync/format.rs\<close>): stat, list, pull and push over a channel to
  \<open>sync:\<close>.  Every message has an eight-byte header, an id and a number, and the session reads
  records out of a receive buffer.
\<close>

section \<open>The format\<close>

definition SYNC_HEADER_SIZE :: usize where
  "SYNC_HEADER_SIZE = 8"

definition SYNC_DATA_MAX :: usize where
  "SYNC_DATA_MAX = 64 * 1024"

datatype sync_id = IdStat | IdSta2 | IdList | IdLis2 | IdSend | IdSnd2 | IdRecv | IdRcv2 | IdData | IdDone
  | IdOkay | IdFail | IdDent | IdDnt2 | IdQuit

definition sync_id_all :: "sync_id list" where
  "sync_id_all = [IdStat, IdSta2, IdList, IdLis2, IdSend, IdSnd2, IdRecv, IdRcv2, IdData, IdDone, IdOkay, IdFail,
     IdDent, IdDnt2, IdQuit]"

fun sync_id_bytes :: "sync_id \<Rightarrow> bytes" where
  "sync_id_bytes IdStat = lit ''STAT''"
| "sync_id_bytes IdSta2 = lit ''STA2''"
| "sync_id_bytes IdList = lit ''LIST''"
| "sync_id_bytes IdLis2 = lit ''LIS2''"
| "sync_id_bytes IdSend = lit ''SEND''"
| "sync_id_bytes IdSnd2 = lit ''SND2''"
| "sync_id_bytes IdRecv = lit ''RECV''"
| "sync_id_bytes IdRcv2 = lit ''RCV2''"
| "sync_id_bytes IdData = lit ''DATA''"
| "sync_id_bytes IdDone = lit ''DONE''"
| "sync_id_bytes IdOkay = lit ''OKAY''"
| "sync_id_bytes IdFail = lit ''FAIL''"
| "sync_id_bytes IdDent = lit ''DENT''"
| "sync_id_bytes IdDnt2 = lit ''DNT2''"
| "sync_id_bytes IdQuit = lit ''QUIT''"

definition sync_id_from_bytes :: "bytes \<Rightarrow> sync_id option" where
  "sync_id_from_bytes bs = find (\<lambda>i. sync_id_bytes i = bs) sync_id_all"

definition STAT_V1_SIZE :: usize where "STAT_V1_SIZE = 16"
definition STAT_V2_SIZE :: usize where "STAT_V2_SIZE = 72"
definition DENT_V1_SIZE :: usize where "DENT_V1_SIZE = 20"
definition DENT_V2_SIZE :: usize where "DENT_V2_SIZE = 76"

text \<open>A file mode is its number.\<close>

type_synonym file_mode = u32

record stat_v1 =
  v1_mode :: file_mode
  v1_size :: u32
  v1_mtime :: u32

text \<open>The times are signed.\<close>

record stat_v2 =
  st_error :: u32
  st_dev :: u64
  st_ino :: u64
  st_mode :: file_mode
  st_nlink :: u32
  st_uid :: u32
  st_gid :: u32
  st_size :: u64
  st_atime :: int
  st_mtime :: int
  st_ctime :: int

record dir_entry =
  de_name :: bytes
  de_mode :: file_mode
  de_size :: u32
  de_mtime :: u32

record dir_entry_v2 =
  de2_name :: bytes
  de2_stat :: stat_v2

type_synonym sync_flags = u32

definition FLAGS_NONE :: sync_flags where "FLAGS_NONE = 0"
definition BROTLI :: sync_flags where "BROTLI = 1"
definition LZ4 :: sync_flags where "LZ4 = 2"
definition ZSTD :: sync_flags where "ZSTD = 4"
definition DRY_RUN :: sync_flags where "DRY_RUN = 0x80000000"

definition flags_contains :: "sync_flags \<Rightarrow> sync_flags \<Rightarrow> bool" where
  "flags_contains flags f \<longleftrightarrow> flags AND f = f"

definition i64_at :: "bytes \<Rightarrow> usize \<Rightarrow> int" where
  "i64_at buf off = sint (u64_at buf off)"

definition parse_stat_v2_body :: "bytes \<Rightarrow> stat_v2" where
  "parse_stat_v2_body b = \<lparr>
     st_error = u32_at b 0,
     st_dev = u64_at b 4,
     st_ino = u64_at b 12,
     st_mode = u32_at b 20,
     st_nlink = u32_at b 24,
     st_uid = u32_at b 28,
     st_gid = u32_at b 32,
     st_size = u64_at b 36,
     st_atime = i64_at b 44,
     st_mtime = i64_at b 52,
     st_ctime = i64_at b 60\<rparr>"

section \<open>The session\<close>

definition FLAG_FEATURES :: "(sync_flags \<times> feature) list" where
  "FLAG_FEATURES = [(BROTLI, SendrecvV2Brotli), (LZ4, SendrecvV2Lz4), (ZSTD, SendrecvV2Zstd), (DRY_RUN, SendrecvV2DryRunSend)]"

definition COMPRESSION :: "sync_flags list" where
  "COMPRESSION = [BROTLI, LZ4, ZSTD]"

definition check_path :: "bytes \<Rightarrow> ('s, 'e, unit) proc" where
  "check_path path = (if 0 \<in> set path then raise (SyncFailure InvalidPath) else ret ())"

record 's sync_session =
  sy_channel :: "'s channel"
  sy_rx :: recv_window

definition sync_new :: "'s channel \<Rightarrow> bytes \<Rightarrow> 's sync_session option" where
  "sync_new c buf = (if length buf \<ge> SYNC_HEADER_SIZE then Some \<lparr>sy_channel = c, sy_rx = rb_new buf\<rparr> else None)"

text \<open>The session the channel is on, the channel, and the buffer.\<close>

definition sy_require :: "('s, 'e, 'i) session_ops \<Rightarrow> feature \<Rightarrow> ('s sync_session, 'e, unit) proc" where
  "sy_require S f = on_part (\<lambda>y. chan_session (sy_channel y)) (\<lambda>_ y. y) (session_require S f)"

definition sy_write :: "('s, 'e, 'i) session_ops \<Rightarrow> bytes \<Rightarrow> ('s sync_session, 'e, unit) proc" where
  "sy_write S d = on_part sy_channel (\<lambda>c y. y\<lparr>sy_channel := c\<rparr>) (channel_write S d)"

definition sy_fill :: "('s, 'e, 'i) session_ops \<Rightarrow> usize \<Rightarrow> ('s sync_session, 'e, unit) proc" where
  "sy_fill S n = on_part (\<lambda>y. (sy_channel y, sy_rx y)) (\<lambda>(c, b) y. y\<lparr>sy_channel := c, sy_rx := b\<rparr>) (fill_at_least S n)"

definition on_rx :: "(recv_window \<Rightarrow> ('a \<times> recv_window) option) \<Rightarrow> ('s sync_session, 'e, 'a) proc" where
  "on_rx f y = (case f (sy_rx y) of None \<Rightarrow> Some (Panicked, y) | Some (a, b) \<Rightarrow> Some (Ok a, y\<lparr>sy_rx := b\<rparr>))"

definition sy_peek :: "usize \<Rightarrow> ('s sync_session, 'e, bytes) proc" where
  "sy_peek n = on_rx (\<lambda>b. map_option (\<lambda>d. (d, b)) (rb_peek n b))"

definition sy_take :: "usize \<Rightarrow> ('s sync_session, 'e, bytes) proc" where
  "sy_take n = on_rx (rb_take n)"

definition sy_advance :: "usize \<Rightarrow> ('s sync_session, 'e, unit) proc" where
  "sy_advance n = on_rx (\<lambda>b. map_option (\<lambda>b. ((), b)) (rb_advance n b))"

definition sy_compact :: "('s sync_session, 'e, unit) proc" where
  "sy_compact = on_rx (\<lambda>b. map_option (\<lambda>b. ((), b)) (rb_compact b))"

definition peek_u32 :: "usize \<Rightarrow> ('s sync_session, 'e, u32) proc" where
  "peek_u32 offset = then_do (sy_peek (offset + 4)) (\<lambda>d. ret (u32_at d offset))"

primrec require_flags :: "('s, 'e, 'i) session_ops \<Rightarrow> sync_flags \<Rightarrow> (sync_flags \<times> feature) list \<Rightarrow> ('s sync_session, 'e, unit) proc" where
  "require_flags S flags [] = ret ()"
| "require_flags S flags (ff # ffs) =
     then_do (if flags_contains flags (fst ff) then sy_require S (snd ff) else ret ()) (\<lambda>_. require_flags S flags ffs)"

definition require_sendrecv_v2 :: "('s, 'e, 'i) session_ops \<Rightarrow> sync_flags \<Rightarrow> ('s sync_session, 'e, unit) proc" where
  "require_sendrecv_v2 S flags =
     (if length (filter (flags_contains flags) COMPRESSION) > 1 then raise (SyncFailure (InvalidFlags flags))
      else then_do (sy_require S SendrecvV2) (\<lambda>_. require_flags S flags FLAG_FEATURES))"

definition write_header :: "('s, 'e, 'i) session_ops \<Rightarrow> sync_id \<Rightarrow> u32 \<Rightarrow> ('s sync_session, 'e, unit) proc" where
  "write_header S i arg = sy_write S (sync_id_bytes i @ u32_to_le arg)"

primrec write_parts :: "('s, 'e, 'i) session_ops \<Rightarrow> bytes list \<Rightarrow> ('s sync_session, 'e, unit) proc" where
  "write_parts S [] = ret ()"
| "write_parts S (p # ps) = then_do (if p \<noteq> [] then sy_write S p else ret ()) (\<lambda>_. write_parts S ps)"

text \<open>
  The message goes out in one write when the free part of the buffer can hold it, put
  together there.
\<close>

definition write_message :: "('s, 'e, 'i) session_ops \<Rightarrow> sync_id \<Rightarrow> u32 \<Rightarrow> bytes list \<Rightarrow> ('s sync_session, 'e, unit) proc" where
  "write_message S i arg parts =
     (let whole = SYNC_HEADER_SIZE + sum_list (map length parts) in
      then_do sy_compact (\<lambda>_ y.
        let b = sy_rx y in
        if whole \<le> rb_window b then
          let b = b\<lparr>rb_buf := blit (rb_tail b) (sync_id_bytes i @ u32_to_le arg @ concat parts) (rb_buf b)\<rparr> in
          sy_write S (take whole (drop (rb_tail b) (rb_buf b))) (y\<lparr>sy_rx := b\<rparr>)
        else then_do (write_header S i arg) (\<lambda>_. write_parts S parts) y))"

definition write_request :: "('s, 'e, 'i) session_ops \<Rightarrow> sync_id \<Rightarrow> bytes list \<Rightarrow> ('s sync_session, 'e, unit) proc" where
  "write_request S i parts = write_message S i (of_nat (sum_list (map length parts))) parts"

definition skip_round :: "('s, 'e, 'i) session_ops \<Rightarrow> usize \<Rightarrow> ('s sync_session, 'e, usize + unit) proc" where
  "skip_round S left y =
     (if left > 0 then
        let chunk = min left (rb_capacity (sy_rx y)) in
        then_do (sy_fill S chunk) (\<lambda>_. then_do (sy_advance chunk) (\<lambda>_. ret (Inl (left - chunk)))) y
      else ret (Inr ()) y)"

definition read_fail_body :: "('s, 'e, 'i) session_ops \<Rightarrow> ('s sync_session, 'e, bytes) proc" where
  "read_fail_body S = then_do (peek_u32 4) (\<lambda>len. let msg_len = unat len in
     then_do (sy_advance SYNC_HEADER_SIZE) (\<lambda>_ y. let kept = min msg_len (rb_capacity (sy_rx y)) in
       then_do (if kept > 0 then sy_fill S kept else ret ()) (\<lambda>_.
       then_do (sy_take kept) (\<lambda>msg.
       then_do (repeat_do (skip_round S) (msg_len - kept)) (\<lambda>_. ret msg))) y))"

definition read_next_id :: "('s, 'e, 'i) session_ops \<Rightarrow> sync_id list \<Rightarrow> ('s sync_session, 'e, sync_id) proc" where
  "read_next_id S allowed =
     then_do (sy_fill S SYNC_HEADER_SIZE) (\<lambda>_.
     then_do (sy_peek 4) (\<lambda>raw. case sync_id_from_bytes raw of
         Some i \<Rightarrow> if i = IdFail then then_do (read_fail_body S) (\<lambda>msg. raise (SyncFailure (SyncFailed msg)))
           else if i \<in> set allowed then ret i
           else raise (SyncFailure (UnexpectedId raw))
       | None \<Rightarrow> raise (SyncFailure (UnexpectedId raw))))"

subsection \<open>Stat and list\<close>

definition sync_stat :: "('s, 'e, 'i) session_ops \<Rightarrow> bytes \<Rightarrow> ('s sync_session, 'e, stat_v1) proc" where
  "sync_stat S path =
     then_do (check_path path) (\<lambda>_. then_do sy_compact (\<lambda>_.
     then_do (write_request S IdStat [path]) (\<lambda>_. then_do (read_next_id S [IdStat]) (\<lambda>_.
     then_do (sy_fill S STAT_V1_SIZE) (\<lambda>_.
     then_do (peek_u32 4) (\<lambda>mode. then_do (peek_u32 8) (\<lambda>sz. then_do (peek_u32 12) (\<lambda>mtime.
     then_do (sy_advance STAT_V1_SIZE) (\<lambda>_. ret \<lparr>v1_mode = mode, v1_size = sz, v1_mtime = mtime\<rparr>)))))))))"

definition sync_stat_v2 :: "('s, 'e, 'i) session_ops \<Rightarrow> bytes \<Rightarrow> ('s sync_session, 'e, stat_v2) proc" where
  "sync_stat_v2 S path =
     then_do (check_path path) (\<lambda>_. then_do (sy_require S StatV2) (\<lambda>_. then_do sy_compact (\<lambda>_.
     then_do (write_request S IdSta2 [path]) (\<lambda>_. then_do (read_next_id S [IdSta2]) (\<lambda>_.
     then_do (sy_fill S STAT_V2_SIZE) (\<lambda>_.
     then_do (sy_peek STAT_V2_SIZE) (\<lambda>d. let stat = parse_stat_v2_body (drop 4 d) in
     then_do (sy_advance STAT_V2_SIZE) (\<lambda>_.
       if st_error stat \<noteq> 0 then raise (SyncFailure (RemoteErrno (st_error stat))) else ret stat))))))))"

definition list_round :: "('s, 'e, 'i) session_ops \<Rightarrow> dir_entry list \<Rightarrow> ('s sync_session, 'e, dir_entry list + dir_entry list) proc" where
  "list_round S entries = then_do (read_next_id S [IdDent, IdDone]) (\<lambda>i.
     if i = IdDone then
       then_do (sy_fill S DENT_V1_SIZE) (\<lambda>_. then_do (sy_advance DENT_V1_SIZE) (\<lambda>_. ret (Inr entries)))
     else
       then_do (sy_fill S DENT_V1_SIZE) (\<lambda>_.
       then_do (peek_u32 4) (\<lambda>mode. then_do (peek_u32 8) (\<lambda>sz. then_do (peek_u32 12) (\<lambda>mtime. then_do (peek_u32 16) (\<lambda>namelen.
       then_do (sy_advance DENT_V1_SIZE) (\<lambda>_.
       then_do (sy_fill S (unat namelen)) (\<lambda>_. then_do (sy_take (unat namelen)) (\<lambda>name.
       ret (Inl (entries @ [\<lparr>de_name = name, de_mode = mode, de_size = sz, de_mtime = mtime\<rparr>])))))))))))"

definition sync_list :: "('s, 'e, 'i) session_ops \<Rightarrow> bytes \<Rightarrow> ('s sync_session, 'e, dir_entry list) proc" where
  "sync_list S path =
     then_do (check_path path) (\<lambda>_. then_do sy_compact (\<lambda>_.
     then_do (write_request S IdList [path]) (\<lambda>_. repeat_do (list_round S) [])))"

definition list_v2_round :: "('s, 'e, 'i) session_ops \<Rightarrow> dir_entry_v2 list \<Rightarrow>
    ('s sync_session, 'e, dir_entry_v2 list + dir_entry_v2 list) proc" where
  "list_v2_round S entries = then_do (read_next_id S [IdDnt2, IdDone]) (\<lambda>i.
     if i = IdDone then
       then_do (sy_fill S DENT_V2_SIZE) (\<lambda>_. then_do (sy_advance DENT_V2_SIZE) (\<lambda>_. ret (Inr entries)))
     else
       then_do (sy_fill S DENT_V2_SIZE) (\<lambda>_.
       then_do (sy_peek STAT_V2_SIZE) (\<lambda>d. let stat = parse_stat_v2_body (drop 4 d) in
       then_do (peek_u32 72) (\<lambda>namelen.
       then_do (sy_advance DENT_V2_SIZE) (\<lambda>_.
       then_do (sy_fill S (unat namelen)) (\<lambda>_. then_do (sy_take (unat namelen)) (\<lambda>name.
       ret (Inl (entries @ [\<lparr>de2_name = name, de2_stat = stat\<rparr>])))))))))"

definition sync_list_v2 :: "('s, 'e, 'i) session_ops \<Rightarrow> bytes \<Rightarrow> ('s sync_session, 'e, dir_entry_v2 list) proc" where
  "sync_list_v2 S path =
     then_do (check_path path) (\<lambda>_. then_do (sy_require S LsV2) (\<lambda>_. then_do sy_compact (\<lambda>_.
     then_do (write_request S IdLis2 [path]) (\<lambda>_. repeat_do (list_v2_round S) []))))"

subsection \<open>Pull\<close>

definition recv_start :: "('s, 'e, 'i) session_ops \<Rightarrow> bytes \<Rightarrow> ('s sync_session, 'e, unit) proc" where
  "recv_start S path = then_do (check_path path) (\<lambda>_. then_do sy_compact (\<lambda>_. write_request S IdRecv [path]))"

definition recv_v2_start :: "('s, 'e, 'i) session_ops \<Rightarrow> bytes \<Rightarrow> sync_flags \<Rightarrow> ('s sync_session, 'e, unit) proc" where
  "recv_v2_start S path flags =
     then_do (check_path path) (\<lambda>_.
     then_do (if flags_contains flags DRY_RUN then raise (SyncFailure (InvalidFlags flags)) else ret ()) (\<lambda>_.
     then_do (require_sendrecv_v2 S flags) (\<lambda>_.
       write_message S IdRcv2 (of_nat (length path)) [path, sync_id_bytes IdRcv2, u32_to_le flags])))"

definition recv_next :: "('s, 'e, 'i) session_ops \<Rightarrow> ('s sync_session, 'e, bytes option) proc" where
  "recv_next S =
     then_do sy_compact (\<lambda>_.
     then_do (read_next_id S [IdData, IdDone]) (\<lambda>i.
       if i = IdDone then then_do (sy_advance SYNC_HEADER_SIZE) (\<lambda>_. ret None)
       else then_do (peek_u32 4) (\<lambda>len. let data_len = unat len in
         then_do (of_result (case checked_add SYNC_HEADER_SIZE data_len of Some n \<Rightarrow> Inr n | None \<Rightarrow> Inl ReceiveBufferFull)) (\<lambda>chunk_len.
         then_do (sy_fill S chunk_len) (\<lambda>_. then_do (sy_advance SYNC_HEADER_SIZE) (\<lambda>_.
         then_do (sy_take data_len) (\<lambda>d. ret (Some d))))))))"

definition recv_round :: "('s, 'e, 'i) session_ops \<Rightarrow> bytes \<Rightarrow> ('s sync_session, 'e, bytes + bytes) proc" where
  "recv_round S out = then_do (recv_next S) (\<lambda>r. case r of Some d \<Rightarrow> ret (Inl (out @ d)) | None \<Rightarrow> ret (Inr out))"

definition sync_recv :: "('s, 'e, 'i) session_ops \<Rightarrow> bytes \<Rightarrow> ('s sync_session, 'e, bytes) proc" where
  "sync_recv S path = then_do (recv_start S path) (\<lambda>_. repeat_do (recv_round S) [])"

definition sync_recv_v2 :: "('s, 'e, 'i) session_ops \<Rightarrow> bytes \<Rightarrow> sync_flags \<Rightarrow> ('s sync_session, 'e, bytes) proc" where
  "sync_recv_v2 S path flags = then_do (recv_v2_start S path flags) (\<lambda>_. repeat_do (recv_round S) [])"

subsection \<open>Push\<close>

definition send_start :: "('s, 'e, 'i) session_ops \<Rightarrow> bytes \<Rightarrow> file_mode \<Rightarrow> ('s sync_session, 'e, unit) proc" where
  "send_start S path mode =
     then_do (check_path path) (\<lambda>_. then_do (or_panic (format_u32 mode)) (\<lambda>mode_str.
       write_request S IdSend [path, lit '','', mode_str]))"

definition send_v2_start :: "('s, 'e, 'i) session_ops \<Rightarrow> bytes \<Rightarrow> file_mode \<Rightarrow> sync_flags \<Rightarrow> ('s sync_session, 'e, unit) proc" where
  "send_v2_start S path mode flags =
     then_do (check_path path) (\<lambda>_.
     then_do (require_sendrecv_v2 S flags) (\<lambda>_.
       write_message S IdSnd2 (of_nat (length path)) [path, sync_id_bytes IdSnd2, u32_to_le mode, u32_to_le flags]))"

text \<open>\<open>data.chunks(n)\<close>.\<close>

fun chunks_of :: "usize \<Rightarrow> 'a list \<Rightarrow> 'a list list" where
  "chunks_of n xs = (if xs = [] \<or> n = 0 then [] else take n xs # chunks_of n (drop n xs))"

primrec send_chunks :: "('s, 'e, 'i) session_ops \<Rightarrow> bytes list \<Rightarrow> ('s sync_session, 'e, unit) proc" where
  "send_chunks S [] = ret ()"
| "send_chunks S (d # ds) = then_do (write_request S IdData [d]) (\<lambda>_. send_chunks S ds)"

definition send_data :: "('s, 'e, 'i) session_ops \<Rightarrow> bytes \<Rightarrow> ('s sync_session, 'e, unit) proc" where
  "send_data S d = send_chunks S (chunks_of SYNC_DATA_MAX d)"

definition send_done :: "('s, 'e, 'i) session_ops \<Rightarrow> u32 \<Rightarrow> ('s sync_session, 'e, unit) proc" where
  "send_done S mtime =
     then_do (write_header S IdDone mtime) (\<lambda>_. then_do sy_compact (\<lambda>_.
     then_do (read_next_id S [IdOkay]) (\<lambda>_. sy_advance SYNC_HEADER_SIZE)))"

definition sync_send :: "('s, 'e, 'i) session_ops \<Rightarrow> bytes \<Rightarrow> file_mode \<Rightarrow> u32 \<Rightarrow> bytes \<Rightarrow> ('s sync_session, 'e, unit) proc" where
  "sync_send S path mode mtime d =
     then_do (send_start S path mode) (\<lambda>_. then_do (send_data S d) (\<lambda>_. send_done S mtime))"

definition sync_send_v2 :: "('s, 'e, 'i) session_ops \<Rightarrow> bytes \<Rightarrow> file_mode \<Rightarrow> u32 \<Rightarrow> sync_flags \<Rightarrow> bytes \<Rightarrow> ('s sync_session, 'e, unit) proc" where
  "sync_send_v2 S path mode mtime flags d =
     then_do (send_v2_start S path mode flags) (\<lambda>_. then_do (send_data S d) (\<lambda>_. send_done S mtime))"

subsection \<open>Opening and ending\<close>

text \<open>\<open>sent.and(closed)\<close>.\<close>

definition result_and :: "'e error + 'a \<Rightarrow> 'e error + 'b \<Rightarrow> 'e error + 'b" where
  "result_and a b = (case a of Inl e \<Rightarrow> Inl e | Inr _ \<Rightarrow> b)"

definition sync_quit :: "('s, 'e, 'i) session_ops \<Rightarrow> ('s sync_session, 'e, unit) proc" where
  "sync_quit S = await_do (write_header S IdQuit 0) (\<lambda>r.
     let sent = (case r of Inl ChannelClosed \<Rightarrow> Inr () | _ \<Rightarrow> r) in
     await_do (on_part sy_channel (\<lambda>c y. y\<lparr>sy_channel := c\<rparr>) (channel_close S)) (\<lambda>closed. of_result (result_and sent closed)))"

definition sync_open :: "('s, 'e, 'i) session_ops \<Rightarrow> bytes \<Rightarrow> ('s, 'e, 's sync_session) proc" where
  "sync_open S buf = then_do (session_open S (lit ''sync:'' @ [0])) (\<lambda>c. or_panic (sync_new c buf))"

declare chunks_of.simps [simp del]

section \<open>The session sees a stream of bytes\<close>

lemma sync_id_round_trip [simp]: "sync_id_from_bytes (sync_id_bytes i) = Some i"
  by (cases i) (simp_all add: sync_id_from_bytes_def sync_id_all_def lit_def)

lemma length_sync_id [simp]: "length (sync_id_bytes i) = 4"
  by (cases i) (simp_all add: lit_def)

text \<open>The header of a message.\<close>

definition sync_header :: "sync_id \<Rightarrow> u32 \<Rightarrow> bytes" where
  "sync_header i arg = sync_id_bytes i @ u32_to_le arg"

lemma length_sync_header [simp]: "length (sync_header i arg) = 8"
  by (simp add: sync_header_def)

lemma sync_header_simps [simp]:
  "take 4 (sync_header i arg @ rest) = sync_id_bytes i"
  "u32_at (take 8 (sync_header i arg @ rest)) 4 = arg"
  by (simp_all add: sync_header_def u32_at_def)

context channel_log
begin

text \<open>
  \<open>sees cap bs s0 d k y\<close>: what the session has still to read is \<open>bs\<close>, in its buffer of \<open>cap\<close>
  bytes or to come; since \<open>s0\<close> it wrote \<open>d\<close>, and it may write \<open>k\<close> bytes more.
\<close>

definition sees :: "nat \<Rightarrow> bytes \<Rightarrow> 's \<Rightarrow> bytes \<Rightarrow> nat \<Rightarrow> 's sync_session \<Rightarrow> bool" where
  "sees cap bs s0 d k y \<longleftrightarrow> (\<exists>s b rest. y = \<lparr>sy_channel = chan s, sy_rx = b\<rparr> \<and> rb_ok b \<and> rb_capacity b = cap \<and>
     streams rest s \<and> bs = unread b @ rest \<and> wrote d s0 s \<and> k \<le> credit s)"

text \<open>The first \<open>n\<close> of them are there.\<close>

definition loaded :: "nat \<Rightarrow> 's sync_session \<Rightarrow> bool" where
  "loaded n y \<longleftrightarrow> n \<le> length (unread (sy_rx y))"

lemma fill_sees:
  assumes "sees cap bs s0 d k y" and "n \<le> cap" and "n \<le> length bs"
  shows "succeeds (sy_fill S n) y (\<lambda>_ y'. sees cap bs s0 d 0 y' \<and> loaded n y')"
proof -
  obtain s b rest where y: "y = \<lparr>sy_channel = chan s, sy_rx = b\<rparr>" "rb_ok b" "rb_capacity b = cap" "streams rest s" "bs = unread b @ rest" "wrote d s0 s"
    using assms(1) by (auto simp: sees_def)
  have fit: "n \<le> rb_capacity b" "n \<le> length (unread b @ rest)" using assms(2,3) y(3,5) by simp_all
  have st: "streams rest s \<and> wrote d s0 s" using y(4,6) by simp
  obtain e rest' s' b' where f: "fill_at_least S n (chan s, b) = Some (Ok (), (chan s', b'))" "rest = e @ rest'" "streams rest' s'"
      "wrote d s0 s'" "rb_ok b'" "unread b' = unread b @ e" "rb_capacity b' = rb_capacity b" "n \<le> length (unread b @ e)"
    using channel_stream.fill_ends [OF logged_stream st y(2) fit]
    unfolding channel_stream.filled_def [OF logged_stream] ends_def by auto
  then have "sees cap bs s0 d 0 \<lparr>sy_channel = chan s', sy_rx = b'\<rparr>" "loaded n \<lparr>sy_channel = chan s', sy_rx = b'\<rparr>"
    using y(3,5) by (simp_all add: sees_def loaded_def)
  then show ?thesis using f(1) y(1) by (simp add: sy_fill_def on_part_def ends_def)
qed

lemma on_rx_sees:
  assumes "sees cap bs s0 d k y" and "f (sy_rx y) = Some (a, b')" and "rb_ok b'" and "rb_capacity b' = rb_capacity (sy_rx y)"
    and "unread b' = drop n (unread (sy_rx y))" and "loaded n y"
  shows "succeeds (on_rx f) y (\<lambda>r y'. r = a \<and> sees cap (drop n bs) s0 d k y' \<and> y' = y\<lparr>sy_rx := b'\<rparr>)"
  using assms by (auto simp: on_rx_def ends_def sees_def loaded_def)

lemma take_sees:
  assumes "sees cap bs s0 d k y" and "loaded n y"
  shows "succeeds (sy_take n :: ('s sync_session, 'e, bytes) proc) y (\<lambda>r y'. r = take n bs \<and> sees cap (drop n bs) s0 d k y' \<and> (\<forall>m. loaded (n + m) y \<longrightarrow> loaded m y'))"
proof -
  obtain rest where rb: "rb_ok (sy_rx y)" "bs = unread (sy_rx y) @ rest" using assms(1) by (auto simp: sees_def)
  obtain b' where b': "rb_take n (sy_rx y) = Some (take n (unread (sy_rx y)), b')" "rb_ok b'" "unread b' = drop n (unread (sy_rx y))"
      "rb_capacity b' = rb_capacity (sy_rx y)"
    using rb_take_Some [OF rb(1), of n] assms(2) unfolding loaded_def by blast
  show ?thesis unfolding sy_take_def
    by (rule succeeds_mono [OF on_rx_sees [where f = "rb_take n", OF assms(1) b'(1,2,4,3) assms(2)]])
      (use b'(3) rb(2) assms(2) in \<open>auto simp: loaded_def\<close>)
qed

lemma advance_sees:
  assumes "sees cap bs s0 d k y" and "loaded n y"
  shows "succeeds (sy_advance n :: ('s sync_session, 'e, unit) proc) y (\<lambda>_ y'. sees cap (drop n bs) s0 d k y' \<and> (\<forall>m. loaded (n + m) y \<longrightarrow> loaded m y'))"
proof -
  obtain r y' where "sy_take n y = Some (Ok r :: ('e, bytes) outcome, y')" "sees cap (drop n bs) s0 d k y'" "\<forall>m. loaded (n + m) y \<longrightarrow> loaded m y'"
    using take_sees [OF assms] unfolding ends_def by blast
  moreover from this(1) have "sy_advance n y = Some (Ok () :: ('e, unit) outcome, y')"
    by (auto simp: sy_take_def sy_advance_def on_rx_def rb_advance_def split: option.splits)
  ultimately show ?thesis by (simp add: ends_def)
qed

lemma peek_sees:
  assumes "sees cap bs s0 d k y" and "loaded n y"
  shows "succeeds (sy_peek n) y (\<lambda>r y'. r = take n bs \<and> y' = y)"
proof -
  have "rb_peek n (sy_rx y) = Some (take n bs)"
    using assms rb_peek_Some [of "sy_rx y" n] by (auto simp: sees_def loaded_def)
  then show ?thesis by (simp add: sy_peek_def on_rx_def ends_def)
qed

lemma peek_u32_sees:
  assumes "sees cap bs s0 d k y" and "loaded (off + 4) y"
  shows "succeeds (peek_u32 off) y (\<lambda>r y'. r = u32_at bs off \<and> y' = y)"
proof -
  have "u32_at (take (off + 4) bs) off = u32_at bs off" by (simp add: u32_at_def drop_take)
  then show ?thesis unfolding peek_u32_def
    by (intro ends_then succeeds_mono [OF peek_sees [OF assms]]) (simp add: ends_rules)
qed

lemma compact_sees:
  assumes "sees cap bs s0 d k y"
  shows "succeeds sy_compact y (\<lambda>_ y'. sees cap bs s0 d k y' \<and> (\<forall>n. loaded n y \<longrightarrow> loaded n y'))"
proof -
  have "rb_ok (sy_rx y)" using assms by (auto simp: sees_def)
  then obtain b' where "rb_compact (sy_rx y) = Some b'" "rb_ok b'" "unread b' = unread (sy_rx y)" "rb_capacity b' = rb_capacity (sy_rx y)"
    by (rule rb_compact_Some)
  then show ?thesis using assms by (auto simp: sy_compact_def on_rx_def ends_def sees_def loaded_def)
qed

lemma write_sees:
  assumes "sees cap bs s0 d (length e + k) y"
  shows "succeeds (sy_write S e) y (\<lambda>_ y'. sees cap bs s0 (d @ e) k y')"
proof -
  obtain s b rest where y: "y = \<lparr>sy_channel = chan s, sy_rx = b\<rparr>" "rb_ok b" "rb_capacity b = cap" "streams rest s" "bs = unread b @ rest" "wrote d s0 s"
      "length e + k \<le> credit s"
    using assms by (auto simp: sees_def)
  then have le: "length e \<le> credit s" by simp
  obtain s' where "channel_write S e (chan s) = Some (Ok (), chan s')" "streams rest s'" "wrote (d @ e) s0 s'" "credit s' + length e = credit s"
    using write_logged [OF y(4) le y(6)] unfolding ends_def by auto
  then show ?thesis using y by (auto simp: sy_write_def on_part_def ends_def sees_def)
qed

lemma write_header_sees:
  assumes "sees cap bs s0 d (8 + k) y"
  shows "succeeds (write_header S i arg) y (\<lambda>_ y'. sees cap bs s0 (d @ sync_header i arg) k y')"
  unfolding write_header_def sync_header_def by (rule write_sees) (use assms in simp)

lemma write_parts_sees:
  assumes "sees cap bs s0 d (length (concat ps) + k) y"
  shows "succeeds (write_parts S ps) y (\<lambda>_ y'. sees cap bs s0 (d @ concat ps) k y')"
  using assms
proof (induction ps arbitrary: d y)
  case (Cons p ps)
  have w: "succeeds (if p \<noteq> [] then sy_write S p else ret ()) y (\<lambda>_ y'. sees cap bs s0 (d @ p) (length (concat ps) + k) y')"
    using Cons.prems write_sees [of cap bs s0 d p "length (concat ps) + k" y] by (auto simp: ends_rules add.assoc)
  have "ends (then_do (if p \<noteq> [] then sy_write S p else ret ()) (\<lambda>_. write_parts S ps)) y
      (\<lambda>r y'. \<exists>a. r = Ok a \<and> sees cap bs s0 ((d @ p) @ concat ps) k y')"
    by (intro ends_then succeeds_mono [OF w] Cons.IH)
  then show ?case by simp
qed (simp add: ends_rules)

text \<open>A message goes out whole, whether it fits the free part of the buffer or not.\<close>

lemma write_message_sees:
  assumes "sees cap bs s0 d (8 + length (concat ps) + k) y"
  shows "succeeds (write_message S i arg ps) y (\<lambda>_ y'. sees cap bs s0 (d @ sync_header i arg @ concat ps) k y')"
  unfolding write_message_def Let_def
proof (rule ends_then, rule succeeds_mono [OF compact_sees [OF assms]], goal_cases)
  case (1 _ y)
  define msg where "msg = sync_header i arg @ concat ps"
  have len: "length msg = SYNC_HEADER_SIZE + sum_list (map length ps)" by (simp add: msg_def SYNC_HEADER_SIZE_def length_concat)
  define b where "b = sy_rx y"
  define b' where "b' = b\<lparr>rb_buf := blit (rb_tail b) msg (rb_buf b)\<rparr>"
  show ?case
  proof (cases "length msg \<le> rb_window b")
    case True
    obtain s rest where y: "y = \<lparr>sy_channel = chan s, sy_rx = b\<rparr>" "rb_ok b" "rb_capacity b = cap" "streams rest s" "bs = unread b @ rest" "wrote d s0 s"
        "8 + length (concat ps) + k \<le> credit s"
      using 1 by (auto simp: sees_def b_def)
    have fit: "rb_tail b + length msg \<le> length (rb_buf b)" using True y(2) by (auto simp: rb_window_def rb_ok_def)
    have unread: "unread b' = unread b" using fit y(2) by (simp add: b'_def unread_def blit_def rb_ok_def drop_take min_def)
    have "sees cap bs s0 d (length msg + k) (y\<lparr>sy_rx := b'\<rparr>)"
      using y fit unread by (auto simp: sees_def b'_def rb_ok_def rb_capacity_def msg_def)
    moreover have "take (length msg) (drop (rb_tail b') (rb_buf b')) = msg"
      using fit by (simp add: b'_def blit_def)
    ultimately have w: "succeeds (sy_write S (take (length msg) (drop (rb_tail b') (rb_buf b')))) (y\<lparr>sy_rx := b'\<rparr>) (\<lambda>_ y'. sees cap bs s0 (d @ msg) k y')"
      using write_sees [of cap bs s0 d msg k "y\<lparr>sy_rx := b'\<rparr>"] by simp
    show ?thesis unfolding msg_def [symmetric]
      by (rule ends_at [OF _ w]) (use True in \<open>simp add: len [symmetric] b_def [symmetric] b'_def msg_def sync_header_def\<close>)
  next
    case False
    have w: "succeeds (then_do (write_header S i arg) (\<lambda>_. write_parts S ps)) y (\<lambda>_ y'. sees cap bs s0 (d @ msg) k y')"
    proof (rule ends_then, rule succeeds_mono [OF write_header_sees])
      show "sees cap bs s0 d (8 + (length (concat ps) + k)) y" using 1 by (simp add: add.assoc)
      fix y' assume "sees cap bs s0 (d @ sync_header i arg) (length (concat ps) + k) y'"
      from write_parts_sees [OF this] show "succeeds (write_parts S ps) y' (\<lambda>_ y'. sees cap bs s0 (d @ msg) k y')" by (simp add: msg_def)
    qed
    show ?thesis unfolding msg_def [symmetric]
      by (rule ends_at [OF _ w]) (use False in \<open>simp add: len [symmetric] b_def [symmetric]\<close>)
  qed
qed

lemma write_request_sees:
  assumes "sees cap bs s0 d (8 + length (concat ps) + k) y"
  shows "succeeds (write_request S i ps) y (\<lambda>_ y'. sees cap bs s0 (d @ sync_header i (of_nat (length (concat ps))) @ concat ps) k y')"
  unfolding write_request_def using write_message_sees [OF assms] by (simp add: length_concat)

end

section \<open>What the device sends\<close>

lemma unat_length: "length d < 2 ^ 32 \<Longrightarrow> unat (of_nat (length d) :: u32) = length d"
  by (simp add: unsigned_of_nat take_bit_nat_eq_self)

lemma u32_header [simp]: "u32_at (sync_header i arg @ rest) 4 = arg"
  by (simp add: sync_header_def u32_at_def)

text \<open>A body with its length in the header.\<close>

definition sized :: "sync_id \<Rightarrow> bytes \<Rightarrow> bytes" where
  "sized i body = sync_header i (of_nat (length body)) @ body"

lemma length_sized [simp]: "length (sized i body) = 8 + length body"
  by (simp add: sized_def)

text \<open>How a transfer from the device ends: \<open>DONE\<close>, or \<open>FAIL\<close> with a message.\<close>

datatype ending = Finished u32 | Refused bytes

fun ending_bytes :: "ending \<Rightarrow> bytes" where
  "ending_bytes (Finished x) = sync_header IdDone x"
| "ending_bytes (Refused msg) = sized IdFail msg"

definition pull_bytes :: "bytes list \<Rightarrow> ending \<Rightarrow> bytes" where
  "pull_bytes ds e = concat (map (sized IdData) ds) @ ending_bytes e"

context channel_log
begin

lemma header_loads:
  assumes "sees cap (sync_header i arg @ rest) s0 d k y" and "8 \<le> cap"
    and "\<And>y'. sees cap (sync_header i arg @ rest) s0 d 0 y' \<Longrightarrow> loaded 8 y' \<Longrightarrow> ends (case Some i of
         Some j \<Rightarrow> if j = IdFail then then_do (read_fail_body S) (\<lambda>msg. raise (SyncFailure (SyncFailed msg)))
           else if j \<in> set allowed then ret j
           else raise (SyncFailure (UnexpectedId (sync_id_bytes i)))
       | None \<Rightarrow> raise (SyncFailure (UnexpectedId (sync_id_bytes i)))) y' Q"
  shows "ends (read_next_id S allowed) y Q"
  unfolding read_next_id_def SYNC_HEADER_SIZE_def
proof (rule ends_seq [OF fill_sees [OF assms(1,2)]], simp, elim conjE)
  fix y' assume y': "sees cap (sync_header i arg @ rest) s0 d 0 y'" "loaded 8 y'"
  have l4: "loaded 4 y'" using y'(2) by (simp add: loaded_def)
  show "ends (then_do (sy_peek 4) (\<lambda>raw. case sync_id_from_bytes raw of
       Some i \<Rightarrow> if i = IdFail then then_do (read_fail_body S) (\<lambda>msg. raise (SyncFailure (SyncFailed msg)))
         else if i \<in> set allowed then ret i
         else raise (SyncFailure (UnexpectedId raw))
     | None \<Rightarrow> raise (SyncFailure (UnexpectedId raw)))) y' Q"
    by (rule ends_seq [OF peek_sees [OF y'(1) l4]], elim conjE, hypsubst, unfold sync_header_simps sync_id_round_trip)
      (rule assms(3) [OF y'])
qed

lemma read_id_sees:
  assumes "sees cap (sync_header i arg @ rest) s0 d k y" and "8 \<le> cap" and "i \<in> set allowed" and "i \<noteq> IdFail"
  shows "succeeds (read_next_id S allowed) y (\<lambda>r y'. r = i \<and> sees cap (sync_header i arg @ rest) s0 d 0 y' \<and> loaded 8 y')"
  by (rule header_loads [OF assms(1,2)]) (use assms(3,4) in \<open>simp add: ends_ret\<close>)

text \<open>The body of a \<open>FAIL\<close> is cut to the buffer; the rest of it is skipped.\<close>

lemma skip_round_sees:
  assumes "sees cap (body @ rest) s0 d 0 y" and "0 < cap"
  shows "succeeds (skip_round S (length body)) y (\<lambda>r y'. (r = Inr () \<and> sees cap rest s0 d 0 y') \<or>
    (\<exists>n > 0. r = Inl (length (drop n body)) \<and> body \<noteq> [] \<and> sees cap (drop n body @ rest) s0 d 0 y'))"
proof (cases "body = []")
  case True
  then show ?thesis using assms by (simp add: ends_def skip_round_def ret_def)
next
  case False
  define n where "n = min (length body) cap"
  have cap: "rb_capacity (sy_rx y) = cap" using assms(1) by (auto simp: sees_def)
  have n: "0 < n" "n \<le> cap" "n \<le> length (body @ rest)" "n \<le> length body" using False assms(2) by (simp_all add: n_def)
  have "succeeds (then_do (sy_fill S n) (\<lambda>_. then_do (sy_advance n) (\<lambda>_. ret (Inl (length body - n) :: nat + unit)))) y
    (\<lambda>r y'. r = Inl (length (drop n body)) \<and> sees cap (drop n body @ rest) s0 d 0 y')"
  proof (rule ends_seq [OF fill_sees [OF assms(1) n(2,3)]], elim conjE)
    fix y' assume "sees cap (body @ rest) s0 d 0 y'" "loaded n y'"
    from advance_sees [OF this] show "succeeds (then_do (sy_advance n) (\<lambda>_. ret (Inl (length body - n)) :: ('s sync_session, 'e, nat + unit) proc)) y'
        (\<lambda>r y'. r = Inl (length (drop n body)) \<and> sees cap (drop n body @ rest) s0 d 0 y')"
      by (rule ends_seq) (use n(4) in \<open>simp add: ends_ret\<close>)
  qed
  then have "succeeds (skip_round S (length body)) y (\<lambda>r y'. r = Inl (length (drop n body)) \<and> sees cap (drop n body @ rest) s0 d 0 y')"
    by (rule ends_at [rotated]) (use False cap in \<open>simp add: skip_round_def n_def Let_def\<close>)
  then show ?thesis by (rule succeeds_mono) (use n(1) False in blast)
qed

lemma skip_sees:
  assumes "sees cap (body @ rest) s0 d 0 y" and "0 < cap"
  shows "succeeds (repeat_do (skip_round S) (length body)) y (\<lambda>_ y'. sees cap rest s0 d 0 y')"
  using assms(1)
proof (induction "length body" arbitrary: body y rule: less_induct)
  case less
  show ?case
  proof (rule ends_repeat_step, rule succeeds_mono [OF skip_round_sees [OF less.prems assms(2)]], elim disjE exE conjE)
    fix r y' n assume "0 < n" "r = Inl (length (drop n body))" "body \<noteq> []" "sees cap (drop n body @ rest) s0 d 0 y'"
    then show "case r of Inl x \<Rightarrow> succeeds (repeat_do (skip_round S) x) y' (\<lambda>_ y'. sees cap rest s0 d 0 y') | Inr a \<Rightarrow> \<exists>a'. Ok a = Ok a' \<and> sees cap rest s0 d 0 y'"
      using less.hyps [of "drop n body" y'] by simp
  qed simp
qed

lemma fail_body_sees:
  assumes "sees cap (sized IdFail msg @ rest) s0 d 0 y" and "loaded 8 y" and "0 < cap" and "length msg < 2 ^ 32"
  shows "succeeds (read_fail_body S) y (\<lambda>r y'. r = take cap msg \<and> sees cap rest s0 d 0 y')"
proof -
  define kept where "kept = min (length msg) cap"
  let ?Q = "\<lambda>r y'. r = take cap msg \<and> sees cap rest s0 d 0 y'"
  have hdr: "u32_at (sized IdFail msg @ rest) 4 = of_nat (length msg)" "drop 8 (sized IdFail msg @ rest) = msg @ rest"
    by (simp_all add: sized_def)
  have skip: "succeeds (then_do (repeat_do (skip_round S) (length msg - kept)) (\<lambda>_. ret (take kept (msg @ rest)))) y2 ?Q"
    if "sees cap (drop kept (msg @ rest)) s0 d 0 y2" for y2
  proof -
    have "sees cap (drop kept msg @ rest) s0 d 0 y2" "length (drop kept msg) = length msg - kept" using that by (simp_all add: kept_def)
    then have "succeeds (repeat_do (skip_round S) (length msg - kept)) y2 (\<lambda>_ y'. sees cap rest s0 d 0 y')"
      using skip_sees [of cap "drop kept msg" rest s0 d y2] assms(3) by simp
    then show ?thesis by (rule ends_seq) (simp add: ends_ret kept_def min_def)
  qed
  have keep: "succeeds (then_do (if kept > 0 then sy_fill S kept else ret ()) (\<lambda>_.
      then_do (sy_take kept) (\<lambda>msg'. then_do (repeat_do (skip_round S) (length msg - kept)) (\<lambda>_. ret msg')))) y2 ?Q"
    if y2: "sees cap (msg @ rest) s0 d 0 y2" for y2
  proof (rule ends_seq [where P = "\<lambda>_ y'. sees cap (msg @ rest) s0 d 0 y' \<and> loaded kept y'"])
    show "succeeds (if kept > 0 then sy_fill S kept else ret ()) y2 (\<lambda>_ y'. sees cap (msg @ rest) s0 d 0 y' \<and> loaded kept y')"
      using fill_sees [OF y2, of kept] y2 by (auto simp: kept_def ends_ret loaded_def)
    fix y' assume "sees cap (msg @ rest) s0 d 0 y' \<and> loaded kept y'"
    then show "succeeds (then_do (sy_take kept) (\<lambda>msg'. then_do (repeat_do (skip_round S) (length msg - kept)) (\<lambda>_. ret msg'))) y' ?Q"
      by (elim conjE) (rule ends_seq [OF take_sees], assumption, assumption, elim conjE, hypsubst, rule skip)
  qed
  have l: "loaded (4 + 4) y" "loaded SYNC_HEADER_SIZE y" using assms(2) by (simp_all add: SYNC_HEADER_SIZE_def)
  show ?thesis unfolding read_fail_body_def Let_def
  proof (rule ends_seq [OF peek_u32_sees [OF assms(1) l(1)]], elim conjE, hypsubst, unfold hdr unat_length [OF assms(4)],
      rule ends_seq [OF advance_sees [OF assms(1) l(2)]], elim conjE)
    fix y2 assume "sees cap (drop SYNC_HEADER_SIZE (sized IdFail msg @ rest)) s0 d 0 y2"
    then have y2: "sees cap (msg @ rest) s0 d 0 y2" using hdr(2) by (simp add: SYNC_HEADER_SIZE_def)
    then have "rb_capacity (sy_rx y2) = cap" by (auto simp: sees_def)
    then show "succeeds (\<lambda>y. then_do (if min (length msg) (rb_capacity (sy_rx y)) > 0 then sy_fill S (min (length msg) (rb_capacity (sy_rx y))) else ret ()) (\<lambda>_.
       then_do (sy_take (min (length msg) (rb_capacity (sy_rx y)))) (\<lambda>msg'.
       then_do (repeat_do (skip_round S) (length msg - min (length msg) (rb_capacity (sy_rx y)))) (\<lambda>_. ret msg'))) y) y2 ?Q"
      by (intro ends_at [OF _ keep [OF y2]]) (simp add: kept_def)
  qed
qed

lemma fail_sees:
  assumes "sees cap (sized IdFail msg @ rest) s0 d k y" and "8 \<le> cap" and "length msg < 2 ^ 32"
  shows "ends (read_next_id S allowed) y (\<lambda>r y'. r = Err (SyncFailure (SyncFailed (take cap msg))) \<and> sees cap rest s0 d 0 y')"
proof (rule header_loads)
  show "sees cap (sync_header IdFail (of_nat (length msg)) @ msg @ rest) s0 d k y" using assms(1) by (simp add: sized_def)
  fix y' assume y': "sees cap (sync_header IdFail (of_nat (length msg)) @ msg @ rest) s0 d 0 y'" "loaded 8 y'"
  have "succeeds (read_fail_body S) y' (\<lambda>r y'. r = take cap msg \<and> sees cap rest s0 d 0 y')"
    using fail_body_sees [of cap msg rest s0 d y'] y' assms(2,3) by (simp add: sized_def)
  then show "ends (case Some IdFail of
         Some j \<Rightarrow> if j = IdFail then then_do (read_fail_body S) (\<lambda>msg. raise (SyncFailure (SyncFailed msg)))
           else if j \<in> set allowed then ret j
           else raise (SyncFailure (UnexpectedId (sync_id_bytes IdFail)))
       | None \<Rightarrow> raise (SyncFailure (UnexpectedId (sync_id_bytes IdFail)))) y' (\<lambda>r y'. r = Err (SyncFailure (SyncFailed (take cap msg))) \<and> sees cap rest s0 d 0 y')"
    unfolding option.case simp_thms if_True by (rule ends_seq) (simp add: ends_raise)
qed (use assms(2) in simp)

end

section \<open>Pull\<close>

definition concluded :: "nat \<Rightarrow> 'a \<Rightarrow> ending \<Rightarrow> ('e, 'a) outcome" where
  "concluded cap whole e = (case e of Finished _ \<Rightarrow> Ok whole | Refused msg \<Rightarrow> Err (SyncFailure (SyncFailed (take cap msg))))"

definition refusal_fits :: "ending \<Rightarrow> bool" where
  "refusal_fits e = (case e of Finished _ \<Rightarrow> True | Refused msg \<Rightarrow> length msg < 2 ^ 32)"

context channel_log
begin

lemma recv_next_data:
  assumes "sees cap (sized IdData c @ rest) s0 d k y" and "8 + length c \<le> cap" and "length c < 2 ^ 32"
  shows "succeeds (recv_next S) y (\<lambda>r y'. r = Some c \<and> sees cap rest s0 d 0 y')"
  unfolding recv_next_def
proof (rule ends_seq [OF compact_sees [OF assms(1)]], elim conjE)
  define bs where "bs = sync_header IdData (of_nat (length c)) @ c @ rest"
  have bs: "sized IdData c @ rest = bs" "u32_at bs 4 = of_nat (length c)" "drop 8 bs = c @ rest" "8 + length c \<le> length bs"
    by (simp_all add: sized_def bs_def)
  have ca: "checked_add SYNC_HEADER_SIZE (length c) = Some (8 + length c)" using assms(3) by (simp add: SYNC_HEADER_SIZE_def usize_max_def)
  let ?Q = "\<lambda>r y'. r = Some c \<and> sees cap rest s0 d 0 y'"
  have takes: "succeeds (then_do (sy_advance SYNC_HEADER_SIZE) (\<lambda>_. then_do (sy_take (length c)) (\<lambda>d. ret (Some d) :: ('s sync_session, 'e, bytes option) proc))) y3 ?Q"
    if "sees cap bs s0 d 0 y3" "loaded (8 + length c) y3" for y3
  proof (rule ends_seq [OF advance_sees [OF that(1)]])
    show "loaded SYNC_HEADER_SIZE y3" using that(2) by (simp add: loaded_def SYNC_HEADER_SIZE_def)
    fix y4 assume "sees cap (drop SYNC_HEADER_SIZE bs) s0 d 0 y4 \<and> (\<forall>m. loaded (SYNC_HEADER_SIZE + m) y3 \<longrightarrow> loaded m y4)"
    then have y4: "sees cap (c @ rest) s0 d 0 y4" "loaded (length c) y4" using that(2) bs(3) by (auto simp: SYNC_HEADER_SIZE_def)
    show "succeeds (then_do (sy_take (length c)) (\<lambda>d. ret (Some d) :: ('s sync_session, 'e, bytes option) proc)) y4 ?Q"
      by (rule ends_seq [OF take_sees [OF y4]]) (simp add: ends_ret)
  qed
  fix y1 assume "sees cap (sized IdData c @ rest) s0 d k y1"
  then have y1: "sees cap (sync_header IdData (of_nat (length c)) @ c @ rest) s0 d k y1" by (simp add: sized_def)
  show "succeeds (then_do (read_next_id S [IdData, IdDone]) (\<lambda>i.
       if i = IdDone then then_do (sy_advance SYNC_HEADER_SIZE) (\<lambda>_. ret None)
       else then_do (peek_u32 4) (\<lambda>len. let data_len = unat len in
         then_do (of_result (case checked_add SYNC_HEADER_SIZE data_len of Some n \<Rightarrow> Inr n | None \<Rightarrow> Inl ReceiveBufferFull)) (\<lambda>chunk_len.
         then_do (sy_fill S chunk_len) (\<lambda>_. then_do (sy_advance SYNC_HEADER_SIZE) (\<lambda>_.
         then_do (sy_take data_len) (\<lambda>d. ret (Some d)))))))) y1 ?Q"
  proof (rule ends_seq [OF read_id_sees [OF y1]], use assms(2) in simp, simp, simp, elim conjE, simp add: bs_def [symmetric])
    fix y2 assume y2: "sees cap bs s0 d 0 y2" "loaded 8 y2"
    have l: "loaded (4 + 4) y2" using y2(2) by simp
    show "ends (then_do (peek_u32 4) (\<lambda>len. let data_len = unat len in
         then_do (of_result (case checked_add SYNC_HEADER_SIZE data_len of None \<Rightarrow> Inl ReceiveBufferFull | Some n \<Rightarrow> Inr n)) (\<lambda>chunk_len.
         then_do (sy_fill S chunk_len) (\<lambda>_. then_do (sy_advance SYNC_HEADER_SIZE) (\<lambda>_.
         then_do (sy_take data_len) (\<lambda>d. ret (Some d))))))) y2 (\<lambda>r s'. r = Ok (Some c) \<and> sees cap rest s0 d 0 s')"
    proof (rule ends_seq [OF peek_u32_sees [OF y2(1) l]], elim conjE, hypsubst, unfold bs(2) unat_length [OF assms(3)] Let_def ca option.case)
      show "ends (then_do (of_result (Inr (8 + length c))) (\<lambda>chunk_len.
         then_do (sy_fill S chunk_len) (\<lambda>_. then_do (sy_advance SYNC_HEADER_SIZE) (\<lambda>_.
         then_do (sy_take (length c)) (\<lambda>d. ret (Some d)))))) y2 (\<lambda>r s'. r = Ok (Some c) \<and> sees cap rest s0 d 0 s')"
        by (rule ends_seq [where P = "\<lambda>r y'. r = 8 + length c \<and> y' = y2"], simp add: ends_of_result, elim conjE, hypsubst,
            rule ends_seq [OF fill_sees [OF y2(1) assms(2) bs(4)]])
          (use takes in \<open>simp add: ends_def\<close>)
    qed
  qed
qed

lemma recv_next_done:
  assumes "sees cap (sync_header IdDone x @ rest) s0 d k y" and "8 \<le> cap"
  shows "succeeds (recv_next S) y (\<lambda>r y'. r = None \<and> sees cap rest s0 d 0 y')"
  unfolding recv_next_def
proof (rule ends_seq [OF compact_sees [OF assms(1)]], elim conjE, rule ends_seq [OF read_id_sees], assumption, rule assms(2), simp, simp,
    elim conjE, simp only: refl if_True)
  fix y1 assume y1: "sees cap (sync_header IdDone x @ rest) s0 d 0 y1" "loaded 8 y1"
  then have l: "loaded SYNC_HEADER_SIZE y1" by (simp add: SYNC_HEADER_SIZE_def)
  show "succeeds (then_do (sy_advance SYNC_HEADER_SIZE) (\<lambda>_. ret None :: ('s sync_session, 'e, bytes option) proc)) y1
      (\<lambda>r y'. r = None \<and> sees cap rest s0 d 0 y')"
    by (rule ends_seq [OF advance_sees [OF y1(1) l]]) (simp add: ends_ret SYNC_HEADER_SIZE_def)
qed

lemma recv_next_failed:
  assumes "sees cap (sized IdFail msg @ rest) s0 d k y" and "8 \<le> cap" and "length msg < 2 ^ 32"
  shows "ends (recv_next S) y (\<lambda>r y'. r = Err (SyncFailure (SyncFailed (take cap msg))) \<and> sees cap rest s0 d 0 y')"
  unfolding recv_next_def
  by (rule ends_seq [OF compact_sees [OF assms(1)]], elim conjE, rule ends_seq_error [OF fail_sees [OF _ assms(2,3)]]) simp_all

lemma recv_loop_sees:
  assumes "sees cap (pull_bytes ds e @ rest) s0 d k y" and "\<And>c. c \<in> set ds \<Longrightarrow> 8 + length c \<le> cap \<and> length c < 2 ^ 32"
    and "8 \<le> cap" and "refusal_fits e"
  shows "ends (repeat_do (recv_round S) out) y (\<lambda>r y'. r = concluded cap (out @ concat ds) e \<and> sees cap rest s0 d 0 y')"
  using assms(1,2)
proof (induction ds arbitrary: out y k)
  case Nil
  show ?case
  proof (cases e)
    case (Finished x)
    then have s: "sees cap (sync_header IdDone x @ rest) s0 d k y" using Nil.prems(1) by (simp add: pull_bytes_def)
    have "succeeds (recv_round S out) y (\<lambda>r y'. r = Inr out \<and> sees cap rest s0 d 0 y')"
      unfolding recv_round_def by (rule ends_seq [OF recv_next_done [OF s assms(3)]]) (simp add: ends_ret)
    then show ?thesis
      by (rule ends_repeat_step [OF succeeds_mono]) (use Finished in \<open>simp add: concluded_def\<close>)
  next
    case (Refused msg)
    then have s: "sees cap (sized IdFail msg @ rest) s0 d k y" "length msg < 2 ^ 32" using Nil.prems(1) assms(4) by (simp_all add: pull_bytes_def refusal_fits_def)
    have "ends (recv_round S out) y (\<lambda>r y'. r = Err (SyncFailure (SyncFailed (take cap msg))) \<and> sees cap rest s0 d 0 y')"
      unfolding recv_round_def by (rule ends_seq_error [OF recv_next_failed [OF s(1) assms(3) s(2)]]) simp
    then show ?thesis by (rule ends_repeat_error) (use Refused in \<open>simp add: concluded_def\<close>)
  qed
next
  case (Cons c ds)
  have s: "sees cap (sized IdData c @ (pull_bytes ds e @ rest)) s0 d k y" "8 + length c \<le> cap" "length c < 2 ^ 32"
    using Cons.prems by (simp_all add: pull_bytes_def)
  have "succeeds (recv_round S out) y (\<lambda>r y'. r = Inl (out @ c) \<and> sees cap (pull_bytes ds e @ rest) s0 d 0 y')"
    unfolding recv_round_def by (rule ends_seq [OF recv_next_data [OF s]]) (simp add: ends_ret)
  then show ?case
    by (rule ends_repeat_step [OF succeeds_mono]) (use Cons.IH [of 0 _ "out @ c"] Cons.prems(2) in simp)
qed

lemma sync_recv_sees:
  assumes "sees cap (pull_bytes ds e @ rest) s0 d (8 + length path) y" and "\<And>c. c \<in> set ds \<Longrightarrow> 8 + length c \<le> cap \<and> length c < 2 ^ 32"
    and "8 \<le> cap" and "refusal_fits e" and "0 \<notin> set path"
  shows "ends (sync_recv S path) y (\<lambda>r y'. r = concluded cap (concat ds) e \<and> sees cap rest s0 (d @ sized IdRecv path) 0 y')"
proof -
  have start: "succeeds (recv_start S path) y (\<lambda>_ y'. sees cap (pull_bytes ds e @ rest) s0 (d @ sized IdRecv path) 0 y')"
    unfolding recv_start_def
  proof (rule ends_seq [where P = "\<lambda>_ y'. y' = y"], use assms(5) in \<open>simp add: check_path_def ends_ret\<close>, hypsubst,
      rule ends_seq [OF compact_sees [OF assms(1)]], elim conjE)
    fix y' assume "sees cap (pull_bytes ds e @ rest) s0 d (8 + length path) y'"
    then show "succeeds (write_request S IdRecv [path]) y' (\<lambda>_ y'. sees cap (pull_bytes ds e @ rest) s0 (d @ sized IdRecv path) 0 y')"
      using write_request_sees [of cap "pull_bytes ds e @ rest" s0 d "[path]" 0 y' IdRecv] by (simp add: sized_def)
  qed
  show ?thesis unfolding sync_recv_def
    by (rule ends_seq [OF start], rule ends_mono [OF recv_loop_sees [OF _ assms(2-4)]], assumption, assumption) simp
qed

end

end
