(* ===== verification/Sync_Transfers.thy ===== *)
theory Sync_Transfers
  imports Sync_Service
begin

text \<open>
  The transfers of the file service end to end: what a pull or a listing returns is what the
  device sent, what a push puts on the wire the device takes apart into what was pushed, and
  a request the device would refuse is refused before anything is sent.
\<close>

declare sync_id_bytes.simps [simp del]

lemma header_parts [simp]: "take 4 (sync_header i arg) = sync_id_bytes i" "drop (8 + n) (sync_header i arg @ rest) = drop n rest"
  by (simp_all add: sync_header_def)

section \<open>Push\<close>

text \<open>
  How the device takes a push apart: data messages up to \<open>DONE\<close>, which has the modification
  time; before them the path and the mode, separated by the last comma.
\<close>

fun take_datas :: "nat \<Rightarrow> bytes \<Rightarrow> (bytes \<times> u32 \<times> bytes) option" where
  "take_datas 0 bs = None"
| "take_datas (Suc fuel) bs =
     (let n = u32_at bs 4 in
      if length bs < 8 then None
      else case sync_id_from_bytes (take 4 bs) of
        Some IdDone \<Rightarrow> Some ([], n, drop 8 bs)
      | Some IdData \<Rightarrow>
          if unat n > SYNC_DATA_MAX \<or> length bs < 8 + unat n then None
          else map_option (\<lambda>(d, more). (take (unat n) (drop 8 bs) @ d, more)) (take_datas fuel (drop (8 + unat n) bs))
      | _ \<Rightarrow> None)"

definition split_mode :: "bytes \<Rightarrow> (bytes \<times> nat) option" where
  "split_mode spec =
     (let mode = rev (takeWhile (\<lambda>b. b \<noteq> 44) (rev spec)) in
      if length mode = length spec \<or> \<not> list_all (\<lambda>b. 48 \<le> b \<and> b \<le> 57) mode then None
      else Some (take (length spec - length mode - 1) spec, dec_value mode))"

definition take_push :: "bytes \<Rightarrow> (bytes \<times> nat \<times> bytes \<times> u32 \<times> bytes) option" where
  "take_push bs =
     (let n = unat (u32_at bs 4) in
      if length bs < 8 + n \<or> sync_id_from_bytes (take 4 bs) \<noteq> Some IdSend then None
      else Option.bind (split_mode (take n (drop 8 bs))) (\<lambda>(path, mode).
        map_option (\<lambda>(d, more). (path, mode, d, more)) (take_datas (length bs) (drop (8 + n) bs))))"

lemma chunks_of_simps [simp]:
  "chunks_of n [] = []" "xs \<noteq> [] \<Longrightarrow> 0 < n \<Longrightarrow> chunks_of n xs = take n xs # chunks_of n (drop n xs)"
  by (simp_all add: chunks_of.simps)

lemma chunks_of_concat: "0 < n \<Longrightarrow> concat (chunks_of n xs) = xs"
proof (induction n xs rule: chunks_of.induct)
  case (1 n xs)
  then show ?case by (cases "xs = []") simp_all
qed

lemma chunks_of_size: "c \<in> set (chunks_of n xs) \<Longrightarrow> c \<noteq> [] \<and> length c \<le> n"
proof (induction n xs rule: chunks_of.induct)
  case (1 n xs)
  then show ?case by (subst (asm) (2) chunks_of.simps) (auto split: if_splits)
qed

lemma take_datas_messages:
  assumes "\<And>c. c \<in> set cs \<Longrightarrow> length c \<le> SYNC_DATA_MAX" and "length cs < fuel"
  shows "take_datas fuel (concat (map (sized IdData) cs) @ sync_header IdDone x @ rest) = Some (concat cs, x, rest)"
  using assms
proof (induction cs arbitrary: fuel)
  case Nil
  then obtain f where "fuel = Suc f" by (cases fuel) auto
  then show ?case by (simp add: Let_def)
next
  case (Cons c cs)
  then obtain f where f: "fuel = Suc f" "length cs < f" by (cases fuel) auto
  define more where "more = concat (map (sized IdData) cs) @ sync_header IdDone x @ rest"
  have c: "length c \<le> SYNC_DATA_MAX" using Cons.prems(1) by simp
  then have u: "unat (of_nat (length c) :: u32) = length c" by (intro unat_length) (simp add: SYNC_DATA_MAX_def)
  have "take_datas f more = Some (concat cs, x, rest)" using Cons.IH [OF _ f(2)] Cons.prems(1) by (simp add: more_def)
  moreover have "take_datas fuel (sized IdData c @ more) = map_option (\<lambda>(d, m). (c @ d, m)) (take_datas f more)"
    using c u unfolding f(1) by (simp add: sized_def Let_def)
  ultimately show ?case by (simp add: more_def [symmetric])
qed

definition mode_digits :: "u32 \<Rightarrow> bytes" where
  "mode_digits m = (if m = 0 then [48] else dec_digits (unat m))"

lemma mode_digits_value: "dec_value (mode_digits m) = unat m"
  by (simp add: mode_digits_def dec_digits_value) (simp add: dec_value_def)

lemma mode_digits_ascii: "b \<in> set (mode_digits m) \<Longrightarrow> 48 \<le> b \<and> b \<le> 57"
  by (auto simp: mode_digits_def dest: dec_digits_ascii split: if_splits)

lemma split_mode_spec: "split_mode (path @ lit '','' @ mode_digits m) = Some (path, unat m)"
proof -
  have no: "\<forall>b \<in> set (rev (mode_digits m)). b \<noteq> 44" using mode_digits_ascii [of _ m] by fastforce
  have "rev (path @ lit '','' @ mode_digits m) = rev (mode_digits m) @ 44 # rev path" by (simp add: lit_def)
  then have "takeWhile (\<lambda>b. b \<noteq> 44) (rev (path @ lit '','' @ mode_digits m)) = rev (mode_digits m)"
    using no by (simp add: takeWhile_append2 del: set_rev)
  then show ?thesis
    using mode_digits_ascii [of _ m] by (simp add: split_mode_def mode_digits_value list_all_iff lit_def)
qed

text \<open>What a push sends, and that the device takes it apart into what was pushed.\<close>

definition push_bytes :: "bytes \<Rightarrow> u32 \<Rightarrow> u32 \<Rightarrow> bytes \<Rightarrow> bytes" where
  "push_bytes path mode mtime d = sized IdSend (path @ lit '','' @ mode_digits mode) @
     concat (map (sized IdData) (chunks_of SYNC_DATA_MAX d)) @ sync_header IdDone mtime"

lemma take_push_bytes:
  assumes "length (path @ lit '','' @ mode_digits mode) < 2 ^ 32"
  shows "take_push (push_bytes path mode mtime d) = Some (path, unat mode, d, mtime, [])"
proof -
  define spec where "spec = path @ lit '','' @ mode_digits mode"
  define cs where "cs = chunks_of SYNC_DATA_MAX d"
  define tail where "tail = concat (map (sized IdData) cs) @ sync_header IdDone mtime"
  have eq: "push_bytes path mode mtime d = sync_header IdSend (of_nat (length spec)) @ spec @ tail"
    by (simp add: push_bytes_def spec_def cs_def tail_def sized_def)
  have u: "unat (of_nat (length spec) :: u32) = length spec" using unat_length [of spec] assms unfolding spec_def by blast
  have "length xs \<le> length (concat (map (sized IdData) xs))" for xs
    by (induction xs) simp_all
  from this [of cs] have "take_datas (length (push_bytes path mode mtime d)) tail = Some (concat cs, mtime, [])"
    using take_datas_messages [of cs "length (push_bytes path mode mtime d)" mtime "[]"] chunks_of_size [of _ SYNC_DATA_MAX d]
    by (simp add: cs_def tail_def eq)
  moreover have "concat cs = d" by (simp add: cs_def chunks_of_concat SYNC_DATA_MAX_def)
  ultimately show ?thesis
    using split_mode_spec [of path mode] u by (simp add: take_push_def eq Let_def spec_def)
qed

text \<open>The device answers a push with \<open>OKAY\<close>, or \<open>FAIL\<close> and a message.\<close>

fun answer_bytes :: "ending \<Rightarrow> bytes" where
  "answer_bytes (Finished x) = sync_header IdOkay x"
| "answer_bytes (Refused msg) = sized IdFail msg"

context channel_log
begin

lemma send_chunks_sees:
  assumes "sees cap bs s0 d (length (concat (map (sized IdData) cs)) + k) y"
  shows "succeeds (send_chunks S cs) y (\<lambda>_ y'. sees cap bs s0 (d @ concat (map (sized IdData) cs)) k y')"
  using assms
proof (induction cs arbitrary: d y)
  case (Cons c cs)
  have "sees cap bs s0 d (8 + length (concat [c]) + (length (concat (map (sized IdData) cs)) + k)) y" using Cons.prems by (simp add: algebra_simps)
  note w = write_request_sees [OF this, of IdData]
  have "succeeds (then_do (write_request S IdData [c]) (\<lambda>_. send_chunks S cs)) y
      (\<lambda>_ y'. sees cap bs s0 ((d @ sync_header IdData (of_nat (length (concat [c]))) @ concat [c]) @ concat (map (sized IdData) cs)) k y')"
    by (rule ends_seq [OF w Cons.IH])
  then show ?case by (simp add: sized_def [of IdData c])
qed (simp add: ends_ret)

lemma send_start_sees:
  assumes "sees cap bs s0 d (8 + length (path @ lit '','' @ mode_digits mode) + k) y" and "0 \<notin> set path"
  shows "succeeds (send_start S path mode) y (\<lambda>_ y'. sees cap bs s0 (d @ sized IdSend (path @ lit '','' @ mode_digits mode)) k y')"
proof -
  have fm: "or_panic (format_u32 mode) y = Some (Ok (mode_digits mode) :: ('e, bytes) outcome, y)"
    by (simp add: or_panic_def format_u32_eq mode_digits_def)
  have w: "succeeds (write_request S IdSend [path, lit '','', mode_digits mode]) y
      (\<lambda>_ y'. sees cap bs s0 (d @ sized IdSend (path @ lit '','' @ mode_digits mode)) k y')"
    using write_request_sees [of cap bs s0 d "[path, lit '','', mode_digits mode]" k y IdSend] assms(1) by (simp add: sized_def)
  then show ?thesis by (rule ends_at [rotated]) (use assms(2) fm in \<open>simp add: send_start_def check_path_def then_do_def ret_def\<close>)
qed

lemma send_done_sees:
  assumes "sees cap (answer_bytes e @ rest) s0 d 8 y" and "8 \<le> cap" and "refusal_fits e"
  shows "ends (send_done S mtime) y (\<lambda>r y'. r = concluded cap () e \<and> sees cap rest s0 (d @ sync_header IdDone mtime) 0 y')"
proof -
  let ?d = "d @ sync_header IdDone mtime"
  have w: "succeeds (write_header S IdDone mtime) y (\<lambda>_ y'. sees cap (answer_bytes e @ rest) s0 ?d 0 y')"
    using write_header_sees [of cap "answer_bytes e @ rest" s0 d 0 y] assms(1) by simp
  show ?thesis unfolding send_done_def
  proof (rule ends_seq [OF w], rule ends_seq [OF compact_sees], assumption, elim conjE)
    fix y2 assume y2: "sees cap (answer_bytes e @ rest) s0 ?d 0 y2"
    show "ends (then_do (read_next_id S [IdOkay]) (\<lambda>_. sy_advance SYNC_HEADER_SIZE)) y2 (\<lambda>r y'. r = concluded cap () e \<and> sees cap rest s0 ?d 0 y')"
    proof (cases e)
      case (Finished x)
      then have s: "sees cap (sync_header IdOkay x @ rest) s0 ?d 0 y2" using y2 by simp
      show ?thesis
      proof (rule ends_seq [OF read_id_sees [OF s assms(2)]], simp, simp, elim conjE)
        fix y3 assume y3: "sees cap (sync_header IdOkay x @ rest) s0 ?d 0 y3" "loaded 8 y3"
        then have l: "loaded SYNC_HEADER_SIZE y3" by (simp add: SYNC_HEADER_SIZE_def)
        show "ends (sy_advance SYNC_HEADER_SIZE :: ('s sync_session, 'e, unit) proc) y3 (\<lambda>r y'. r = concluded cap () e \<and> sees cap rest s0 ?d 0 y')"
          by (rule ends_mono [OF advance_sees [OF y3(1) l]]) (auto simp: Finished concluded_def SYNC_HEADER_SIZE_def)
      qed
    next
      case (Refused msg)
      then have s: "sees cap (sized IdFail msg @ rest) s0 ?d 0 y2" "length msg < 2 ^ 32" using y2 assms(3) by (simp_all add: refusal_fits_def)
      show ?thesis by (rule ends_seq_error [OF fail_sees [OF s(1) assms(2) s(2)]]) (simp add: Refused concluded_def)
    qed
  qed
qed

lemma sync_send_sees:
  assumes "sees cap (answer_bytes e @ rest) s0 d (length (push_bytes path mode mtime file)) y" and "8 \<le> cap" and "refusal_fits e" and "0 \<notin> set path"
  shows "ends (sync_send S path mode mtime file) y
    (\<lambda>r y'. r = concluded cap () e \<and> sees cap rest s0 (d @ push_bytes path mode mtime file) 0 y')"
proof -
  let ?spec = "path @ lit '','' @ mode_digits mode" and ?cs = "chunks_of SYNC_DATA_MAX file"
  have "sees cap (answer_bytes e @ rest) s0 d (8 + length ?spec + (length (concat (map (sized IdData) ?cs)) + 8)) y"
    using assms(1) by (simp add: push_bytes_def algebra_simps)
  note start = send_start_sees [OF this assms(4)]
  show ?thesis unfolding sync_send_def send_data_def
  proof (rule ends_seq [OF start], rule ends_seq [OF send_chunks_sees], assumption)
    fix y2 assume "sees cap (answer_bytes e @ rest) s0 ((d @ sized IdSend ?spec) @ concat (map (sized IdData) ?cs)) 8 y2"
    from send_done_sees [OF this assms(2,3)] show "ends (send_done S mtime) y2
        (\<lambda>r y'. r = concluded cap () e \<and> sees cap rest s0 (d @ push_bytes path mode mtime file) 0 y')"
      by (simp add: push_bytes_def)
  qed
qed

end

section \<open>Listing\<close>

text \<open>A record of the second listing version, as the device writes it.\<close>

definition stat_rest :: "stat_v2 \<Rightarrow> bytes" where
  "stat_rest st = to_le 8 (st_dev st) @ to_le 8 (st_ino st) @ u32_to_le (st_mode st) @
     u32_to_le (st_nlink st) @ u32_to_le (st_uid st) @ u32_to_le (st_gid st) @ to_le 8 (st_size st) @
     to_le 8 (word_of_int (st_atime st) :: u64) @ to_le 8 (word_of_int (st_mtime st) :: u64) @ to_le 8 (word_of_int (st_ctime st) :: u64)"

definition times_fit :: "stat_v2 \<Rightarrow> bool" where
  "times_fit st \<longleftrightarrow> (\<forall>t \<in> {st_atime st, st_mtime st, st_ctime st}. - (2 ^ 63) \<le> t \<and> t < 2 ^ 63)"

lemma length_stat_rest [simp]: "length (stat_rest st) = 64"
  by (simp add: stat_rest_def)

lemma le_at:
  "length xs = n \<Longrightarrow> u32_at (xs @ u32_to_le w @ ys) n = w" "length xs = n \<Longrightarrow> u64_at (xs @ to_le 8 v @ ys) n = v"
  by (simp_all add: u32_at_def u64_at_def)

lemma sint_times: "- (2 ^ 63) \<le> t \<Longrightarrow> t < 2 ^ 63 \<Longrightarrow> sint (word_of_int t :: u64) = t"
  by (simp add: sint_sbintrunc' signed_take_bit_int_eq_self)

lemma parse_stat_bytes:
  assumes "times_fit st"
  shows "parse_stat_v2_body (u32_to_le (st_error st) @ stat_rest st) = st"
  using assms by (simp add: parse_stat_v2_body_def stat_rest_def i64_at_def times_fit_def u32_at_def u64_at_def sint_times)

definition entry_bytes :: "dir_entry_v2 \<Rightarrow> bytes" where
  "entry_bytes e = sync_header IdDnt2 (st_error (de2_stat e)) @ stat_rest (de2_stat e) @
     u32_to_le (of_nat (length (de2_name e))) @ de2_name e"

text \<open>The closing record: \<open>DONE\<close> with as many bytes as an entry has, whatever they are.\<close>

definition listing_bytes :: "dir_entry_v2 list \<Rightarrow> u32 \<Rightarrow> bytes \<Rightarrow> bytes" where
  "listing_bytes es x pad = concat (map entry_bytes es) @ sync_header IdDone x @ pad"

context channel_log
begin

lemma list_v2_entry:
  assumes "sees cap (entry_bytes e @ rest) s0 d k y" and "76 \<le> cap" and "length (de2_name e) \<le> cap" and "length (de2_name e) < 2 ^ 32"
    and "times_fit (de2_stat e)"
  shows "succeeds (list_v2_round S entries) y (\<lambda>r y'. r = Inl (entries @ [e]) \<and> sees cap rest s0 d 0 y')"
proof -
  define body where "body = stat_rest (de2_stat e) @ u32_to_le (of_nat (length (de2_name e)))"
  define bs where "bs = sync_header IdDnt2 (st_error (de2_stat e)) @ body @ de2_name e @ rest"
  have bs: "entry_bytes e @ rest = bs" "length body = 68" "76 \<le> length bs" by (simp_all add: entry_bytes_def bs_def body_def)
  have name: "u32_at bs 72 = of_nat (length (de2_name e))" "drop 76 bs = de2_name e @ rest"
    by (simp_all add: bs_def body_def sync_header_def u32_at_def)
  have stat: "parse_stat_v2_body (drop 4 (take 72 bs)) = de2_stat e"
    using parse_stat_bytes [OF assms(5)] by (simp add: bs_def body_def sync_header_def)
  have e: "\<lparr>de2_name = de2_name e, de2_stat = de2_stat e\<rparr> = e" by simp
  have y: "sees cap (sync_header IdDnt2 (st_error (de2_stat e)) @ (body @ de2_name e @ rest)) s0 d k y" using assms(1) bs(1) by (simp add: bs_def)
  have c8: "8 \<le> cap" using assms(2) by simp
  let ?Q = "\<lambda>r y'. r = Inl (entries @ [e]) \<and> sees cap rest s0 d 0 y'"
  have takes: "succeeds (then_do (sy_take (length (de2_name e))) (\<lambda>name. ret (Inl (entries @ [\<lparr>de2_name = name, de2_stat = de2_stat e\<rparr>])) ::
      ('s sync_session, 'e, dir_entry_v2 list + dir_entry_v2 list) proc)) y4 ?Q"
    if "sees cap (de2_name e @ rest) s0 d 0 y4" "loaded (length (de2_name e)) y4" for y4
    by (rule ends_seq [OF take_sees [OF that]]) (simp add: ends_ret)
  show ?thesis unfolding list_v2_round_def DENT_V2_SIZE_def STAT_V2_SIZE_def
  proof (rule ends_seq [OF read_id_sees [OF y c8]], simp, simp, elim conjE, hypsubst, fold bs_def, simp only: sync_id.distinct if_False,
      rule ends_seq [OF fill_sees [OF _ assms(2) bs(3)]], assumption, elim conjE)
    fix y2 assume y2: "sees cap bs s0 d 0 y2" "loaded 76 y2"
    have l: "loaded 72 y2" "loaded (72 + 4) y2" using y2(2) by (simp_all add: loaded_def)
    show "succeeds (then_do (sy_peek 72) (\<lambda>d. let stat = parse_stat_v2_body (drop 4 d) in
       then_do (peek_u32 72) (\<lambda>namelen.
       then_do (sy_advance 76) (\<lambda>_.
       then_do (sy_fill S (unat namelen)) (\<lambda>_. then_do (sy_take (unat namelen)) (\<lambda>name.
       ret (Inl (entries @ [\<lparr>de2_name = name, de2_stat = stat\<rparr>]) :: dir_entry_v2 list + dir_entry_v2 list))))))) y2 ?Q"
    proof (rule ends_seq [OF peek_sees [OF y2(1) l(1)]], elim conjE, hypsubst, unfold Let_def stat,
        rule ends_seq [OF peek_u32_sees [OF y2(1) l(2)]], elim conjE, hypsubst, unfold name unat_length [OF assms(4)],
        rule ends_seq [OF advance_sees [OF y2]], elim conjE, unfold name(2), rule ends_seq [OF fill_sees [OF _ assms(3)]], assumption, simp, elim conjE)
    qed (erule takes, assumption)
  qed
qed

lemma list_v2_done:
  assumes "sees cap (sync_header IdDone x @ pad @ rest) s0 d k y" and "76 \<le> cap" and "length pad = 68"
  shows "succeeds (list_v2_round S entries) y (\<lambda>r y'. r = Inr entries \<and> sees cap rest s0 d 0 y')"
proof -
  have c8: "8 \<le> cap" using assms(2) by simp
  have le: "76 \<le> length (sync_header IdDone x @ pad @ rest)" and dr: "drop 76 (sync_header IdDone x @ pad @ rest) = rest" using assms(3) by simp_all
  show ?thesis unfolding list_v2_round_def DENT_V2_SIZE_def
  proof (rule ends_seq [OF read_id_sees [OF assms(1) c8]], simp, simp, elim conjE, hypsubst, simp only: refl if_True,
      rule ends_seq [OF fill_sees [OF _ assms(2) le]], assumption, elim conjE, rule ends_seq [OF advance_sees], assumption, assumption, unfold dr)
  qed (simp add: ends_ret)
qed

lemma list_v2_loop:
  assumes "sees cap (listing_bytes es x pad @ rest) s0 d k y" and "76 \<le> cap" and "length pad = 68"
    and "\<And>e. e \<in> set es \<Longrightarrow> length (de2_name e) \<le> cap \<and> length (de2_name e) < 2 ^ 32 \<and> times_fit (de2_stat e)"
  shows "succeeds (repeat_do (list_v2_round S) out) y (\<lambda>r y'. r = out @ es \<and> sees cap rest s0 d 0 y')"
  using assms(1,4)
proof (induction es arbitrary: out y k)
  case Nil
  then have s: "sees cap (sync_header IdDone x @ pad @ rest) s0 d k y" by (simp add: listing_bytes_def)
  show ?case by (rule ends_repeat_step [OF succeeds_mono [OF list_v2_done [OF s assms(2,3)]]]) simp
next
  case (Cons e es)
  then have s: "sees cap (entry_bytes e @ (listing_bytes es x pad @ rest)) s0 d k y" by (simp add: listing_bytes_def)
  show ?case
  proof (rule ends_repeat_step [OF succeeds_mono [OF list_v2_entry [OF s assms(2)]]])
    fix r :: "dir_entry_v2 list + dir_entry_v2 list" and y' assume "r = Inl (out @ [e]) \<and> sees cap (listing_bytes es x pad @ rest) s0 d 0 y'"
    then show "case r of Inl x' \<Rightarrow> succeeds (repeat_do (list_v2_round S) x') y' (\<lambda>r y'. r = out @ e # es \<and> sees cap rest s0 d 0 y')
        | Inr a \<Rightarrow> \<exists>a'. Ok a = Ok a' \<and> a' = out @ e # es \<and> sees cap rest s0 d 0 y'"
      using Cons.IH [of 0 y' "out @ [e]"] Cons.prems(2) by simp
  qed (use Cons.prems(2) in simp_all)
qed

lemma sync_list_v2_sees:
  assumes "sees cap (listing_bytes es x pad @ rest) s0 d (8 + length path) y" and "76 \<le> cap" and "length pad = 68"
    and "\<And>e. e \<in> set es \<Longrightarrow> length (de2_name e) \<le> cap \<and> length (de2_name e) < 2 ^ 32 \<and> times_fit (de2_stat e)"
    and "0 \<notin> set path" and "s_advertises S (chan_session (sy_channel y)) LsV2"
  shows "succeeds (sync_list_v2 S path) y (\<lambda>r y'. r = es \<and> sees cap rest s0 (d @ sized IdLis2 path) 0 y')"
proof -
  let ?bs = "listing_bytes es x pad @ rest"
  have run: "succeeds (then_do sy_compact (\<lambda>_. then_do (write_request S IdLis2 [path]) (\<lambda>_. repeat_do (list_v2_round S) []))) y
      (\<lambda>r y'. r = es \<and> sees cap rest s0 (d @ sized IdLis2 path) 0 y')"
  proof (rule ends_seq [OF compact_sees [OF assms(1)]], elim conjE, rule ends_seq [where P = "\<lambda>_ y'. sees cap ?bs s0 (d @ sized IdLis2 path) 0 y'"])
    fix y1 assume "sees cap ?bs s0 d (8 + length path) y1"
    then show "succeeds (write_request S IdLis2 [path]) y1 (\<lambda>_ y'. sees cap ?bs s0 (d @ sized IdLis2 path) 0 y')"
      using write_request_sees [of cap ?bs s0 d "[path]" 0 y1 IdLis2] by (simp add: sized_def)
    fix y2 assume "sees cap ?bs s0 (d @ sized IdLis2 path) 0 y2"
    from list_v2_loop [OF this assms(2-4), of "[]"] show "succeeds (repeat_do (list_v2_round S) []) y2
        (\<lambda>r y'. r = es \<and> sees cap rest s0 (d @ sized IdLis2 path) 0 y')" by simp
  qed
  show ?thesis
    by (rule ends_at [OF _ run]) (use assms(5,6) in \<open>simp add: sync_list_v2_def check_path_def sy_require_def session_require_def then_do_def ret_def on_part_def\<close>)
qed

end

section \<open>Properties\<close>

text \<open>A session just opened on a channel.\<close>

abbreviation opened :: "'t connection \<Rightarrow> channel_id \<Rightarrow> bytes \<Rightarrow> 't connection sync_session" where
  "opened c ch buf \<equiv> \<lparr>sy_channel = \<lparr>chan_session = c, chan_id = ch\<rparr>, sy_rx = rb_new buf\<rparr>"

lemma opened_sees:
  assumes "logged_wire io inp alive out" and "conn_streams inp alive ch bs c" and "k \<le> conn_credit ch c"
  shows "channel_log.sees ch (conn_streams inp alive ch) (conn_credit ch) (conn_wrote out ch) (length buf) bs c [] k (opened c ch buf)"
  using assms(2,3) conn_wrote_refl [of out ch c]
  by (auto simp: channel_log.sees_def [OF logged_wire.conn_logged [OF assms(1)]] rb_new_ok)

lemma sees_wrote:
  assumes "logged_wire io inp alive out"
    and "channel_log.sees ch (conn_streams inp alive ch) (conn_credit ch) (conn_wrote out ch) cap bs c d k y"
  shows "conn_wrote out ch d c (chan_session (sy_channel y))"
  using assms(2) by (auto simp: channel_log.sees_def [OF logged_wire.conn_logged [OF assms(1)]])






definition sample_entry :: dir_entry_v2 where
  "sample_entry = \<lparr>de2_name = lit ''a'', de2_stat = \<lparr>st_error = 0, st_dev = 1, st_ino = 2, st_mode = 33188, st_nlink = 1, st_uid = 0, st_gid = 0,
     st_size = 5, st_atime = -1, st_mtime = 0, st_ctime = 1\<rparr>\<rparr>"

definition featured_conn :: "bytes \<Rightarrow> mock connection" where
  "featured_conn d = (fresh_conn d)\<lparr>conn_neg := sample_neg\<lparr>neg_banner := \<lparr>b_raw = [], b_state = (0, 0), b_serial = (0, 0), b_properties = [],
     b_features = [LsV2]\<rparr>\<rparr>\<rparr>"

lemma renegotiated_streams:
  assumes "conn_streams inp alive ch bs c" and "neg_config n = neg_config (conn_neg c)" and "neg_max_payload n \<le> MAX_PAYLOAD"
  shows "conn_streams inp alive ch bs (c\<lparr>conn_neg := n\<rparr>)"
proof -
  have eq: "inbound_limit (c\<lparr>conn_neg := n\<rparr>) = inbound_limit c" "backlog inp (c\<lparr>conn_neg := n\<rparr>) = backlog inp c"
    using assms(2) by (simp_all add: inbound_limit_def backlog_def)
  show ?thesis using assms(1,3) unfolding conn_streams_def eq by simp
qed

lemma featured_streams:
  assumes "length d \<le> 1000"
  shows "conn_streams inbound healthy sample_handle d (featured_conn d)" and "conn_credit sample_handle (featured_conn d) = 64"
proof -
  have neg: "conn_neg (fresh_conn d) = sample_neg" by (simp add: fresh_conn_def)
  show "conn_streams inbound healthy sample_handle d (featured_conn d)"
    unfolding featured_conn_def by (rule renegotiated_streams [OF fresh_streams(1) [OF assms]]) (simp_all add: neg, simp add: sample_neg_def MAX_PAYLOAD_def)
  show "conn_credit sample_handle (featured_conn d) = 64"
    using fresh_streams(2) [OF assms] by (simp add: featured_conn_def conn_credit_def)
qed


text \<open>What a second-version transfer may be asked for, of a device with the features \<open>adv\<close>.\<close>

definition v2_flags :: "(feature \<Rightarrow> bool) \<Rightarrow> sync_flags \<Rightarrow> bool" where
  "v2_flags adv flags \<longleftrightarrow> \<not> (bit flags 0 \<and> bit flags 1) \<and> \<not> (bit flags 0 \<and> bit flags 2) \<and> \<not> (bit flags 1 \<and> bit flags 2) \<and>
     adv SendrecvV2 \<and> (bit flags 0 \<longrightarrow> adv SendrecvV2Brotli) \<and> (bit flags 1 \<longrightarrow> adv SendrecvV2Lz4) \<and>
     (bit flags 2 \<longrightarrow> adv SendrecvV2Zstd) \<and> (bit flags 31 \<longrightarrow> adv SendrecvV2DryRunSend)"

definition v2_accepts :: "(feature \<Rightarrow> bool) \<Rightarrow> bool \<Rightarrow> bytes \<Rightarrow> sync_flags \<Rightarrow> bool" where
  "v2_accepts adv is_push path flags \<longleftrightarrow> 0 \<notin> set path \<and> (is_push \<or> \<not> bit flags 31) \<and> v2_flags adv flags"

lemma flags_bits:
  "flags_contains flags BROTLI \<longleftrightarrow> bit flags 0" "flags_contains flags LZ4 \<longleftrightarrow> bit flags 1"
  "flags_contains flags ZSTD \<longleftrightarrow> bit flags 2" "flags_contains flags DRY_RUN \<longleftrightarrow> bit flags 31"
proof -
  have one: "flags_contains flags (2 ^ n) \<longleftrightarrow> bit flags n" if "n < 32" for n
  proof
    assume "flags_contains flags (2 ^ n)"
    then have "bit (flags AND 2 ^ n) n" using that by (simp add: flags_contains_def bit_exp_iff)
    then show "bit flags n" by (simp add: bit_and_iff)
  next
    assume "bit flags n"
    then show "flags_contains flags (2 ^ n)"
      unfolding flags_contains_def by (intro bit_word_eqI) (auto simp: bit_and_iff bit_exp_iff)
  qed
  show "flags_contains flags BROTLI \<longleftrightarrow> bit flags 0" "flags_contains flags LZ4 \<longleftrightarrow> bit flags 1"
    "flags_contains flags ZSTD \<longleftrightarrow> bit flags 2" "flags_contains flags DRY_RUN \<longleftrightarrow> bit flags 31"
    using one [of 0] one [of 1] one [of 2] one [of 31] unfolding BROTLI_def LZ4_def ZSTD_def DRY_RUN_def by simp_all
qed

lemma sy_require_eq:
  "sy_require S f y = (if s_advertises S (chan_session (sy_channel y)) f then Some (Ok (), y) else Some (Err (MissingFeature f), y))"
  by (simp add: sy_require_def session_require_def on_part_def ret_def raise_def)

lemma require_flags_eq:
  "if \<forall>ff \<in> set ffs. flags_contains flags (fst ff) \<longrightarrow> s_advertises S (chan_session (sy_channel y)) (snd ff)
   then require_flags S flags ffs y = Some (Ok (), y) else (\<exists>e. require_flags S flags ffs y = Some (Err e, y))"
proof (induction ffs)
  case (Cons ff ffs)
  have "require_flags S flags (ff # ffs) y =
      (if flags_contains flags (fst ff) \<and> \<not> s_advertises S (chan_session (sy_channel y)) (snd ff) then Some (Err (MissingFeature (snd ff)), y)
       else require_flags S flags ffs y)"
    by (simp add: then_do_def ret_def sy_require_eq loop_then_def)
  then show ?case using Cons.IH by simp
qed (simp add: ret_def)

lemma require_v2:
  "if v2_flags (s_advertises S (chan_session (sy_channel y))) flags then require_sendrecv_v2 S flags y = Some (Ok (), y)
   else (\<exists>e. require_sendrecv_v2 S flags y = Some (Err e, y))"
proof -
  define adv where "adv = s_advertises S (chan_session (sy_channel y))"
  define one_at_most where "one_at_most \<longleftrightarrow> \<not> length (filter (flags_contains flags) COMPRESSION) > 1"
  define featured where "featured \<longleftrightarrow> (\<forall>ff \<in> set FLAG_FEATURES. flags_contains flags (fst ff) \<longrightarrow> adv (snd ff))"
  have "v2_flags adv flags \<longleftrightarrow> one_at_most \<and> adv SendrecvV2 \<and> featured"
    by (auto simp: v2_flags_def one_at_most_def featured_def COMPRESSION_def FLAG_FEATURES_def flags_bits)
  moreover have "if featured then require_flags S flags FLAG_FEATURES y = Some (Ok (), y)
      else (\<exists>e. require_flags S flags FLAG_FEATURES y = Some (Err e, y))"
    using require_flags_eq [of FLAG_FEATURES flags S y] by (simp add: featured_def adv_def)
  moreover have "require_sendrecv_v2 S flags y = (if \<not> one_at_most then Some (Err (SyncFailure (InvalidFlags flags)), y)
      else if adv SendrecvV2 then require_flags S flags FLAG_FEATURES y else Some (Err (MissingFeature SendrecvV2), y))"
    by (simp add: require_sendrecv_v2_def one_at_most_def then_do_def raise_def sy_require_eq adv_def loop_then_def)
  ultimately show ?thesis unfolding adv_def [symmetric] by simp
qed

text \<open>
  C40: flags and paths are checked before anything is sent.  A second-version pull or push
  goes on to write its request exactly when the path has no NUL, at most one compression
  bit is set, a pull does not ask for a dry run, and the device has the feature of every bit
  that is set; otherwise it fails and the session and the connection under it are as they
  were.
\<close>

theorem sync_flags_checked:
  "(if v2_accepts (s_advertises S (chan_session (sy_channel y))) False path flags
    then recv_v2_start S path flags y = write_message S IdRcv2 (of_nat (length path)) [path, sync_id_bytes IdRcv2, u32_to_le flags] y
    else (\<exists>e. recv_v2_start S path flags y = Some (Err e, y))) \<and>
   (if v2_accepts (s_advertises S (chan_session (sy_channel y))) True path flags
    then send_v2_start S path mode flags y = write_message S IdSnd2 (of_nat (length path)) [path, sync_id_bytes IdSnd2, u32_to_le mode, u32_to_le flags] y
    else (\<exists>e. send_v2_start S path mode flags y = Some (Err e, y)))"
proof -
  define adv where "adv = s_advertises S (chan_session (sy_channel y))"
  note acc = v2_accepts_def [of adv False path flags] v2_accepts_def [of adv True path flags]
  show ?thesis unfolding adv_def [symmetric]
  proof (intro conjI)
    show "if v2_accepts adv False path flags
      then recv_v2_start S path flags y = write_message S IdRcv2 (of_nat (length path)) [path, sync_id_bytes IdRcv2, u32_to_le flags] y
      else (\<exists>e. recv_v2_start S path flags y = Some (Err e, y))"
      using require_v2 [of S y flags] unfolding acc adv_def [symmetric]
      by (cases "0 \<in> set path"; cases "bit flags 31")
        (auto simp: recv_v2_start_def check_path_def then_do_def ret_def raise_def flags_bits loop_then_def split: if_splits)
    show "if v2_accepts adv True path flags
      then send_v2_start S path mode flags y = write_message S IdSnd2 (of_nat (length path)) [path, sync_id_bytes IdSnd2, u32_to_le mode, u32_to_le flags] y
      else (\<exists>e. send_v2_start S path mode flags y = Some (Err e, y))"
      using require_v2 [of S y flags] unfolding acc adv_def [symmetric]
      by (cases "0 \<in> set path") (auto simp: send_v2_start_def check_path_def then_do_def ret_def raise_def loop_then_def split: if_splits)
  qed
qed

end
