(* ===== verification/Handshake.thy ===== *)
theory Handshake
  imports Connection_Props Procedures "HOL-Library.Sublist"
begin

text \<open>
  Setting up a connection (\<open>base/connection/handshake.rs\<close>, \<open>base/connection/tls.rs\<close>,
  \<open>base/auth.rs\<close>): the host sends its CNXN, answers a token with a signature and, if that is
  not enough and the caller allows it, with its public key, and assembles the connection from
  the device's CNXN.  The authenticator, which signs, and the TLS transport are parameters.
\<close>

section \<open>The authenticator\<close>

text \<open>
  Signing may wait, so it may be dropped; of its error only the text it is printed as is
  used.
\<close>

record 'a authenticator =
  a_sign :: "'a \<Rightarrow> bytes \<Rightarrow> (string, bytes) polled \<times> 'a"
  a_public_key :: "'a \<Rightarrow> bytes"
  a_offer_public_key :: "'a \<Rightarrow> bool"

section \<open>The handshake\<close>

datatype verdict = Connected packet | Upgrade packet

definition verdict_of :: "packet \<Rightarrow> packet + verdict" where
  "verdict_of pkt = (case command pkt of
      Connect \<Rightarrow> Inr (Connected pkt)
    | StartTls \<Rightarrow> Inr (Upgrade pkt)
    | _ \<Rightarrow> Inl pkt)"

record ('t, 'a) handshake = "'t wire" +
  hs_auth :: 'a
  hs_banner :: bytes
  hs_config :: config

definition handshake_new :: "'t \<Rightarrow> 'a \<Rightarrow> host_banner \<Rightarrow> config \<Rightarrow> ('t, 'a) handshake" where
  "handshake_new t auth banner cfg = \<lparr>transport = t, recv_buf = [], desync = False, hs_auth = auth, hs_banner = to_bytes banner, hs_config = cfg\<rparr>"

definition hs_send :: "('t, 'e) transport_ops \<Rightarrow> packet \<Rightarrow> (('t, 'a) handshake, 'e, unit) proc" where
  "hs_send io pkt h = Some (send_pkt io pkt Compute h)"

definition hs_recv_round :: "('t, 'e) transport_ops \<Rightarrow> unit \<Rightarrow> (('t, 'a) handshake, 'e, unit + packet) proc" where
  "hs_recv_round io = (\<lambda>_. then_do (\<lambda>h. Some (recv_pkt io (max_payload (hs_config h)) h)) (\<lambda>pkt.
     if command pkt \<in> {Connect, Auth, StartTls} then ret (Inr pkt)
     else if command pkt \<in> {Close, Ready, Write, Open} then ret (Inl ())
     else raise (Protocol (UnexpectedCommand (command pkt)))))"

definition hs_recv :: "('t, 'e) transport_ops \<Rightarrow> (('t, 'a) handshake, 'e, packet) proc" where
  "hs_recv io = repeat_do (hs_recv_round io) ()"

text \<open>\<open>self.auth.sign(&token).await\<close>, its error as text.\<close>

definition hs_sign :: "'a authenticator \<Rightarrow> bytes \<Rightarrow> (('t, 'a) handshake, 'e, bytes) proc" where
  "hs_sign A token h = (case a_sign A (hs_auth h) token of
      (Done sig, a) \<Rightarrow> Some (Ok sig, h\<lparr>hs_auth := a\<rparr>)
    | (Failed text, a) \<Rightarrow> Some (Err (AuthFailed (SignFailed text)), h\<lparr>hs_auth := a\<rparr>)
    | (Dropped, a) \<Rightarrow> Some (Cancelled, h\<lparr>hs_auth := a\<rparr>))"

definition is_token :: "packet \<Rightarrow> bool" where
  "is_token pkt \<longleftrightarrow> command pkt = Auth \<and> auth_kind_try_from (arg0 pkt) = Inr Token"

text \<open>The second half of \<open>do_auth\<close>: the device did not take the signature.\<close>

definition offer_key :: "('t, 'e) transport_ops \<Rightarrow> 'a authenticator \<Rightarrow> (('t, 'a) handshake, 'e, verdict) proc" where
  "offer_key io A h =
     (if \<not> a_offer_public_key A (hs_auth h) then raise (AuthFailed KeyNotTrusted) h
      else then_do (hs_send io (auth_public_key (a_public_key A (hs_auth h)))) (\<lambda>_.
        then_do (hs_recv io) (\<lambda>pkt. case verdict_of pkt of
            Inr verdict \<Rightarrow> ret verdict
          | Inl _ \<Rightarrow> raise (AuthFailed Rejected))) h)"

definition do_auth :: "('t, 'e) transport_ops \<Rightarrow> 'a authenticator \<Rightarrow> bytes \<Rightarrow> (('t, 'a) handshake, 'e, verdict) proc" where
  "do_auth io A token =
     (if length token \<noteq> AUTH_TOKEN_LEN then raise (Protocol (InvalidAuthToken (length token)))
      else then_do (hs_sign A token) (\<lambda>signature.
        then_do (hs_send io (auth_signature signature)) (\<lambda>_.
        then_do (hs_recv io) (\<lambda>pkt. case verdict_of pkt of
            Inr verdict \<Rightarrow> ret verdict
          | Inl resp \<Rightarrow> if is_token resp then offer_key io A else raise (AuthFailed Rejected)))))"

definition hello :: "('t, 'a) handshake \<Rightarrow> packet" where
  "hello h = packet_new Connect ADB_VERSION (max_payload (hs_config h)) (hs_banner h)"

definition hs_open :: "('t, 'e) transport_ops \<Rightarrow> 'a authenticator \<Rightarrow> (('t, 'a) handshake, 'e, verdict) proc" where
  "hs_open io A h =
     then_do (hs_send io (hello h)) (\<lambda>_.
     then_do (hs_recv io) (\<lambda>pkt. case verdict_of pkt of
         Inr verdict \<Rightarrow> ret verdict
       | Inl pkt \<Rightarrow> if is_token pkt then do_auth io A (data pkt)
           else raise (Protocol (UnexpectedCommand (command pkt))))) h"

definition assemble :: "packet \<Rightarrow> (('t, 'a) handshake, 'e, 't connection) proc" where
  "assemble cnxn h = (case negotiated_new (hs_banner h) cnxn (hs_config h) of
      Inl e \<Rightarrow> raise (Protocol e) h
    | Inr neg \<Rightarrow> ret \<lparr>transport = transport h, recv_buf = recv_buf h, desync = desync h,
        table = table_new (max_channels (neg_config neg)) (rx_policy_of neg), conn_neg = neg, incoming = []\<rparr> h)"

text \<open>The handshake consumed by the call is kept in the result, for what it leaves of the transport.\<close>

definition connect :: "('t, 'e) transport_ops \<Rightarrow> 'a authenticator \<Rightarrow> 't \<Rightarrow> 'a \<Rightarrow> host_banner \<Rightarrow> config
    \<Rightarrow> (('e, 't connection) outcome \<times> ('t, 'a) handshake) option" where
  "connect io A t auth banner cfg = then_do (hs_open io A) (\<lambda>verdict. case verdict of
      Connected cnxn \<Rightarrow> assemble cnxn
    | Upgrade _ \<Rightarrow> raise (Protocol TlsRequired)) (handshake_new t auth banner cfg)"

section \<open>Upgrading to TLS\<close>

text \<open>What the transport adds: starting TLS, and telling an error that means the key was refused.\<close>

record ('t, 'e) tls_ops =
  start_tls :: "'t \<Rightarrow> ('e, unit) polled \<times> 't"
  is_key_rejected :: "'e \<Rightarrow> bool"

definition hs_start_tls :: "('t, 'e) tls_ops \<Rightarrow> (('t, 'a) handshake, 'e, unit) proc" where
  "hs_start_tls L h = (case start_tls L (transport h) of
      (Done _, t) \<Rightarrow> Some (Ok (), h\<lparr>transport := t\<rparr>)
    | (Failed e, t) \<Rightarrow> Some (Err (Io e), h\<lparr>transport := t\<rparr>)
    | (Dropped, t) \<Rightarrow> Some (Cancelled, h\<lparr>transport := t\<rparr>))"

definition classify_tls_error :: "('t, 'e) tls_ops \<Rightarrow> 'e \<Rightarrow> 'e error" where
  "classify_tls_error L e = (if is_key_rejected L e then AuthFailed TlsKeyNotTrusted else Io e)"

definition classify_before_cnxn :: "('t, 'e) tls_ops \<Rightarrow> ('t, 'a) handshake \<Rightarrow> 'e error \<Rightarrow> 'e error" where
  "classify_before_cnxn L h err = (case err of
      UnexpectedEof \<Rightarrow> if recv_buf h = [] then AuthFailed TlsClosedBeforeConnect else UnexpectedEof
    | Io e \<Rightarrow> classify_tls_error L e
    | other \<Rightarrow> other)"

text \<open>\<open>m.await.map_err(|e| self.classify_before_cnxn(e))?\<close>.\<close>

definition classified :: "('t, 'e) tls_ops \<Rightarrow> (('t, 'a) handshake, 'e, 'b) proc \<Rightarrow> (('t, 'a) handshake, 'e, 'b) proc" where
  "classified L m = await_do m (\<lambda>r h. case r of Inl e \<Rightarrow> raise (classify_before_cnxn L h e) h | Inr a \<Rightarrow> ret a h)"

definition upgrade :: "('t, 'e) transport_ops \<Rightarrow> ('t, 'e) tls_ops \<Rightarrow> 'a authenticator \<Rightarrow> (('t, 'a) handshake, 'e, packet) proc" where
  "upgrade io L A h =
     (if recv_buf h \<noteq> [] then raise (Protocol DataAfterStls) h
      else then_do (hs_send io (packet_new StartTls STLS_VERSION 0 [])) (\<lambda>_.
        then_do (hs_start_tls L) (\<lambda>_.
        then_do (classified L (hs_recv io)) (\<lambda>pkt.
          if command pkt = Connect then ret pkt
          else if is_token pkt then then_do (classified L (do_auth io A (data pkt))) (\<lambda>verdict. case verdict of
              Connected cnxn \<Rightarrow> ret cnxn
            | Upgrade _ \<Rightarrow> raise (Protocol (UnexpectedCommand StartTls)))
          else raise (Protocol (UnexpectedCommand (command pkt)))))) h)"

definition connect_tls :: "('t, 'e) transport_ops \<Rightarrow> ('t, 'e) tls_ops \<Rightarrow> 'a authenticator \<Rightarrow> 't \<Rightarrow> 'a \<Rightarrow> host_banner \<Rightarrow> config
    \<Rightarrow> (('e, 't connection) outcome \<times> ('t, 'a) handshake) option" where
  "connect_tls io L A t auth banner cfg = then_do (hs_open io A) (\<lambda>verdict.
     then_do (case verdict of Connected cnxn \<Rightarrow> ret cnxn | Upgrade _ \<Rightarrow> upgrade io L A) assemble) (handshake_new t auth banner cfg)"

section \<open>What the handshake sends\<close>

text \<open>
  Every way through the handshake keeps to a script: the CNXN, then at most the signature of a
  token, then at most the public key, which the caller has to allow; a packet that did not go
  out whole is the last one.
\<close>

inductive script :: "'a authenticator \<Rightarrow> packet \<Rightarrow> piece list \<Rightarrow> bool" for A p0 where
  script_hello: "piece_packet x = p0 \<Longrightarrow> script A p0 [x]"
| script_signed: "length token = AUTH_TOKEN_LEN \<Longrightarrow> a_sign A a token = (Done sig, a') \<Longrightarrow> piece_packet x = auth_signature sig \<Longrightarrow>
    script A p0 [Whole p0, x]"
| script_offered: "length token = AUTH_TOKEN_LEN \<Longrightarrow> a_sign A a token = (Done sig, a') \<Longrightarrow> a_offer_public_key A a' \<Longrightarrow>
    piece_packet x = auth_public_key (a_public_key A a') \<Longrightarrow> script A p0 [Whole p0, Whole (auth_signature sig), x]"

text \<open>What changes on the way: the transport, the buffer, the flag and the authenticator.\<close>

definition same_terms :: "('t, 'a) handshake \<Rightarrow> ('t, 'a) handshake \<Rightarrow> bool" where
  "same_terms h h' \<longleftrightarrow> hs_banner h' = hs_banner h \<and> hs_config h' = hs_config h"

lemma same_terms_refl [simp]: "same_terms h h"
  by (simp add: same_terms_def)

lemma same_terms_trans: "same_terms h h1 \<Longrightarrow> same_terms h1 h2 \<Longrightarrow> same_terms h h2"
  by (simp add: same_terms_def)

context sink
begin

lemma hs_recv_quiet:
  assumes "hs_recv io h = Some (r, h')"
  shows "out (transport h') = out (transport h)" and "same_terms h h'" and "hs_auth h' = hs_auth h" and "desync h' = desync h"
proof -
  define I where "I g \<longleftrightarrow> out (transport g) = out (transport h) \<and> same_terms h g \<and> hs_auth g = hs_auth h \<and> desync g = desync h"
    for g
  have step: "I g'" if "I g" "hs_recv_round io x g = Some (q, g')" for x g q g'
  proof -
    obtain p g1 where g1: "recv_pkt io (max_payload (hs_config g)) g = (p, g1)" by force
    have "g' = g1" using that(2) g1 by (auto simp: hs_recv_round_def then_do_def loop_then_def ret_def raise_def split: outcome.splits if_splits)
    moreover obtain o1 where "recv_pkt_or io never True (max_payload (hs_config g)) g = (o1, g1)"
      using recv_pkt_snd [of io "max_payload (hs_config g)" g] g1 by (metis prod.collapse snd_conv)
    then have "out (transport g1) = out (transport g) \<and> same_terms g g1 \<and> hs_auth g1 = hs_auth g \<and> desync g1 = desync g"
      by (auto simp: recv_pkt_or_def same_terms_def dest!: recv_loop_reads reads_out split: prod.splits)
    ultimately show ?thesis using that(1) same_terms_trans by (auto simp: I_def)
  qed
  have "I h" by (simp add: I_def)
  then have "I h'" using repeat_do_keeps [OF assms [unfolded hs_recv_def], of I] step by simp
  then show "out (transport h') = out (transport h)" and "same_terms h h'" and "hs_auth h' = hs_auth h" and "desync h' = desync h"
    by (simp_all add: I_def)
qed

lemma hs_send_piece:
  assumes "hs_send io p h = Some (r, h')"
  shows "\<exists>x. piece_packet x = p \<and> out (transport h') = out (transport h) @ piece_bytes Compute x \<and> (r = Ok () \<longrightarrow> x = Whole p) \<and>
    same_terms h h' \<and> hs_auth h' = hs_auth h \<and> (r = Ok () \<longrightarrow> desync h' = desync h)"
proof -
  have s: "send_encoded io (command p) (arg0 p) (arg1 p) (data p) Compute h = (r, h')" using assms by (simp add: hs_send_def send_pkt_def)
  have p: "packet_new (command p) (arg0 p) (arg1 p) (data p) = p" by (simp add: packet_new_def)
  obtain t d where f: "h' = h\<lparr>transport := t, desync := d\<rparr>"
    using send_encoded_frame [of io "command p" "arg0 p" "arg1 p" "data p" Compute h] s by auto
  have "r = Ok () \<Longrightarrow> desync h' = desync h"
    using s by (auto simp: send_encoded_def and_then_def check_desync_def send_frame_def Let_def split: sum.splits outcome.splits prod.splits if_splits)
  then show ?thesis using send_piece [OF s] f unfolding p by (auto simp: same_terms_def)
qed

text \<open>What answering a token sends.\<close>

definition answers :: "'a authenticator \<Rightarrow> bytes \<Rightarrow> piece list \<Rightarrow> bool" where
  "answers A token xs \<longleftrightarrow> xs = [] \<or> (\<exists>a sig a' x. length token = AUTH_TOKEN_LEN \<and> a_sign A a token = (Done sig, a') \<and>
     (xs = [x] \<and> piece_packet x = auth_signature sig \<or>
      xs = [Whole (auth_signature sig), x] \<and> a_offer_public_key A a' \<and> piece_packet x = auth_public_key (a_public_key A a')))"

lemma hs_sign_cases:
  assumes "hs_sign A token h = Some (r, h')"
  shows "out (transport h') = out (transport h)" and "same_terms h h'" and "desync h' = desync h"
    and "r = Ok sig \<Longrightarrow> a_sign A (hs_auth h) token = (Done sig, hs_auth h')"
  using assms by (auto simp: hs_sign_def same_terms_def split: prod.splits polled.splits)

lemma offer_key_sends:
  fixes h :: "('t, 'a) handshake"
  assumes "offer_key io A h = Some (r, h')"
  shows "same_terms h h' \<and> (\<forall>v. r = Ok v \<longrightarrow> desync h' = desync h) \<and>
    (out (transport h') = out (transport h) \<or> a_offer_public_key A (hs_auth h) \<and>
      (\<exists>x. piece_packet x = auth_public_key (a_public_key A (hs_auth h)) \<and> out (transport h') = out (transport h) @ piece_bytes Compute x))"
proof (cases "a_offer_public_key A (hs_auth h)")
  case False
  then show ?thesis using assms by (auto simp: offer_key_def raise_def)
next
  case True
  let ?p = "auth_public_key (a_public_key A (hs_auth h))"
  define k where "k = (\<lambda>pkt. case verdict_of pkt of Inr verdict \<Rightarrow> ret verdict :: (('t, 'a) handshake, 'e, verdict) proc | Inl _ \<Rightarrow> raise (AuthFailed Rejected))"
  have same: "s' = s" if "k pkt s = Some (r, s')" for pkt s s'
    using that by (cases "verdict_of pkt") (simp_all add: k_def ret_def raise_def)
  have "then_do (hs_send io ?p) (\<lambda>_. then_do (hs_recv io) k) h = Some (r, h')" using assms True by (simp add: offer_key_def k_def)
  from then_do_cases [OF this] obtain q h1 where q: "hs_send io ?p h = Some (q, h1)"
    and rest: "(q = Ok () \<and> then_do (hs_recv io) k h1 = Some (r, h')) \<or> (h' = h1 \<and> (\<forall>v. r \<noteq> Ok v))" by auto
  obtain x where x: "piece_packet x = ?p" "out (transport h1) = out (transport h) @ piece_bytes Compute x" "same_terms h h1" "q = Ok () \<longrightarrow> desync h1 = desync h"
    using hs_send_piece [OF q] by blast
  have t: "out (transport h') = out (transport h1) \<and> same_terms h1 h' \<and> (\<forall>v. r = Ok v \<longrightarrow> desync h' = desync h)"
    using rest
  proof (elim disjE conjE)
    assume ok: "q = Ok ()" and f: "then_do (hs_recv io) k h1 = Some (r, h')"
    obtain q2 where q2: "hs_recv io h1 = Some (q2, h')" using then_do_cases [OF f] same by blast
    show ?thesis using hs_recv_quiet [OF q2] x(4) ok by simp
  qed simp
  have "same_terms h h'" using t same_terms_trans [OF x(3)] by blast
  then show ?thesis using True x(1,2) t by auto
qed

lemma do_auth_sends:
  assumes "do_auth io A token h = Some (r, h')"
  shows "same_terms h h' \<and> (\<forall>v. r = Ok v \<longrightarrow> desync h' = desync h) \<and>
    (\<exists>xs. answers A token xs \<and> out (transport h') = out (transport h) @ emitted Compute xs)"
proof (cases "length token = AUTH_TOKEN_LEN")
  case False
  then show ?thesis using assms by (auto simp: do_auth_def raise_def answers_def intro!: exI [of _ "[]"])
next
  case len: True
  define g where "g = (\<lambda>pkt. case verdict_of pkt of Inr verdict \<Rightarrow> ret verdict | Inl resp \<Rightarrow> if is_token resp then offer_key io A else raise (AuthFailed Rejected))"
  have "then_do (hs_sign A token) (\<lambda>sig. then_do (hs_send io (auth_signature sig)) (\<lambda>_. then_do (hs_recv io) g)) h = Some (r, h')"
    using assms len by (simp add: do_auth_def g_def)
  from then_do_cases [OF this] show ?thesis
  proof (elim disjE exE conjE)
    fix q assume "hs_sign A token h = Some (q, h')" "\<forall>v. r \<noteq> Ok v"
    then show ?thesis using hs_sign_cases [of A token h q h'] by (auto simp: answers_def intro!: exI [of _ "[]"])
  next
    fix sig h1 assume s: "hs_sign A token h = Some (Ok sig, h1)" and f: "then_do (hs_send io (auth_signature sig)) (\<lambda>_. then_do (hs_recv io) g) h1 = Some (r, h')"
    note sc = hs_sign_cases [OF s]
    from then_do_cases [OF f] obtain q h2 where q: "hs_send io (auth_signature sig) h1 = Some (q, h2)"
      and rest: "(q = Ok () \<and> then_do (hs_recv io) g h2 = Some (r, h')) \<or> (h' = h2 \<and> (\<forall>v. r \<noteq> Ok v))" by auto
    obtain x where x: "piece_packet x = auth_signature sig" "out (transport h2) = out (transport h1) @ piece_bytes Compute x" "q = Ok () \<longrightarrow> x = Whole (auth_signature sig)"
        "same_terms h1 h2" "hs_auth h2 = hs_auth h1" "q = Ok () \<longrightarrow> desync h2 = desync h1"
      using hs_send_piece [OF q] by blast
    have one: "answers A token [x]" using len sc(4) x(1) unfolding answers_def by blast
    have st2: "same_terms h h2" using sc(2) x(4) same_terms_trans by blast
    from rest show ?thesis
    proof (elim disjE conjE)
      assume "h' = h2" "\<forall>v. r \<noteq> Ok v"
      then show ?thesis using one st2 sc(1) x(2) by (auto intro!: exI [of _ "[x]"])
    next
      assume ok: "q = Ok ()" and f: "then_do (hs_recv io) g h2 = Some (r, h')"
      from then_do_cases [OF f] obtain q3 h3 where q3: "hs_recv io h2 = Some (q3, h3)"
        and rest: "(\<exists>pkt. q3 = Ok pkt \<and> g pkt h3 = Some (r, h')) \<or> (h' = h3 \<and> (\<forall>v. r \<noteq> Ok v))" by auto
      note rq = hs_recv_quiet [OF q3]
      have d3: "desync h3 = desync h" using rq(4) x(6) ok sc(3) by simp
      have st3: "same_terms h h3" using st2 rq(2) same_terms_trans by blast
      have stop: ?thesis if "h' = h3" using that one st3 sc(1) x(2) rq(1) d3 by (auto intro!: exI [of _ "[x]"])
      from rest show ?thesis
      proof (elim disjE exE conjE)
        fix pkt assume g: "g pkt h3 = Some (r, h')"
        show ?thesis
        proof (cases "\<exists>resp. verdict_of pkt = Inl resp \<and> is_token resp")
          case False
          then have "h' = h3" using g by (auto simp: g_def ret_def raise_def split: sum.splits if_splits)
          then show ?thesis by (rule stop)
        next
          case True
          then have "offer_key io A h3 = Some (r, h')" using g by (auto simp: g_def)
          note ok3 = offer_key_sends [OF this]
          have w: "answers A token [Whole (auth_signature sig), y]" if "a_offer_public_key A (hs_auth h3)"
              "piece_packet y = auth_public_key (a_public_key A (hs_auth h3))" for y
            using that len sc(4) rq(3) x(5) unfolding answers_def by (metis (no_types, lifting))
          have o3: "out (transport h3) = out (transport h) @ piece_bytes Compute (Whole (auth_signature sig))"
            using sc(1) x(2,3) rq(1) ok by simp
          from ok3 have "\<exists>xs. answers A token xs \<and> out (transport h') = out (transport h) @ emitted Compute xs"
          proof (elim conjE disjE exE)
            assume "out (transport h') = out (transport h3)"
            then show ?thesis using one x(3) ok o3 by (intro exI [of _ "[x]"]) simp
          next
            fix y assume y: "a_offer_public_key A (hs_auth h3)" "piece_packet y = auth_public_key (a_public_key A (hs_auth h3))"
              "out (transport h') = out (transport h3) @ piece_bytes Compute y"
            then show ?thesis using w [OF y(1,2)] o3 by (intro exI [of _ "[Whole (auth_signature sig), y]"]) simp
          qed
          then show ?thesis using ok3 st3 d3 same_terms_trans by blast
        qed
      qed (rule stop)
    qed
  qed
qed

lemma hs_open_sends:
  assumes "hs_open io A h = Some (r, h')"
  shows "same_terms h h' \<and> (\<forall>v. r = Ok v \<longrightarrow> desync h' = desync h) \<and>
    (\<exists>xs. script A (hello h) xs \<and> out (transport h') = out (transport h) @ emitted Compute xs)"
proof -
  define g where "g = (\<lambda>pkt. case verdict_of pkt of Inr verdict \<Rightarrow> ret verdict
    | Inl pkt \<Rightarrow> if is_token pkt then do_auth io A (data pkt) else raise (Protocol (UnexpectedCommand (command pkt))))"
  have "then_do (hs_send io (hello h)) (\<lambda>_. then_do (hs_recv io) g) h = Some (r, h')" using assms by (simp add: hs_open_def g_def)
  from then_do_cases [OF this] obtain q h1 where q: "hs_send io (hello h) h = Some (q, h1)"
    and rest: "(q = Ok () \<and> then_do (hs_recv io) g h1 = Some (r, h')) \<or> (h' = h1 \<and> (\<forall>v. r \<noteq> Ok v))" by auto
  obtain x where x: "piece_packet x = hello h" "out (transport h1) = out (transport h) @ piece_bytes Compute x" "q = Ok () \<longrightarrow> x = Whole (hello h)"
      "same_terms h h1" "q = Ok () \<longrightarrow> desync h1 = desync h"
    using hs_send_piece [OF q] by blast
  have one: "script A (hello h) [x]" by (rule script_hello [OF x(1)])
  from rest show ?thesis
  proof (elim disjE conjE)
    assume "h' = h1" "\<forall>v. r \<noteq> Ok v"
    then show ?thesis using one x(2,4) by (auto intro!: exI [of _ "[x]"])
  next
    assume ok: "q = Ok ()" and f: "then_do (hs_recv io) g h1 = Some (r, h')"
    from then_do_cases [OF f] obtain q2 h2 where q2: "hs_recv io h1 = Some (q2, h2)"
      and rest: "(\<exists>pkt. q2 = Ok pkt \<and> g pkt h2 = Some (r, h')) \<or> (h' = h2 \<and> (\<forall>v. r \<noteq> Ok v))" by auto
    note rq = hs_recv_quiet [OF q2]
    have st: "same_terms h h2" using x(4) rq(2) same_terms_trans by blast
    have d: "desync h2 = desync h" using rq(4) x(5) ok by simp
    have o2: "out (transport h2) = out (transport h) @ emitted Compute [Whole (hello h)]" using x(2,3) ok rq(1) by simp
    have stop: ?thesis if "h' = h2" using that one x(3) ok st d o2 by (auto intro!: exI [of _ "[x]"])
    from rest show ?thesis
    proof (elim disjE exE conjE)
      fix pkt assume g: "g pkt h2 = Some (r, h')"
      show ?thesis
      proof (cases "\<exists>p. verdict_of pkt = Inl p \<and> is_token p")
        case False
        then have "h' = h2" using g by (auto simp: g_def ret_def raise_def split: sum.splits if_splits)
        then show ?thesis by (rule stop)
      next
        case True
        then obtain token where "do_auth io A token h2 = Some (r, h')" using g by (auto simp: g_def)
        from do_auth_sends [OF this] obtain xs where xs: "same_terms h2 h'" "\<forall>v. r = Ok v \<longrightarrow> desync h' = desync h2" "answers A token xs"
          "out (transport h') = out (transport h2) @ emitted Compute xs" by blast
        have "script A (hello h) (Whole (hello h) # xs)"
          using xs(3) unfolding answers_def by (auto intro: script_hello script_signed script_offered)
        then show ?thesis using xs st d o2 same_terms_trans [OF st xs(1)] by (auto intro!: exI [of _ "Whole (hello h) # xs"])
      qed
    qed (rule stop)
  qed
qed

lemma assemble_cases:
  assumes "assemble cnxn h = Some (r, h')"
  shows "h' = h \<and> (\<forall>c. r = Ok c \<longrightarrow> (\<exists>neg. negotiated_new (hs_banner h) cnxn (hs_config h) = Inr neg \<and>
      c = \<lparr>transport = transport h, recv_buf = recv_buf h, desync = desync h,
         table = table_new (max_channels (neg_config neg)) (rx_policy_of neg), conn_neg = neg, incoming = []\<rparr>))"
  using assms by (cases "negotiated_new (hs_banner h) cnxn (hs_config h)") (auto simp: assemble_def ret_def raise_def)

lemma connect_sends:
  fixes h' :: "('t, 'a) handshake"
  assumes "connect io A t auth banner cfg = Some (r, h')"
  shows "(\<exists>xs. script A (packet_new Connect ADB_VERSION (max_payload cfg) (to_bytes banner)) xs \<and>
      out (transport h') = out t @ emitted Compute xs) \<and>
    (\<forall>c. r = Ok c \<longrightarrow> (\<exists>cnxn neg. negotiated_new (to_bytes banner) cnxn cfg = Inr neg \<and>
       c = \<lparr>transport = transport h', recv_buf = recv_buf h', desync = False,
         table = table_new (max_channels cfg) (rx_policy_of neg), conn_neg = neg, incoming = []\<rparr>))"
proof -
  define h where "h = handshake_new t auth banner cfg"
  have h: "hello h = packet_new Connect ADB_VERSION (max_payload cfg) (to_bytes banner)" "transport h = t" "\<not> desync h"
      "hs_banner h = to_bytes banner" "hs_config h = cfg"
    by (simp_all add: h_def handshake_new_def hello_def)
  define g where "g = (\<lambda>verdict. case verdict of Connected cnxn \<Rightarrow> assemble cnxn :: (('t, 'a) handshake, 'e, 't connection) proc
    | Upgrade _ \<Rightarrow> raise (Protocol TlsRequired))"
  have "then_do (hs_open io A) g h = Some (r, h')" using assms by (simp add: connect_def g_def h_def)
  from then_do_cases [OF this] obtain q h1 where q: "hs_open io A h = Some (q, h1)"
    and rest: "(\<exists>v. q = Ok v \<and> g v h1 = Some (r, h')) \<or> (h' = h1 \<and> (\<forall>v. r \<noteq> Ok v))" by auto
  note o1 = hs_open_sends [OF q]
  have keep: "h' = h1 \<and> (\<forall>c. r = Ok c \<longrightarrow> (\<exists>v cnxn neg. q = Ok v \<and> negotiated_new (hs_banner h1) cnxn (hs_config h1) = Inr neg \<and>
      c = \<lparr>transport = transport h1, recv_buf = recv_buf h1, desync = desync h1,
         table = table_new (max_channels (neg_config neg)) (rx_policy_of neg), conn_neg = neg, incoming = []\<rparr>))"
    using rest
  proof (elim disjE exE conjE)
    fix v assume v: "q = Ok v" "g v h1 = Some (r, h')"
    show ?thesis
    proof (cases v)
      case (Connected cnxn)
      then have "assemble cnxn h1 = Some (r, h')" using v(2) by (simp add: g_def)
      from assemble_cases [OF this] show ?thesis using v(1) by blast
    qed (use v(2) in \<open>auto simp: g_def raise_def\<close>)
  qed simp
  show ?thesis
  proof (intro conjI allI impI)
    show "\<exists>xs. script A (packet_new Connect ADB_VERSION (max_payload cfg) (to_bytes banner)) xs \<and> out (transport h') = out t @ emitted Compute xs"
      using o1 keep h(1,2) by auto
    fix c assume "r = Ok c"
    then obtain v cnxn neg where c: "q = Ok v" "negotiated_new (hs_banner h1) cnxn (hs_config h1) = Inr neg"
      "c = \<lparr>transport = transport h1, recv_buf = recv_buf h1, desync = desync h1,
         table = table_new (max_channels (neg_config neg)) (rx_policy_of neg), conn_neg = neg, incoming = []\<rparr>" using keep by blast
    have "desync h1 = False" "hs_banner h1 = to_bytes banner" "hs_config h1 = cfg" using o1 c(1) h by (simp_all add: same_terms_def)
    moreover have "neg_config neg = cfg" using negotiated_new_Inr(3) [OF c(2)] calculation by simp
    ultimately show "\<exists>cnxn neg. negotiated_new (to_bytes banner) cnxn cfg = Inr neg \<and>
       c = \<lparr>transport = transport h', recv_buf = recv_buf h', desync = False,
         table = table_new (max_channels cfg) (rx_policy_of neg), conn_neg = neg, incoming = []\<rparr>" using c(2,3) keep by auto
  qed
qed

end

lemma new_connection_ok:
  "conn_ok \<lparr>transport = t, recv_buf = b, desync = d, table = table_new n (rx_policy_of neg), conn_neg = neg, incoming = []\<rparr>"
  by (auto simp: conn_ok_def table_new_def slots_ok_def)

section \<open>A device that lets the host in\<close>

definition device_bytes :: "packet list \<Rightarrow> bytes" where
  "device_bytes ps = concat (map (wire_image Compute) ps)"

lemma device_bytes_simps [simp]: "device_bytes [] = []" "device_bytes (p # ps) = wire_image Compute p @ device_bytes ps"
  "device_bytes (ps @ qs) = device_bytes ps @ device_bytes qs"
  by (simp_all add: device_bytes_def)

definition stale :: "packet \<Rightarrow> bool" where
  "stale p \<longleftrightarrow> command p \<in> {Close, Ready, Write, Open}"

text \<open>One turn of the device: packets for channels of an earlier connection, then one for the handshake.\<close>

definition device_turn :: "u32 \<Rightarrow> packet list \<times> packet \<Rightarrow> bool" where
  "device_turn mp = (\<lambda>(ss, p). list_all stale ss \<and> command p \<in> {Connect, Auth, StartTls} \<and>
     list_all (\<lambda>p. length (data p) \<le> unat mp) (p # ss))"

definition turn_bytes :: "packet list \<times> packet \<Rightarrow> bytes" where
  "turn_bytes = (\<lambda>(ss, p). device_bytes (ss @ [p]))"

context live_wire
begin

definition reached :: "('t, 'a) handshake \<Rightarrow> bytes \<Rightarrow> 'a \<Rightarrow> ('t, 'a) handshake \<Rightarrow> bool" where
  "reached h0 bs a h \<longleftrightarrow> alive (transport h) \<and> \<not> desync h \<and> backlog inp h = bs \<and> same_terms h0 h \<and> hs_auth h = a"

lemma hs_recv_reached:
  fixes h0 :: "('t, 'a) handshake"
  assumes "reached h0 (turn_bytes (ss, p) @ rest) a h" and "device_turn (max_payload (hs_config h0)) (ss, p)" and "max_payload (hs_config h0) \<le> MAX_PAYLOAD"
  shows "succeeds (hs_recv io) h (\<lambda>r h'. r = p \<and> reached h0 rest a h')"
proof -
  have one: "\<exists>h'. recv_pkt io (max_payload (hs_config h)) h = (Ok q, h') \<and> reached h0 more a h'"
    if r: "reached h0 (wire_image Compute q @ more) a h" and len: "length (data q) \<le> unat (max_payload (hs_config h0))" for q more and h :: "('t, 'a) handshake"
  proof -
    have cfg: "hs_config h = hs_config h0" using r by (simp add: reached_def same_terms_def)
    have "length (data q) \<le> unat MAX_PAYLOAD" using len assms(3) by (simp add: word_le_nat_alt)
    then obtain w where w: "encode q Compute = Inr w" by (auto simp: encode_def encode_header_def split: if_splits)
    then have b: "recv_buf h @ inp (transport h) = w @ more" "alive (transport h)" using r by (simp_all add: reached_def backlog_def wire_image_def)
    obtain h' where h': "recv_pkt io (max_payload (hs_config h)) h = (Ok q, h')" "recv_buf h' @ inp (transport h') = more" "alive (transport h')"
      using recv_pkt_live [OF b(2) w _ b(1), of "max_payload (hs_config h)"] len cfg by auto
    obtain t bf where "h' = h\<lparr>transport := t, recv_buf := bf\<rparr>"
      using recv_pkt_or_frame [of io never True "max_payload (hs_config h)" h] recv_pkt_snd [of io "max_payload (hs_config h)" h] h'(1) by auto
    then show ?thesis using h' r by (auto simp: reached_def backlog_def same_terms_def)
  qed
  show ?thesis using assms(1,2) unfolding hs_recv_def
  proof (induction ss arbitrary: h)
    case Nil
    then obtain h' where h': "recv_pkt io (max_payload (hs_config h)) h = (Ok p, h')" "reached h0 rest a h'"
      using one [of p rest h] by (auto simp: turn_bytes_def device_turn_def)
    have "hs_recv_round io () h = Some (Ok (Inr p), h')"
      using h'(1) Nil.prems(2) by (simp add: hs_recv_round_def then_do_def ret_def device_turn_def)
    then show ?case using h'(2) by (intro ends_repeat_step) (simp add: ends_def)
  next
    case (Cons q ss)
    then obtain h' where h': "recv_pkt io (max_payload (hs_config h)) h = (Ok q, h')" "reached h0 (turn_bytes (ss, p) @ rest) a h'"
      using one [of q "turn_bytes (ss, p) @ rest" h] by (auto simp: turn_bytes_def device_turn_def)
    have "hs_recv_round io () h = Some (Ok (Inl ()), h')"
      using h'(1) Cons.prems(2) by (auto simp: hs_recv_round_def then_do_def ret_def device_turn_def stale_def)
    moreover have "device_turn (max_payload (hs_config h0)) (ss, p)" using Cons.prems(2) by (simp add: device_turn_def)
    ultimately show ?case using Cons.IH [OF h'(2)] by (intro ends_repeat_step) (simp add: ends_def)
  qed
qed

lemma hs_send_reached:
  assumes "reached h0 bs a h" and "length (data p) \<le> unat MAX_PAYLOAD"
  shows "succeeds (hs_send io p) h (\<lambda>_ h'. reached h0 bs a h')"
proof -
  obtain t where t: "send_encoded io (command p) (arg0 p) (arg1 p) (data p) Compute h = (Ok (), h\<lparr>transport := t\<rparr>)" "alive t" "inp t = inp (transport h)"
    using send_live [of h "data p"] assms unfolding reached_def by blast
  have "reached h0 bs a (h\<lparr>transport := t\<rparr>)" using assms(1) t(2,3) by (auto simp: reached_def backlog_def same_terms_def)
  then show ?thesis using t(1) by (simp add: ends_def hs_send_def send_pkt_def)
qed

lemma offer_key_reached:
  assumes "reached h0 (turn_bytes (ss, cnxn) @ rest) a h" and "device_turn (max_payload (hs_config h0)) (ss, cnxn)"
    and "max_payload (hs_config h0) \<le> MAX_PAYLOAD" and "command cnxn = Connect" and "a_offer_public_key A a" and "length (a_public_key A a) \<le> unat MAX_PAYLOAD"
  shows "succeeds (offer_key io A) h (\<lambda>v h'. v = Connected cnxn \<and> reached h0 rest a h')"
proof -
  have a: "hs_auth h = a" using assms(1) by (simp add: reached_def)
  have "length (data (auth_public_key (a_public_key A a))) \<le> unat MAX_PAYLOAD" using assms(6) by (simp add: auth_public_key_def packet_new_def)
  note send = hs_send_reached [OF assms(1) this]
  have "succeeds (then_do (hs_send io (auth_public_key (a_public_key A a))) (\<lambda>_.
        then_do (hs_recv io) (\<lambda>pkt. case verdict_of pkt of Inr verdict \<Rightarrow> ret verdict | Inl _ \<Rightarrow> raise (AuthFailed Rejected)))) h
      (\<lambda>v h'. v = Connected cnxn \<and> reached h0 rest a h')"
    by (rule ends_seq [OF send], rule ends_seq [OF hs_recv_reached [OF _ assms(2,3)]], assumption)
      (use assms(4) in \<open>simp add: verdict_of_def ends_ret\<close>)
  then show ?thesis by (rule ends_at [rotated]) (use a assms(5) in \<open>simp add: offer_key_def\<close>)
qed

lemma do_auth_reached:
  assumes "reached h0 (concat (map turn_bytes (rounds @ [(ss, cnxn)])) @ rest) a h"
    and "list_all (device_turn (max_payload (hs_config h0))) (rounds @ [(ss, cnxn)])" and "list_all (\<lambda>(_, p). is_token p) rounds"
    and "length rounds \<le> 1" and "max_payload (hs_config h0) \<le> MAX_PAYLOAD" and "command cnxn = Connect"
    and "length token = AUTH_TOKEN_LEN" and "a_sign A a token = (Done sig, a')" and "length sig \<le> unat MAX_PAYLOAD"
    and "rounds \<noteq> [] \<Longrightarrow> a_offer_public_key A a' \<and> length (a_public_key A a') \<le> unat MAX_PAYLOAD"
  shows "succeeds (do_auth io A token) h (\<lambda>v h'. v = Connected cnxn \<and> reached h0 rest a' h')"
proof -
  let ?bs = "concat (map turn_bytes (rounds @ [(ss, cnxn)])) @ rest"
  have sign: "succeeds (hs_sign A token) h (\<lambda>s h'. s = sig \<and> reached h0 ?bs a' h')"
    using assms(1,8) by (auto simp: ends_def hs_sign_def reached_def backlog_def same_terms_def)
  have len: "length (data (auth_signature sig)) \<le> unat MAX_PAYLOAD" using assms(9) by (simp add: auth_signature_def packet_new_def)
  define g where "g = (\<lambda>pkt. case verdict_of pkt of Inr verdict \<Rightarrow> ret verdict | Inl resp \<Rightarrow> if is_token resp then offer_key io A else raise (AuthFailed Rejected))"
  have rest: "succeeds (then_do (hs_recv io) g) h2 (\<lambda>v h'. v = Connected cnxn \<and> reached h0 rest a' h')" if h2: "reached h0 ?bs a' h2" for h2
  proof (cases rounds)
    case Nil
    then have "reached h0 (turn_bytes (ss, cnxn) @ rest) a' h2" "device_turn (max_payload (hs_config h0)) (ss, cnxn)" using h2 assms(2) by simp_all
    from hs_recv_reached [OF this assms(5)] show ?thesis
      by (rule ends_seq) (use assms(6) in \<open>simp add: g_def verdict_of_def ends_ret\<close>)
  next
    case (Cons r more)
    obtain ss1 p where r: "r = (ss1, p)" "more = []" using Cons assms(4) by (cases r) auto
    have t: "reached h0 (turn_bytes (ss1, p) @ (turn_bytes (ss, cnxn) @ rest)) a' h2" "device_turn (max_payload (hs_config h0)) (ss1, p)"
      "device_turn (max_payload (hs_config h0)) (ss, cnxn)" "is_token p"
      using h2 assms(2,3) Cons r by simp_all
    have offer: "a_offer_public_key A a'" "length (a_public_key A a') \<le> unat MAX_PAYLOAD" using assms(10) Cons by simp_all
    from hs_recv_reached [OF t(1,2) assms(5)] show ?thesis
    proof (rule ends_seq, elim conjE)
      fix q h3 assume q: "q = p" and h3: "reached h0 (turn_bytes (ss, cnxn) @ rest) a' h3"
      have "g q = offer_key io A" using q t(4) by (simp add: g_def verdict_of_def is_token_def)
      then show "succeeds (g q) h3 (\<lambda>v h'. v = Connected cnxn \<and> reached h0 rest a' h')"
        using offer_key_reached [OF h3 t(3) assms(5,6) offer] by simp
    qed
  qed
  have "succeeds (then_do (hs_sign A token) (\<lambda>signature. then_do (hs_send io (auth_signature signature)) (\<lambda>_. then_do (hs_recv io) g))) h
      (\<lambda>v h'. v = Connected cnxn \<and> reached h0 rest a' h')"
    by (rule ends_seq [OF sign], elim conjE, hypsubst, rule ends_seq [OF hs_send_reached [OF _ len]], assumption, rule rest)
  then show ?thesis using assms(7) by (simp add: do_auth_def g_def)
qed

lemma hs_open_reached:
  assumes "reached h (concat (map turn_bytes (rounds @ [(ss, cnxn)])) @ rest) a h"
    and "list_all (device_turn (max_payload (hs_config h))) (rounds @ [(ss, cnxn)])" and "list_all (\<lambda>(_, p). is_token p) rounds"
    and "length rounds \<le> 2" and "max_payload (hs_config h) \<le> MAX_PAYLOAD" and "command cnxn = Connect" and "length (hs_banner h) \<le> unat MAX_PAYLOAD"
    and "\<And>ss p more. rounds = (ss, p) # more \<Longrightarrow> length (data p) = AUTH_TOKEN_LEN \<and> a_sign A a (data p) = (Done sig, a') \<and> length sig \<le> unat MAX_PAYLOAD"
    and "length rounds = 2 \<Longrightarrow> a_offer_public_key A a' \<and> length (a_public_key A a') \<le> unat MAX_PAYLOAD"
  shows "succeeds (hs_open io A) h (\<lambda>v h'. v = Connected cnxn \<and> reached h rest (if rounds = [] then a else a') h')"
proof -
  let ?bs = "concat (map turn_bytes (rounds @ [(ss, cnxn)])) @ rest" and ?Q = "\<lambda>v h'. v = Connected cnxn \<and> reached h rest (if rounds = [] then a else a') h'"
  define g where "g = (\<lambda>pkt. case verdict_of pkt of Inr verdict \<Rightarrow> ret verdict
    | Inl pkt \<Rightarrow> if is_token pkt then do_auth io A (data pkt) else raise (Protocol (UnexpectedCommand (command pkt))))"
  have len: "length (data (hello h)) \<le> unat MAX_PAYLOAD" using assms(7) by (simp add: hello_def packet_new_def)
  have rest: "succeeds (then_do (hs_recv io) g) h2 ?Q" if h2: "reached h ?bs a h2" for h2
  proof (cases rounds)
    case Nil
    then have "reached h (turn_bytes (ss, cnxn) @ rest) a h2" "device_turn (max_payload (hs_config h)) (ss, cnxn)" using h2 assms(2) by simp_all
    from hs_recv_reached [OF this assms(5)] show ?thesis
      by (rule ends_seq) (use assms(6) Nil in \<open>simp add: g_def verdict_of_def ends_ret\<close>)
  next
    case (Cons r more)
    obtain ss1 p where r: "r = (ss1, p)" by (cases r)
    have t: "reached h (turn_bytes (ss1, p) @ (concat (map turn_bytes (more @ [(ss, cnxn)])) @ rest)) a h2" "device_turn (max_payload (hs_config h)) (ss1, p)"
      "is_token p" "list_all (device_turn (max_payload (hs_config h))) (more @ [(ss, cnxn)])" "list_all (\<lambda>(_, p). is_token p) more" "length more \<le> 1"
      using h2 assms(2,3,4) Cons r by simp_all
    note first = assms(8) [OF Cons [unfolded r]]
    have offer: "a_offer_public_key A a' \<and> length (a_public_key A a') \<le> unat MAX_PAYLOAD" if "more \<noteq> []"
      using assms(9) Cons t(6) that by (cases more) auto
    from hs_recv_reached [OF t(1,2) assms(5)] show ?thesis
    proof (rule ends_seq, elim conjE)
      fix q h3 assume q: "q = p" and h3: "reached h (concat (map turn_bytes (more @ [(ss, cnxn)])) @ rest) a h3"
      have "g q = do_auth io A (data p)" using q t(3) by (simp add: g_def verdict_of_def is_token_def)
      then show "succeeds (g q) h3 ?Q"
        using do_auth_reached [OF h3 t(4,5,6) assms(5,6), of "data p" A sig a'] first offer Cons by simp
    qed
  qed
  have "succeeds (then_do (hs_send io (hello h)) (\<lambda>_. then_do (hs_recv io) g)) h ?Q"
    by (rule ends_seq [OF hs_send_reached [OF assms(1) len]], rule rest)
  then show ?thesis by (rule ends_at [rotated]) (simp add: hs_open_def g_def)
qed

lemma connect_reached:
  assumes "alive t" and "inp t = concat (map turn_bytes (rounds @ [(ss, cnxn)])) @ rest"
    and "list_all (device_turn (max_payload cfg)) (rounds @ [(ss, cnxn)])" and "list_all (\<lambda>(_, p). is_token p) rounds"
    and "length rounds \<le> 2" and "max_payload cfg \<le> MAX_PAYLOAD" and "command cnxn = Connect" and "length (to_bytes banner) \<le> unat MAX_PAYLOAD"
    and "\<And>ss p more. rounds = (ss, p) # more \<Longrightarrow> length (data p) = AUTH_TOKEN_LEN \<and> a_sign A auth (data p) = (Done sig, a') \<and> length sig \<le> unat MAX_PAYLOAD"
    and "length rounds = 2 \<Longrightarrow> a_offer_public_key A a' \<and> length (a_public_key A a') \<le> unat MAX_PAYLOAD"
    and "negotiated_new (to_bytes banner) cnxn cfg = Inr neg"
  shows "\<exists>c h'. connect io A t auth banner cfg = Some (Ok c, h') \<and> backlog inp c = rest \<and> conn_neg c = neg \<and> conn_ok c"
proof -
  define h where "h = handshake_new t auth banner cfg"
  have h: "hs_config h = cfg" "hs_banner h = to_bytes banner" by (simp_all add: h_def handshake_new_def)
  have start: "reached h (concat (map turn_bytes (rounds @ [(ss, cnxn)])) @ rest) auth h"
    using assms(1,2) by (simp add: reached_def h_def handshake_new_def backlog_def)
  obtain v h' where v: "hs_open io A h = Some (Ok v, h')" "v = Connected cnxn" "reached h rest (if rounds = [] then auth else a') h'"
    using hs_open_reached [OF start, of A sig a'] assms(3-10) unfolding h ends_def by blast
  have n: "negotiated_new (hs_banner h') cnxn (hs_config h') = Inr neg" using v(3) assms(11) h by (simp add: reached_def same_terms_def)
  have "connect io A t auth banner cfg = Some (Ok \<lparr>transport = transport h', recv_buf = recv_buf h', desync = desync h',
      table = table_new (max_channels (neg_config neg)) (rx_policy_of neg), conn_neg = neg, incoming = []\<rparr>, h')"
    using v(1,2) n by (simp add: connect_def h_def [symmetric] then_do_def assemble_def ret_def)
  then show ?thesis using v(3) new_connection_ok by (auto simp: reached_def backlog_def)
qed

end

section \<open>Properties\<close>


definition sample_auth :: "unit authenticator" where
  "sample_auth = \<lparr>a_sign = (\<lambda>_ token. (Done token, ())), a_public_key = (\<lambda>_. lit ''key''), a_offer_public_key = (\<lambda>_. True)\<rparr>"

definition sample_rounds :: "(packet list \<times> packet) list" where
  "sample_rounds = [([packet_new Close 0 1 []], packet_new Auth 1 0 (replicate 20 7)), ([], packet_new Auth 1 0 [])]"

definition sample_cnxn :: packet where
  "sample_cnxn = packet_new Connect ADB_VERSION 4096 (lit ''device::'')"

definition sample_device :: mock where
  "sample_device = mock_new\<lparr>inbound := concat (map turn_bytes (sample_rounds @ [([], sample_cnxn)]))\<rparr>"

lemma sample_banner: "from_bytes (data sample_cnxn) (max_banner_properties embedded) = Inr \<lparr>b_raw = lit ''device::'', b_state = (0, 6), b_serial = (7, 7),
    b_properties = [], b_features = []\<rparr>"
proof -
  have "utf8 (lit ''device::'')" by (rule utf8_all_ascii) simp
  then show ?thesis by (simp add: from_bytes_def sample_cnxn_def packet_new_def range_of_def)
qed

lemma sample_neg_new: "\<exists>neg. negotiated_new (to_bytes (Raw (lit ''host::''))) sample_cnxn embedded = Inr neg"
  using sample_banner by (simp add: negotiated_new_def Let_def)

lemma sample_connects:
  "\<exists>c h'. connect mock_io sample_auth sample_device () (Raw (lit ''host::'')) embedded = Some (Ok c, h')"
proof -
  obtain neg where n: "negotiated_new (to_bytes (Raw (lit ''host::''))) sample_cnxn embedded = Inr neg" using sample_neg_new by blast
  show ?thesis
    using mock_wire.connect_reached [of sample_device sample_rounds "[]" sample_cnxn "[]" embedded "Raw (lit ''host::'')" sample_auth "()" "replicate 20 7" "()" neg] n
    by (auto simp: sample_device_def healthy_def mock_new_def sample_rounds_def sample_cnxn_def device_turn_def is_token_def packet_new_def stale_def
        sample_auth_def AUTH_TOKEN_LEN_def embedded_def MAX_PAYLOAD_def auth_kind_try_from_def lit_def)
qed


text \<open>
  C13: a device that lets the host in is connected to.  Over a transport that works, when the
  device answers with its CNXN at once, or after one token that the authenticator signs, or
  after a second token when the public key is offered, with any packets of an earlier
  connection in between, \<open>connect\<close> returns a connection with what the device's CNXN says, and
  every byte behind the CNXN is still to be received.
\<close>

theorem connect_succeeds:
  assumes "live_wire io inp alive" and "alive t" and "inp t = concat (map turn_bytes (rounds @ [(ss, cnxn)])) @ rest"
    and "list_all (device_turn (max_payload cfg)) (rounds @ [(ss, cnxn)])" and "list_all (\<lambda>(_, p). is_token p) rounds"
    and "length rounds \<le> 2" and "config_ok cfg" and "command cnxn = Connect" and "length (to_bytes banner) \<le> unat MAX_PAYLOAD"
    and "case rounds of [] \<Rightarrow> True
      | (_, p) # _ \<Rightarrow> length (data p) = AUTH_TOKEN_LEN \<and> a_sign A auth (data p) = (Done sig, a') \<and> length sig \<le> unat MAX_PAYLOAD"
    and "length rounds = 2 \<Longrightarrow> a_offer_public_key A a' \<and> length (a_public_key A a') \<le> unat MAX_PAYLOAD"
    and "from_bytes (data cnxn) (max_banner_properties cfg) = Inr b"
  shows "\<exists>c h'. connect io A t auth banner cfg = Some (Ok c, h') \<and> backlog inp c = rest \<and> neg_banner (conn_neg c) = b \<and>
    neg_max_payload (conn_neg c) = min (arg1 cnxn) MAX_PAYLOAD \<and> protocol_version (conn_neg c) = min (arg0 cnxn) ADB_VERSION \<and> conn_ok c"
proof -
  obtain neg where n: "negotiated_new (to_bytes banner) cnxn cfg = Inr neg" using assms(12) by (simp add: negotiated_new_def Let_def)
  have mp: "max_payload cfg \<le> MAX_PAYLOAD" using assms(7) by (simp add: config_ok_def)
  have "\<exists>c h'. connect io A t auth banner cfg = Some (Ok c, h') \<and> backlog inp c = rest \<and> conn_neg c = neg \<and> conn_ok c"
    by (rule live_wire.connect_reached [where sig = sig, OF assms(1-6) mp assms(8,9) _ assms(11) n]) (use assms(10) in simp_all)
  then show ?thesis using negotiated_new_Inr [OF n] assms(12) by auto
qed

theorem connect_succeeds_witness:
  "\<exists>c h'. connect mock_io sample_auth sample_device () (Raw (lit ''host::'')) embedded = Some (Ok c, h') \<and> backlog inbound c = [] \<and>
    neg_max_payload (conn_neg c) = 4096 \<and> conn_ok c"
proof -
  have "\<exists>c h'. connect mock_io sample_auth sample_device () (Raw (lit ''host::'')) embedded = Some (Ok c, h') \<and> backlog inbound c = [] \<and>
      neg_banner (conn_neg c) = \<lparr>b_raw = lit ''device::'', b_state = (0, 6), b_serial = (7, 7), b_properties = [], b_features = []\<rparr> \<and>
      neg_max_payload (conn_neg c) = min (arg1 sample_cnxn) MAX_PAYLOAD \<and> protocol_version (conn_neg c) = min (arg0 sample_cnxn) ADB_VERSION \<and> conn_ok c"
    by (rule connect_succeeds [OF mock_wire.live_wire_axioms _ _ _ _ _ built_ok [OF built_embedded] _ _ _ _ sample_banner, where rounds = sample_rounds and ss = "[]" and sig = "replicate 20 7" and a' = "()"])
      (simp_all add: sample_device_def healthy_def mock_new_def sample_rounds_def sample_cnxn_def device_turn_def is_token_def packet_new_def stale_def
        sample_auth_def AUTH_TOKEN_LEN_def embedded_def MAX_PAYLOAD_def auth_kind_try_from_def lit_def)
  then show ?thesis by (auto simp: sample_cnxn_def packet_new_def MAX_PAYLOAD_def)
qed

end
