(* ===== verification/Spec2Isabelle.thy ===== *)
theory Spec2Isabelle
  imports Device_Banner Mock_Transport Flow_Control Shell_V2 Sync_Transfers Handshake
begin

text \<open>
  libadb, the host side of the Android Debug Bridge: a program that connects to a device over
  USB or TCP, authenticates, multiplexes channels over one byte stream with credit-based flow
  control, and speaks the services of the device on these channels.

  \<^bold>\<open>The program.\<close>  Packets of 24 bytes and a payload (\<open>base/protocol\<close>) travel over a transport
  (\<open>base/wire.rs\<close>).  A handshake (\<open>base/connection/handshake.rs\<close>, \<open>tls.rs\<close>) exchanges banners
  (\<open>base/device_banner.rs\<close>, \<open>connection/banner.rs\<close>) and settles the limits of the connection
  (\<open>base/negotiated.rs\<close>, \<open>connection/config.rs\<close>).  The connection (\<open>base/connection.rs\<close>) has a
  table of channels (\<open>base/channel_table.rs\<close>), each with a slot that keeps its receive buffer
  and its credit (\<open>base/slot.rs\<close>) and a queue of senders (\<open>base/send_queue.rs\<close>).  Services open
  a channel on it (\<open>base/session.rs\<close>, \<open>base/channel.rs\<close>) with a destination
  (\<open>base/destination.rs\<close>) and read records through a buffer (\<open>base/recv_buf.rs\<close>): the framed
  shell (\<open>shell/v2.rs\<close>) and file transfer (\<open>sync.rs\<close>).

  \<^bold>\<open>How it is modelled.\<close>  A struct is a record, an enum a datatype, and a function of the source
  the function of the same name, or of that name with the prefix of its type.  Words keep their
  width; a \<open>usize\<close> is a natural number with the bounds of 64 bits written out where the code
  computes at them.  A result is a sum or, where the future may also be dropped or the code
  panic, an \<open>outcome\<close>: \<open>Ok\<close>, \<open>Err\<close>, \<open>Cancelled\<close> (dropped at an await) and \<open>Panicked\<close>.  State
  is passed explicitly.  Loops that wait for the device are partial functions, so that a wait
  that never ends is \<open>None\<close>; where a theorem says that a call returns, it proves \<open>Some\<close>.

  \<^item> \<open>Adb_Prelude\<close>: machine integers, little-endian words, slices and strings of the core library.
  \<^item> \<open>Adb_Types\<close>: commands, constants and the error types (\<open>command.rs\<close>, \<open>constant.rs\<close>, \<open>error.rs\<close>).
  \<^item> \<open>Packet_Codec\<close>: checksum, header and packet (\<open>message.rs\<close>, \<open>packet.rs\<close>); encoding and
    decoding are inverse, the decoder asks for exactly what is missing and rejects the rest.
  \<^item> \<open>Byte_Text\<close>, \<open>Device_Banner\<close>: UTF-8 and the banners; printing and parsing are inverse.
  \<^item> \<open>Conn_Config\<close>, \<open>Negotiation\<close>: limits and watermarks.
  \<^item> \<open>Wire\<close>: receiving and sending packets, over any transport.  Its promises are the locales
    \<open>sink\<close> and those of \<open>Mock_Transport\<close>, where the scripted transport of the source
    (\<open>base/mock.rs\<close>) is their instance: what is sent is received, no byte is lost to an
    interrupt or a dropped future, a half-sent packet marks the connection.
  \<^item> \<open>Send_Queue\<close>: the counters and the set of abandoned places are a FIFO queue (locale
    \<open>ticket_queue\<close>).
  \<^item> \<open>Channel_Slot\<close>, \<open>Flow_Control\<close>: the slot, and the system of device and host on one channel
    as a step relation: the buffer is never overrun, the stream is kept, nobody is stuck.
  \<^item> \<open>Channel_Table\<close>: handles map to slots (locale \<open>handle_map\<close>); a packet reaches its slot only.
  \<^item> \<open>Looping\<close>, \<open>Connection\<close>, \<open>Connection_Streams\<close>, \<open>Connection_Props\<close>: the operations of a
    connection, its invariant, the order and completeness of what is read and written, what an
    aborted call leaves behind, and that every wait on a device that falls silent ends.
  \<^item> \<open>Procedures\<close>: the control flow of the services and total correctness for them (\<open>ends\<close>).
  \<^item> \<open>Session\<close>: channels as streams (locale \<open>channel_stream\<close>), kept by the connection;
    \<open>Channel_Log\<close> adds what was written (locale \<open>channel_log\<close>).
  \<^item> \<open>Destination\<close>, \<open>Recv_Buf\<close>, \<open>Shell_V2\<close>: quoted command lines split back into their
    arguments; a command's output is collected exactly, whatever the sizes of frames, packets
    and buffer.
  \<^item> \<open>Sync_Service\<close>, \<open>Sync_Transfers\<close>: file transfer and listings return and send exactly the
    file and the directory, or the device's refusal.
  \<^item> \<open>Handshake\<close>: what goes out before a connection exists, and that a device that lets the host
    in is connected to; the authenticator and the TLS session are parameters.

  \<^bold>\<open>Bounds.\<close>  There is no fuel except in the definitions with which theorems read a byte stream
  back (the device's side of a push, the shell's splitting of a command line); it is the
  length of what is read, which every turn shortens.  The counters of the send queue are
  natural numbers for \<open>u64\<close>.  Configurations are all those the public interface can build.

  \<^bold>\<open>Not modelled.\<close>  The reader and writer halves of a split connection (\<open>split\<close>); the services
  that only wrap what is modelled (\<open>shell/v1.rs\<close>, \<open>exec.rs\<close>, \<open>abb.rs\<close>, \<open>cmd.rs\<close>) or parse small
  formats (\<open>logcat\<close>, \<open>reverse.rs\<close>, \<open>track_app.rs\<close>); keys, pairing and TLS, which call
  cryptographic libraries; the transports, which are I/O; the C interface; logging, and the
  texts errors are printed as.
\<close>

end
